(* ===== verification/Svc_Prelude.thy ===== *)
theory Svc_Prelude
  imports Main
begin

text \<open>
  Shared vocabulary of the development: byte strings, machine integers written as \<open>nat\<close> or
  \<open>int\<close> with their range made explicit, slices and index loops over byte arrays, and the
  collections of simplification rules the components fill.

  A \<open>u8\<close> buffer that holds text is a \<open>char list\<close>: a \<open>char\<close> of HOL is exactly a byte.
  Unsigned integers are \<open>nat\<close>, signed ones \<open>int\<close>; every operation of the code that can leave
  the range of its type goes through one of the wrapping or saturating functions below.
\<close>

section \<open>Types\<close>

type_synonym bytes = string

abbreviation NUL :: char where "NUL \<equiv> CHR 0x00"
abbreviation LF :: char where "LF \<equiv> CHR 0x0A"
abbreviation CR :: char where "CR \<equiv> CHR 0x0D"
abbreviation TAB :: char where "TAB \<equiv> CHR 0x09"

named_theorems frame_simps \<open>what an operation leaves unchanged\<close>
named_theorems bytes_simps \<open>the byte-string reading of buffer operations\<close>

section \<open>Machine integers\<close>

abbreviation (input) u32_max :: nat where "u32_max \<equiv> 4294967295"
abbreviation (input) u64_max :: nat where "u64_max \<equiv> 18446744073709551615"
abbreviation (input) i32_max :: nat where "i32_max \<equiv> 2147483647"
abbreviation (input) i64_max :: int where "i64_max \<equiv> 9223372036854775807"
abbreviation (input) i64_min :: int where "i64_min \<equiv> - 9223372036854775808"
abbreviation (input) usize_max :: nat where "usize_max \<equiv> 18446744073709551615"

text \<open>Two's complement wrap-around at 64 bits, and \<open>u32\<close> addition (release profile:
  \<open>overflow-checks = false\<close>).\<close>

definition wrap_i64 :: "int \<Rightarrow> int" where
  "wrap_i64 x = (x + 9223372036854775808) mod 18446744073709551616 - 9223372036854775808"

definition wrap_u32 :: "nat \<Rightarrow> nat" where
  "wrap_u32 n = n mod 4294967296"

definition in_i64 :: "int \<Rightarrow> bool" where
  "in_i64 x \<longleftrightarrow> i64_min \<le> x \<and> x \<le> i64_max"

definition wrap_i32 :: "int \<Rightarrow> int" where
  "wrap_i32 x = (x + 2147483648) mod 4294967296 - 2147483648"

definition in_i32 :: "int \<Rightarrow> bool" where
  "in_i32 x \<longleftrightarrow> - 2147483648 \<le> x \<and> x \<le> 2147483647"

lemma wrap_i32_in: "in_i32 (wrap_i32 x)"
proof -
  have "0 \<le> (x + 2147483648) mod 4294967296" and "(x + 2147483648) mod 4294967296 < 4294967296"
    by simp_all
  then show ?thesis unfolding wrap_i32_def in_i32_def by linarith
qed

lemma in_i32_i64: "in_i32 x \<Longrightarrow> in_i64 x"
  by (simp add: in_i32_def in_i64_def)

lemma wrap_i64_id: "in_i64 x \<Longrightarrow> wrap_i64 x = x"
  by (simp add: wrap_i64_def in_i64_def)

lemma wrap_i64_in: "in_i64 (wrap_i64 x)"
proof -
  have "0 \<le> (x + 9223372036854775808) mod 18446744073709551616"
    and "(x + 9223372036854775808) mod 18446744073709551616 < 18446744073709551616"
    by simp_all
  then show ?thesis unfolding wrap_i64_def in_i64_def by linarith
qed

lemma wrap_u32_le: "wrap_u32 n \<le> u32_max"
proof -
  have "n mod 4294967296 < 4294967296" by simp
  then show ?thesis unfolding wrap_u32_def by linarith
qed

lemma wrap_u32_id: "n \<le> u32_max \<Longrightarrow> wrap_u32 n = n"
  by (simp add: wrap_u32_def)

section \<open>ASCII digits\<close>

definition is_digit :: "char \<Rightarrow> bool" where
  "is_digit c \<longleftrightarrow> (48::nat) \<le> of_char c \<and> (of_char c :: nat) \<le> 57"

definition digit_val :: "char \<Rightarrow> nat" where
  "digit_val c = of_char c - 48"

definition digit_char :: "nat \<Rightarrow> char" where
  "digit_char d = char_of (48 + d)"

lemma digit_val_digit_char: "d < 10 \<Longrightarrow> digit_val (digit_char d) = d"
  by (simp add: digit_val_def digit_char_def)

lemma is_digit_digit_char: "d < 10 \<Longrightarrow> is_digit (digit_char d)"
  by (simp add: is_digit_def digit_char_def)

lemma digit_val_less: "is_digit c \<Longrightarrow> digit_val c < 10"
  unfolding is_digit_def digit_val_def by linarith

lemma not_digit_NUL: "is_digit c \<Longrightarrow> c \<noteq> NUL"
  by (auto simp: is_digit_def)

section \<open>Slices and array writes\<close>

text \<open>\<open>slice xs i j\<close> is Rust's \<open>&xs[i..j]\<close>; \<open>copy_slice\<close> is
  \<open>xs[i..i + n].copy_from_slice(src)\<close>. Both panic out of range in Rust, so their users carry
  bounds lemmas or check the range and return \<open>None\<close>.\<close>

definition slice :: "'a list \<Rightarrow> nat \<Rightarrow> nat \<Rightarrow> 'a list" where
  "slice xs i j = take (j - i) (drop i xs)"

definition copy_slice :: "nat \<Rightarrow> 'a list \<Rightarrow> 'a list \<Rightarrow> 'a list" where
  "copy_slice i src dst = take i dst @ src @ drop (i + length src) dst"

lemma take_take_append: "take n (take n xs @ ys) = take n (xs @ ys)"
  by (cases "length xs \<le> n") simp_all

lemma length_slice [simp]: "j \<le> length xs \<Longrightarrow> length (slice xs i j) = j - i"
  by (auto simp: slice_def)

lemma slice_0: "slice xs 0 j = take j xs"
  by (simp add: slice_def)

lemma slice_to_end: "slice xs i (length xs) = drop i xs"
  by (simp add: slice_def)

lemma set_slice: "set (slice xs i j) \<subseteq> set xs"
  unfolding slice_def by (meson set_drop_subset set_take_subset subset_trans)

lemma slice_split: "i \<le> j \<Longrightarrow> j \<le> k \<Longrightarrow> slice xs i k = slice xs i j @ slice xs j k"
proof -
  assume "i \<le> j" and "j \<le> k"
  then have "take (k - i) (drop i xs) = take ((j - i) + (k - j)) (drop i xs)" by simp
  also have "\<dots> = take (j - i) (drop i xs) @ take (k - j) (drop (j - i) (drop i xs))"
    by (simp only: take_add)
  finally show ?thesis using \<open>i \<le> j\<close> by (simp add: slice_def)
qed

lemma slice_Cons: "i < j \<Longrightarrow> j \<le> length xs \<Longrightarrow> slice xs i j = xs ! i # slice xs (Suc i) j"
proof -
  assume "i < j" "j \<le> length xs"
  then have "drop i xs = xs ! i # drop (Suc i) xs" by (simp add: Cons_nth_drop_Suc)
  moreover have "j - i = Suc (j - Suc i)" using \<open>i < j\<close> by simp
  ultimately show ?thesis by (simp add: slice_def)
qed

lemma slice_snoc: "i < j \<Longrightarrow> j \<le> length xs \<Longrightarrow> slice xs i j = slice xs i (j - 1) @ [xs ! (j - 1)]"
proof -
  assume "i < j" "j \<le> length xs"
  then have "slice xs i j = slice xs i (j - 1) @ slice xs (j - 1) j" by (intro slice_split) auto
  moreover have "slice xs (j - 1) j = [xs ! (j - 1)]"
    using \<open>i < j\<close> \<open>j \<le> length xs\<close> slice_Cons [of "j - 1" j xs] by (simp add: slice_def)
  ultimately show ?thesis by simp
qed

lemma slice_empty [simp]: "j \<le> i \<Longrightarrow> slice xs i j = []"
  by (simp add: slice_def)

lemma length_copy_slice [simp]:
  "i + length src \<le> length dst \<Longrightarrow> length (copy_slice i src dst) = length dst"
  by (simp add: copy_slice_def)

lemma list_update_copy_slice: "i < length xs \<Longrightarrow> xs[i := x] = copy_slice i [x] xs"
  by (simp add: copy_slice_def upd_conv_take_nth_drop)

lemma copy_slice_append:
  "i + length a + length b \<le> length xs \<Longrightarrow>
   copy_slice (i + length a) b (copy_slice i a xs) = copy_slice i (a @ b) xs"
  by (simp add: copy_slice_def ac_simps)

lemma take_copy_slice_le: "j \<le> i \<Longrightarrow> i \<le> length dst \<Longrightarrow> take j (copy_slice i src dst) = take j dst"
  by (simp add: copy_slice_def)

lemma drop_copy_slice: "i \<le> length dst \<Longrightarrow>
   drop i (copy_slice i src dst) = src @ drop (i + length src) dst"
  by (simp add: copy_slice_def)

lemma take_copy_slice: "i + length src \<le> length dst \<Longrightarrow>
   take (i + length src) (copy_slice i src dst) = take i dst @ src"
  by (simp add: copy_slice_def)

lemma take_copy_slice_0 [simp]: "length src \<le> length dst \<Longrightarrow>
   take (length src) (copy_slice 0 src dst) = src"
  by (simp add: copy_slice_def)

section \<open>Index loops over byte arrays\<close>

text \<open>
  The parsers of the code walk byte arrays with an index: \<open>while i < hi && P(data[i]) { i += 1 }\<close>
  and \<open>while r > lo && P(data[r - 1]) { r -= 1 }\<close>. Both loops are written as they stand; the
  lemmas below read them as \<open>takeWhile\<close> from either end of a slice.
\<close>

function scan_fwd :: "('a \<Rightarrow> bool) \<Rightarrow> 'a list \<Rightarrow> nat \<Rightarrow> nat \<Rightarrow> nat" where
  "scan_fwd P xs i hi = (if i < hi \<and> P (xs ! i) then scan_fwd P xs (Suc i) hi else i)"
  by pat_completeness auto
termination
  by (relation "measure (\<lambda>(P, xs, i, hi). hi - i)") auto

fun scan_bwd :: "('a \<Rightarrow> bool) \<Rightarrow> 'a list \<Rightarrow> nat \<Rightarrow> nat \<Rightarrow> nat" where
  "scan_bwd P xs lo r = (if r > lo \<and> P (xs ! (r - 1)) then scan_bwd P xs lo (r - 1) else r)"

declare scan_fwd.simps [simp del]
declare scan_bwd.simps [simp del]

lemma scan_fwd_ge: "i \<le> scan_fwd P xs i hi"
proof (induction P xs i hi rule: scan_fwd.induct)
  case (1 P xs i hi)
  then show ?case by (auto simp: scan_fwd.simps [of P xs i hi])
qed

lemma scan_fwd_le: "i \<le> hi \<Longrightarrow> scan_fwd P xs i hi \<le> hi"
proof (induction P xs i hi rule: scan_fwd.induct)
  case (1 P xs i hi)
  then show ?case by (auto simp: scan_fwd.simps [of P xs i hi])
qed

lemma scan_bwd_le: "scan_bwd P xs lo r \<le> r"
proof (induction P xs lo r rule: scan_bwd.induct)
  case (1 P xs lo r)
  then show ?case by (auto simp: scan_bwd.simps [of P xs lo r])
qed

lemma scan_bwd_ge: "lo \<le> r \<Longrightarrow> lo \<le> scan_bwd P xs lo r"
proof (induction P xs lo r rule: scan_bwd.induct)
  case (1 P xs lo r)
  then show ?case by (auto simp: scan_bwd.simps [of P xs lo r])
qed

lemma scan_fwd_slice:
  "hi \<le> length xs \<Longrightarrow> slice xs i (scan_fwd P xs i hi) = takeWhile P (slice xs i hi)"
proof (induction P xs i hi rule: scan_fwd.induct)
  case (1 P xs i hi)
  show ?case
  proof (cases "i < hi \<and> P (xs ! i)")
    case True
    then have step: "scan_fwd P xs i hi = scan_fwd P xs (Suc i) hi"
      by (simp add: scan_fwd.simps [of P xs i hi])
    have "Suc i \<le> scan_fwd P xs (Suc i) hi" "scan_fwd P xs (Suc i) hi \<le> hi"
      using True by (simp_all add: scan_fwd_ge scan_fwd_le)
    with 1 True step show ?thesis
      by (simp add: slice_Cons [of i hi] slice_Cons [of i "scan_fwd P xs (Suc i) hi"])
  next
    case False
    then have "scan_fwd P xs i hi = i" by (auto simp: scan_fwd.simps [of P xs i hi])
    moreover have "takeWhile P (slice xs i hi) = []"
      using False 1 by (cases "i < hi") (simp_all add: slice_Cons)
    ultimately show ?thesis by simp
  qed
qed

lemma scan_fwd_rest:
  "i \<le> hi \<Longrightarrow> hi \<le> length xs \<Longrightarrow> slice xs (scan_fwd P xs i hi) hi = dropWhile P (slice xs i hi)"
proof -
  assume "i \<le> hi" "hi \<le> length xs"
  then have "slice xs i hi = takeWhile P (slice xs i hi) @ slice xs (scan_fwd P xs i hi) hi"
    using slice_split [of i "scan_fwd P xs i hi" hi xs] scan_fwd_ge scan_fwd_le
    by (metis scan_fwd_slice)
  moreover have "slice xs i hi = takeWhile P (slice xs i hi) @ dropWhile P (slice xs i hi)" by simp
  ultimately show ?thesis by (metis same_append_eq)
qed

lemma scan_bwd_slice:
  "r \<le> length xs \<Longrightarrow> slice xs lo (scan_bwd P xs lo r) = rev (dropWhile P (rev (slice xs lo r)))"
proof (induction P xs lo r rule: scan_bwd.induct)
  case (1 P xs lo r)
  show ?case
  proof (cases "r > lo \<and> P (xs ! (r - 1))")
    case True
    then have "scan_bwd P xs lo r = scan_bwd P xs lo (r - 1)"
      by (simp add: scan_bwd.simps [of P xs lo r])
    with 1 True show ?thesis by (simp add: slice_snoc [of lo r])
  next
    case False
    then have "scan_bwd P xs lo r = r" by (auto simp: scan_bwd.simps [of P xs lo r])
    moreover have "rev (dropWhile P (rev (slice xs lo r))) = slice xs lo r"
      using False 1 by (cases "lo < r") (simp_all add: slice_snoc [of lo r])
    ultimately show ?thesis by simp
  qed
qed

text \<open>Trimming a byte string on the right, the reading of the backward loop.\<close>

definition rtrim :: "(char \<Rightarrow> bool) \<Rightarrow> bytes \<Rightarrow> bytes" where
  "rtrim P xs = rev (dropWhile P (rev xs))"

lemma rtrim_last: "rtrim P xs = [] \<or> \<not> P (last (rtrim P xs))"
proof (cases "dropWhile P (rev xs)")
  case (Cons y ys)
  then have "\<not> P y" using hd_dropWhile [of P "rev xs"] by fastforce
  with Cons show ?thesis by (simp add: rtrim_def)
qed (simp add: rtrim_def)

lemma rtrim_append: "\<exists>zs. xs = rtrim P xs @ zs \<and> (\<forall>z \<in> set zs. P z)"
proof -
  have "rev xs = takeWhile P (rev xs) @ dropWhile P (rev xs)" by simp
  then have "xs = rtrim P xs @ rev (takeWhile P (rev xs))"
    unfolding rtrim_def by (metis rev_append rev_rev_ident)
  moreover have "\<forall>z \<in> set (rev (takeWhile P (rev xs))). P z"
    by (auto dest: set_takeWhileD)
  ultimately show ?thesis by blast
qed

lemma rtrim_id: "xs = [] \<or> \<not> P (last xs) \<Longrightarrow> rtrim P xs = xs"
  unfolding rtrim_def by (cases xs rule: rev_cases) auto

end
