(* ===== verification/Svc_Consts.thy ===== *)
theory Svc_Consts
  imports Svc_Prelude
begin

text \<open>
  The constants of \<open>src/consts.rs\<close>, one abbreviation each, so that the simplifier computes
  with them. A state is a \<open>u8\<close> of the code; the six values below are the only ones it takes
  (\<open>valid_state\<close>).
\<close>

abbreviation (input) MAX_SERVICES :: nat where "MAX_SERVICES \<equiv> 256"
abbreviation (input) PATH_BUF :: nat where "PATH_BUF \<equiv> 1024"
abbreviation (input) NAME_BUF :: nat where "NAME_BUF \<equiv> 64"
abbreviation (input) IO_BUF :: nat where "IO_BUF \<equiv> 4096"
abbreviation (input) CMD_BUF :: nat where "CMD_BUF \<equiv> 512"
abbreviation (input) RESP_BUF :: nat where "RESP_BUF \<equiv> 8192"
abbreviation (input) ENV_BUF :: nat where "ENV_BUF \<equiv> 4096"
abbreviation (input) MAX_ENV_VARS :: nat where "MAX_ENV_VARS \<equiv> 64"
abbreviation (input) MAX_DEPENDENCIES :: nat where "MAX_DEPENDENCIES \<equiv> 16"
abbreviation (input) DEP_FILE_BUF :: nat where "DEP_FILE_BUF \<equiv> 512"

abbreviation (input) LOG_LIMIT :: int where "LOG_LIMIT \<equiv> 1048576"
abbreviation (input) SUPERVISOR_LOG_LIMIT :: int where "SUPERVISOR_LOG_LIMIT \<equiv> 1048576"
abbreviation (input) POLL_TIMEOUT_MS :: int where "POLL_TIMEOUT_MS \<equiv> 500"
abbreviation (input) SHUTDOWN_TIMEOUT_S :: int where "SHUTDOWN_TIMEOUT_S \<equiv> 5"
abbreviation (input) MAX_POLL_FDS :: nat where "MAX_POLL_FDS \<equiv> MAX_SERVICES * 2 + 2"

abbreviation (input) RESTART_WINDOW_S :: int where "RESTART_WINDOW_S \<equiv> 60"
abbreviation (input) MAX_RESTARTS_IN_WINDOW :: nat where "MAX_RESTARTS_IN_WINDOW \<equiv> 5"
abbreviation (input) BACKOFF_SHORT :: int where "BACKOFF_SHORT \<equiv> 2"
abbreviation (input) BACKOFF_MED :: int where "BACKOFF_MED \<equiv> 10"
abbreviation (input) BACKOFF_LONG :: int where "BACKOFF_LONG \<equiv> 60"

abbreviation (input) DEV_NULL :: bytes where "DEV_NULL \<equiv> ''/dev/null'' @ [NUL]"
abbreviation (input) SOCK_SUFFIX :: bytes where "SOCK_SUFFIX \<equiv> ''/.control.sock''"
abbreviation (input) SUPERVISOR_LOG_PATH :: bytes where
  "SUPERVISOR_LOG_PATH \<equiv> ''/var/log/svc-rs.log'' @ [NUL]"

abbreviation (input) STATE_DOWN :: nat where "STATE_DOWN \<equiv> 0"
abbreviation (input) STATE_RUNNING :: nat where "STATE_RUNNING \<equiv> 1"
abbreviation (input) STATE_EXITED :: nat where "STATE_EXITED \<equiv> 2"
abbreviation (input) STATE_SIGNALED :: nat where "STATE_SIGNALED \<equiv> 3"
abbreviation (input) STATE_FAILED :: nat where "STATE_FAILED \<equiv> 4"
abbreviation (input) STATE_STOPPING :: nat where "STATE_STOPPING \<equiv> 5"

definition valid_state :: "nat \<Rightarrow> bool" where
  "valid_state st \<longleftrightarrow> st \<in> {STATE_DOWN, STATE_RUNNING, STATE_EXITED, STATE_SIGNALED,
     STATE_FAILED, STATE_STOPPING}"

text \<open>The signal numbers of Linux that the code names through \<open>libc\<close>.\<close>

abbreviation (input) SIGHUP :: int where "SIGHUP \<equiv> 1"
abbreviation (input) SIGINT :: int where "SIGINT \<equiv> 2"
abbreviation (input) SIGQUIT :: int where "SIGQUIT \<equiv> 3"
abbreviation (input) SIGKILL :: int where "SIGKILL \<equiv> 9"
abbreviation (input) SIGUSR1 :: int where "SIGUSR1 \<equiv> 10"
abbreviation (input) SIGUSR2 :: int where "SIGUSR2 \<equiv> 12"
abbreviation (input) SIGPIPE :: int where "SIGPIPE \<equiv> 13"
abbreviation (input) SIGALRM :: int where "SIGALRM \<equiv> 14"
abbreviation (input) SIGTERM :: int where "SIGTERM \<equiv> 15"
abbreviation (input) SIGCHLD :: int where "SIGCHLD \<equiv> 17"
abbreviation (input) SIGCONT :: int where "SIGCONT \<equiv> 18"

end
