(* ===== verification/CStr_Path.thy ===== *)
theory CStr_Path
  imports Svc_Consts
begin

text \<open>
  \<open>src/path.rs\<close>: \<open>CStrBuf\<close>, a stack buffer of \<open>PATH_BUF\<close> bytes with a length, built by
  pushing bytes. Its promise (the doc comment of the struct) is that it never holds an interior
  NUL and is always terminated. The abstract reading of a buffer is the byte string
  \<open>cs_bytes\<close>; the locale \<open>byte_sink\<close> states what pushing does to it, and the
  interpretation \<open>cs\<close> discharges the laws for the buffer of the code.
\<close>

section \<open>The buffer\<close>

record cstrbuf =
  cs_buf :: bytes
  cs_len :: nat

definition cs_new :: cstrbuf where
  "cs_new = \<lparr>cs_buf = (replicate PATH_BUF NUL)[0 := NUL], cs_len = 0\<rparr>"

definition cs_push_byte :: "char \<Rightarrow> cstrbuf \<Rightarrow> cstrbuf" where
  "cs_push_byte c s =
     (if c = NUL then s
      else if cs_len s + 1 < PATH_BUF
      then s\<lparr>cs_buf := ((cs_buf s)[cs_len s := c])[cs_len s + 1 := NUL], cs_len := cs_len s + 1\<rparr>
      else s)"

fun cs_push :: "bytes \<Rightarrow> cstrbuf \<Rightarrow> cstrbuf" where
  "cs_push [] s = s"
| "cs_push (c # b) s = cs_push b (cs_push_byte c s)"

definition cs_from_bytes :: "bytes \<Rightarrow> cstrbuf" where
  "cs_from_bytes b = cs_push b cs_new"

definition cs_bytes :: "cstrbuf \<Rightarrow> bytes" where
  "cs_bytes s = take (cs_len s) (cs_buf s)"

text \<open>What \<open>as_ptr\<close> and \<open>as_cstr\<close> hand to C: the pointer is read up to the first NUL.\<close>

definition cs_cstr :: "cstrbuf \<Rightarrow> bytes" where
  "cs_cstr s = takeWhile (\<lambda>c. c \<noteq> NUL) (cs_buf s)"

definition cs_as_cstr :: "cstrbuf \<Rightarrow> bytes" where
  "cs_as_cstr s = take (cs_len s + 1) (cs_buf s)"

definition cs_inv :: "cstrbuf \<Rightarrow> bool" where
  "cs_inv s \<longleftrightarrow> length (cs_buf s) = PATH_BUF \<and> cs_len s < PATH_BUF \<and>
     cs_buf s ! cs_len s = NUL \<and> NUL \<notin> set (take (cs_len s) (cs_buf s))"

section \<open>The interface: a bounded sink of non-NUL bytes\<close>

abbreviation nz :: "bytes \<Rightarrow> bytes" where
  "nz b \<equiv> filter (\<lambda>c. c \<noteq> NUL) b"

locale byte_sink =
  fixes new :: 's
    and push1 :: "char \<Rightarrow> 's \<Rightarrow> 's"
    and content :: "'s \<Rightarrow> bytes"
    and wf :: "'s \<Rightarrow> bool"
    and cap :: nat
  assumes wf_new: "wf new"
    and content_new: "content new = []"
    and wf_push1: "wf s \<Longrightarrow> wf (push1 c s)"
    and content_push1: "wf s \<Longrightarrow> content (push1 c s) = take cap (content s @ nz [c])"
    and content_cap: "wf s \<Longrightarrow> length (content s) \<le> cap"
begin

lemma wf_fold: "wf s \<Longrightarrow> wf (fold push1 b s)"
  by (induction b arbitrary: s) (simp_all add: wf_push1)

lemma content_fold: "wf s \<Longrightarrow> content (fold push1 b s) = take cap (content s @ nz b)"
proof (induction b arbitrary: s)
  case Nil
  then show ?case by (simp add: content_cap)
next
  case (Cons c b)
  have "content (fold push1 (c # b) s) = take cap (take cap (content s @ nz [c]) @ nz b)"
    using Cons by (simp add: wf_push1 content_push1)
  also have "\<dots> = take cap (content s @ nz (c # b))"
  proof -
    have "nz (c # b) = nz [c] @ nz b" by simp
    then show ?thesis by (simp only: take_take_append append_assoc)
  qed
  finally show ?case .
qed

lemma content_fold_new: "content (fold push1 b new) = take cap (nz b)"
  by (simp add: content_fold wf_new content_new)

lemma content_fold_fits:
  "wf s \<Longrightarrow> length (content s @ nz b) \<le> cap \<Longrightarrow> content (fold push1 b s) = content s @ nz b"
  by (simp add: content_fold)

end

section \<open>The buffer is such a sink\<close>

lemma cs_push_fold: "cs_push b s = fold cs_push_byte b s"
  by (induction b arbitrary: s) simp_all

lemma cs_inv_new: "cs_inv cs_new"
  by (simp add: cs_inv_def cs_new_def)

text \<open>Every index the code writes is inside the array.\<close>

lemma cs_push_byte_in_bounds:
  "cs_inv s \<Longrightarrow> cs_len s + 1 < PATH_BUF \<Longrightarrow> cs_len s + 1 < length (cs_buf s)"
  by (simp add: cs_inv_def)

lemma cs_push_byte_take:
  assumes "cs_inv s" "c \<noteq> NUL" "cs_len s + 1 < PATH_BUF"
  shows "take (cs_len s + 1) (cs_buf (cs_push_byte c s)) = cs_bytes s @ [c]"
  using assms by (simp add: cs_push_byte_def cs_inv_def cs_bytes_def take_Suc_conv_app_nth)

lemma cs_inv_push_byte:
  assumes "cs_inv s" shows "cs_inv (cs_push_byte c s)"
proof (cases "c \<noteq> NUL \<and> cs_len s + 1 < PATH_BUF")
  case True
  then have "take (cs_len s + 1) (cs_buf (cs_push_byte c s)) = cs_bytes s @ [c]"
    using assms cs_push_byte_take by blast
  with True assms show ?thesis
    by (auto simp: cs_inv_def cs_push_byte_def cs_bytes_def)
next
  case False
  with assms show ?thesis by (auto simp: cs_push_byte_def)
qed

lemma cs_bytes_push_byte:
  assumes "cs_inv s"
  shows "cs_bytes (cs_push_byte c s) = take (PATH_BUF - 1) (cs_bytes s @ nz [c])"
proof (cases "c \<noteq> NUL \<and> cs_len s + 1 < PATH_BUF")
  case True
  then have "cs_bytes (cs_push_byte c s) = cs_bytes s @ [c]"
    using assms cs_push_byte_take [of s c] by (simp add: cs_push_byte_def cs_bytes_def)
  moreover have "length (cs_bytes s @ [c]) \<le> PATH_BUF - 1"
    using True assms by (simp add: cs_bytes_def cs_inv_def)
  ultimately show ?thesis using True by simp
next
  case False
  moreover have "length (cs_bytes s) \<le> PATH_BUF - 1"
    using assms by (simp add: cs_bytes_def cs_inv_def)
  moreover have "c = NUL \<or> length (cs_bytes s) = PATH_BUF - 1"
    using False assms by (auto simp: cs_bytes_def cs_inv_def)
  ultimately show ?thesis by (auto simp: cs_push_byte_def)
qed

interpretation cs: byte_sink cs_new cs_push_byte cs_bytes cs_inv "PATH_BUF - 1"
proof unfold_locales
  show "cs_bytes cs_new = []" by (simp add: cs_bytes_def cs_new_def)
  show "\<And>s. cs_inv s \<Longrightarrow> length (cs_bytes s) \<le> PATH_BUF - 1"
    by (simp add: cs_bytes_def cs_inv_def)
qed (simp_all add: cs_inv_new cs_inv_push_byte cs_bytes_push_byte)

lemma cs_inv_push [simp]: "cs_inv s \<Longrightarrow> cs_inv (cs_push b s)"
  by (simp add: cs_push_fold cs.wf_fold)

lemma cs_inv_push_byte' [simp]: "cs_inv s \<Longrightarrow> cs_inv (cs_push_byte c s)"
  by (rule cs_inv_push_byte)

lemma cs_inv_from [simp]: "cs_inv (cs_from_bytes b)"
  by (simp add: cs_from_bytes_def cs_inv_new)

lemma cs_inv_new' [simp]: "cs_inv cs_new"
  by (rule cs_inv_new)

lemma cs_bytes_push [bytes_simps]:
  "cs_inv s \<Longrightarrow> cs_bytes (cs_push b s) = take 1023 (cs_bytes s @ nz b)"
  using cs.content_fold by (simp add: cs_push_fold)

lemma cs_bytes_push1 [bytes_simps]:
  "cs_inv s \<Longrightarrow> cs_bytes (cs_push_byte c s) = take 1023 (cs_bytes s @ nz [c])"
  using cs_bytes_push_byte by simp

lemma cs_bytes_new [bytes_simps]: "cs_bytes cs_new = []"
  by (rule cs.content_new)

lemma cs_bytes_from [bytes_simps]: "cs_bytes (cs_from_bytes b) = take 1023 (nz b)"
  by (simp add: cs_from_bytes_def cs_bytes_push cs_bytes_new)

lemma cs_bytes_no_NUL: "cs_inv s \<Longrightarrow> NUL \<notin> set (cs_bytes s)"
  by (simp add: cs_inv_def cs_bytes_def)

lemma cs_bytes_length: "cs_inv s \<Longrightarrow> length (cs_bytes s) = cs_len s"
  by (simp add: cs_inv_def cs_bytes_def)

lemma cs_bytes_le: "cs_inv s \<Longrightarrow> length (cs_bytes s) \<le> 1023"
  by (simp add: cs_inv_def cs_bytes_def)

text \<open>A C callee reads exactly the bytes pushed: no interior NUL, always terminated.\<close>

lemma cs_cstr_bytes [bytes_simps]:
  assumes "cs_inv s" shows "cs_cstr s = cs_bytes s"
proof -
  let ?p = "take (cs_len s) (cs_buf s)"
  have "cs_buf s = ?p @ NUL # drop (Suc (cs_len s)) (cs_buf s)"
    using assms id_take_nth_drop [of "cs_len s" "cs_buf s"] by (simp add: cs_inv_def)
  moreover have "takeWhile (\<lambda>c. c \<noteq> NUL) (?p @ NUL # ys) = ?p" for ys
  proof -
    have "\<forall>c \<in> set ?p. c \<noteq> NUL" using assms by (auto simp: cs_inv_def)
    then show ?thesis by (subst takeWhile_append2) auto
  qed
  ultimately show ?thesis unfolding cs_cstr_def cs_bytes_def by metis
qed

lemma cs_as_cstr_bytes: "cs_inv s \<Longrightarrow> cs_as_cstr s = cs_bytes s @ [NUL]"
  by (simp add: cs_as_cstr_def cs_inv_def cs_bytes_def take_Suc_conv_app_nth)

section \<open>Writing decimal numbers\<close>

text \<open>The digits \<open>push_u64\<close> collects in \<open>tmp[0..n]\<close>, least significant first.\<close>

fun u64_digits :: "nat \<Rightarrow> bytes" where
  "u64_digits v = (if v > 0 then digit_char (v mod 10) # u64_digits (v div 10) else [])"

declare u64_digits.simps [simp del]

definition cs_push_u64 :: "nat \<Rightarrow> cstrbuf \<Rightarrow> cstrbuf" where
  "cs_push_u64 v s =
     (if v = 0 then cs_push_byte (CHR ''0'') s else cs_push (rev (u64_digits v)) s)"

definition cs_push_i64 :: "int \<Rightarrow> cstrbuf \<Rightarrow> cstrbuf" where
  "cs_push_i64 v s =
     (if v < 0
      then let s = cs_push_byte (CHR ''-'') s
           in if v = i64_min then cs_push_u64 9223372036854775808 s
              else cs_push_u64 (nat (wrap_i64 (- v))) s
      else cs_push_u64 (nat v) s)"

text \<open>The same numbers as byte strings, and how they are read back.\<close>

definition dec_string :: "nat \<Rightarrow> bytes" where
  "dec_string v = (if v = 0 then ''0'' else rev (u64_digits v))"

definition dec_string_i :: "int \<Rightarrow> bytes" where
  "dec_string_i v = (if v < 0 then CHR ''-'' # dec_string (nat (- v)) else dec_string (nat v))"

definition dec_val :: "bytes \<Rightarrow> nat" where
  "dec_val b = foldl (\<lambda>a c. a * 10 + digit_val c) 0 b"

lemma dec_val_snoc: "dec_val (b @ [c]) = dec_val b * 10 + digit_val c"
  by (simp add: dec_val_def)

lemma dec_val_rev_digits: "dec_val (rev (u64_digits v)) = v"
proof (induction v rule: u64_digits.induct)
  case (1 v)
  then show ?case
    by (cases "v > 0")
      (simp_all add: u64_digits.simps [of v] dec_val_snoc digit_val_digit_char,
       simp add: dec_val_def u64_digits.simps [of 0])
qed

lemma u64_digits_digit: "c \<in> set (u64_digits v) \<Longrightarrow> is_digit c"
proof (induction v rule: u64_digits.induct)
  case (1 v)
  then show ?case
    by (cases "v > 0") (auto simp: u64_digits.simps [of v] is_digit_digit_char)
qed

text \<open>The digit array \<open>tmp\<close> of 20 bytes is long enough for every \<open>u64\<close>.\<close>

lemma u64_digits_length: "v < 10 ^ n \<Longrightarrow> length (u64_digits v) \<le> n"
proof (induction n arbitrary: v)
  case 0
  then show ?case by (simp add: u64_digits.simps)
next
  case (Suc n)
  then have "v div 10 < 10 ^ n" by (simp add: less_mult_imp_div_less mult.commute)
  with Suc.IH have "length (u64_digits (v div 10)) \<le> n" by blast
  then show ?case by (simp add: u64_digits.simps [of v])
qed

lemma u64_digits_fit_tmp: "v \<le> u64_max \<Longrightarrow> length (u64_digits v) \<le> 20"
  by (rule u64_digits_length) simp

lemma dec_string_digit: "c \<in> set (dec_string v) \<Longrightarrow> is_digit c"
  by (auto simp: dec_string_def is_digit_def dest: u64_digits_digit split: if_splits)

lemma dec_string_nonempty: "dec_string v \<noteq> []"
  by (simp add: dec_string_def u64_digits.simps [of v])

lemma dec_val_string: "dec_val (dec_string v) = v"
  by (simp add: dec_string_def dec_val_rev_digits) (simp add: dec_val_def digit_val_def)

lemma dec_string_length: "v \<le> u64_max \<Longrightarrow> length (dec_string v) \<le> 20"
  using u64_digits_fit_tmp by (simp add: dec_string_def)

lemma nz_digits: "(\<And>c. c \<in> set b \<Longrightarrow> is_digit c) \<Longrightarrow> nz b = b"
  by (rule filter_True) (auto dest: not_digit_NUL)

lemma nz_dec_string [simp]: "nz (dec_string v) = dec_string v"
  by (rule nz_digits) (rule dec_string_digit)

lemma nz_dec_string_i [simp]: "nz (dec_string_i v) = dec_string_i v"
  by (simp add: dec_string_i_def)

lemma cs_push_u64_eq: "cs_push_u64 v s = cs_push (dec_string v) s"
  by (simp add: cs_push_u64_def dec_string_def)

lemma cs_push_i64_eq: "in_i64 v \<Longrightarrow> cs_push_i64 v s = cs_push (dec_string_i v) s"
proof (cases "v < 0 \<and> v \<noteq> i64_min")
  case True
  moreover assume "in_i64 v"
  ultimately have "in_i64 (- v)" by (simp add: in_i64_def)
  with True show ?thesis
    by (simp add: cs_push_i64_def cs_push_u64_eq dec_string_i_def wrap_i64_id)
qed (auto simp: cs_push_i64_def cs_push_u64_eq dec_string_i_def)

lemma cs_bytes_push_u64 [bytes_simps]:
  "cs_inv s \<Longrightarrow> cs_bytes (cs_push_u64 v s) = take 1023 (cs_bytes s @ dec_string v)"
  by (simp add: cs_push_u64_eq cs_bytes_push)

lemma cs_bytes_push_i64 [bytes_simps]:
  "cs_inv s \<Longrightarrow> in_i64 v \<Longrightarrow>
   cs_bytes (cs_push_i64 v s) = take 1023 (cs_bytes s @ dec_string_i v)"
  by (simp add: cs_push_i64_eq cs_bytes_push)

lemma cs_inv_push_u64 [simp]: "cs_inv s \<Longrightarrow> cs_inv (cs_push_u64 v s)"
  by (simp add: cs_push_u64_eq)

lemma cs_inv_push_i64 [simp]: "cs_inv s \<Longrightarrow> cs_inv (cs_push_i64 v s)"
  by (simp add: cs_push_i64_def cs_push_u64_eq Let_def)

text \<open>A sequence of pushes is one push, so a formatted line is the prefix of one byte string.\<close>

lemma cs_push_push: "cs_push b (cs_push a s) = cs_push (a @ b) s"
  by (simp add: cs_push_fold)

lemma cs_push_byte_push: "cs_push_byte c s = cs_push [c] s"
  by simp

lemmas cs_collect = cs_push_push cs_push_u64_eq cs_push_i64_eq

section \<open>Claims\<close>

text \<open>C35. A path buffer is a bounded byte string: pushing appends the bytes other than NUL, cuts at
  1023 bytes, and what C reads at the pointer is exactly the content with its terminator.\<close>

theorem cs_push_refines:
  "cs_inv s \<Longrightarrow> cs_inv (cs_push b s) \<and> cs_bytes (cs_push b s) = take 1023 (cs_bytes s @ nz b) \<and>
     cs_as_cstr (cs_push b s) = cs_bytes (cs_push b s) @ [NUL] \<and> NUL \<notin> set (cs_bytes (cs_push b s))"
  using cs_as_cstr_bytes [of "cs_push b s"] cs_bytes_no_NUL [of "cs_push b s"]
  by (simp add: cs_bytes_push)

theorem cs_push_refines_witness:
  "\<forall>b. cs_inv cs_new \<and> cs_bytes (cs_push b cs_new) = take 1023 (nz b)"
proof
  fix b
  have "cs_inv cs_new" by (rule cs_inv_new)
  with cs_push_refines [of cs_new b]
  show "cs_inv cs_new \<and> cs_bytes (cs_push b cs_new) = take 1023 (nz b)" by (simp add: cs_bytes_new)
qed

text \<open>C36. Every \<open>i64\<close>, \<open>i64::MIN\<close> included, is printed as its decimal representation, and the digits
  read back to the number.\<close>

theorem push_i64_decimal:
  "cs_inv s \<Longrightarrow> in_i64 v \<Longrightarrow> cs_bytes (cs_push_i64 v s) = take 1023 (cs_bytes s @ dec_string_i v) \<and>
     (if v < 0 then hd (dec_string_i v) = CHR ''-'' \<and> int (dec_val (tl (dec_string_i v))) = - v
      else int (dec_val (dec_string_i v)) = v)"
  by (simp add: cs_bytes_push_i64 dec_string_i_def dec_val_string)

theorem push_i64_decimal_witness:
  "in_i64 i64_min \<and> hd (dec_string_i i64_min) = CHR ''-'' \<and>
   cs_bytes (cs_push_i64 i64_min cs_new) = take 1023 (dec_string_i i64_min)"
proof -
  have "in_i64 i64_min" by (simp add: in_i64_def)
  with push_i64_decimal [OF cs_inv_new this] show ?thesis by (simp add: cs_bytes_new)
qed

end
