(* ===== verification/Decimal.thy ===== *)
theory Decimal
  imports CStr_Path
begin

text \<open>
  The decimal loop that \<open>src/security.rs\<close>, \<open>src/user.rs\<close> and \<open>src/ctrl.rs\<close> repeat:
  \<open>for c in data { if digit { val = val.saturating_mul(10).saturating_add(d); has_digit = true }
  else { break } }\<close>, at the width of the value (\<open>mx\<close> is the largest one). The locale
  \<open>sat_parser\<close> is what its three users promise; the interpretations stand beside the users.
\<close>

definition sat_mul :: "nat \<Rightarrow> nat \<Rightarrow> nat \<Rightarrow> nat" where
  "sat_mul mx a b = min mx (a * b)"

definition sat_add :: "nat \<Rightarrow> nat \<Rightarrow> nat \<Rightarrow> nat" where
  "sat_add mx a b = min mx (a + b)"

fun sat_loop :: "nat \<Rightarrow> nat \<Rightarrow> bool \<Rightarrow> bytes \<Rightarrow> nat \<times> bool" where
  "sat_loop mx val has [] = (val, has)"
| "sat_loop mx val has (c # cs) =
     (if is_digit c then sat_loop mx (sat_add mx (sat_mul mx val 10) (digit_val c)) True cs
      else (val, has))"

lemma sat_step: "sat_add mx (sat_mul mx (min mx n) 10) d = min mx (n * 10 + d)"
  by (simp add: sat_add_def sat_mul_def min_def)

text \<open>Saturating at every step is the same as saturating the exact value once.\<close>

lemma sat_loop_digits:
  "sat_loop mx (min mx n) has b =
     (min mx (foldl (\<lambda>a c. a * 10 + digit_val c) n (takeWhile is_digit b)),
      has \<or> takeWhile is_digit b \<noteq> [])"
proof (induction b arbitrary: n has)
  case Nil
  then show ?case by simp
next
  case (Cons c b)
  then show ?case by (simp add: sat_step)
qed

lemma sat_loop_eq:
  "sat_loop mx 0 False b = (min mx (dec_val (takeWhile is_digit b)), takeWhile is_digit b \<noteq> [])"
  using sat_loop_digits [of mx 0 False b] by (simp add: dec_val_def)

lemma takeWhile_dec_string:
  "rest = [] \<or> \<not> is_digit (hd rest) \<Longrightarrow> takeWhile is_digit (dec_string v @ rest) = dec_string v"
  by (subst takeWhile_append2) (auto intro: dec_string_digit simp: takeWhile_eq_Nil_iff)

locale sat_parser =
  fixes parse :: "bytes \<Rightarrow> nat option"
    and mx :: nat
  assumes parse_law: "parse b =
     (if takeWhile is_digit b = [] then None else Some (min mx (dec_val (takeWhile is_digit b))))"
begin

lemma parse_le: "parse b = Some n \<Longrightarrow> n \<le> mx"
  by (auto simp: parse_law split: if_splits)

lemma parse_None_iff: "parse b = None \<longleftrightarrow> b = [] \<or> \<not> is_digit (hd b)"
  by (cases b) (simp_all add: parse_law)

lemma parse_dec_string:
  assumes "rest = [] \<or> \<not> is_digit (hd rest)"
  shows "parse (dec_string v @ rest) = Some (min mx v)"
  using takeWhile_dec_string [OF assms]
  by (simp add: parse_law dec_string_nonempty dec_val_string)

lemma parse_roundtrip:
  "v \<le> mx \<Longrightarrow> rest = [] \<or> \<not> is_digit (hd rest) \<Longrightarrow> parse (dec_string v @ rest) = Some v"
  using parse_dec_string by (simp add: min_absorb2)

end

end
