(* ===== verification/Posix.thy ===== *)
theory Posix
  imports CStr_Path
begin

text \<open>
  The operating system as the code sees it, and the wrappers of \<open>src/fd.rs\<close>.

  \<open>libc\<close> and the kernel are not part of the program: they are the parameter \<open>os\<close> of every
  definition that performs a call. A run leaves a transcript, the list of the calls made so far
  with their results (newest first, field \<open>trace\<close> of \<open>world\<close>), and \<open>os\<close> answers each call
  as any function of the transcript. Nothing is assumed of the answers: a theorem for all \<open>os\<close>
  holds for every behaviour of the kernel, of the file system and of the other processes.

  An interrupted call (\<open>EINTR\<close>) is retried by the code in a loop. \<open>os_eintr\<close> says how often
  the next call is interrupted before it completes; that the number is finite is the
  documented behaviour that makes those loops return. The other loops that wait for the
  kernel (\<open>drain_stream\<close>, \<open>drain_signal_pipe\<close>, \<open>reap_children\<close>) make no such assumption and
  are partial functions in their theories.
\<close>

section \<open>Calls\<close>

datatype amode = F_OK | X_OK

datatype omode = O_RDONLY | O_RDWR | O_WR_CREAT_TRUNC | O_WR_CREAT_APPEND

datatype rlimit_kind = RLIMIT_CPU | RLIMIT_AS | RLIMIT_NOFILE | RLIMIT_FSIZE
  | RLIMIT_NPROC | RLIMIT_CORE

text \<open>A read returns bytes (none at end of file) or fails, with or without \<open>EAGAIN\<close>.\<close>

datatype rd_result = RData bytes | RAgain | RFail

datatype poll_result = PollReady "nat list" | PollEintr | PollFail

text \<open>Calls that only ask the kernel or wait for it.\<close>

datatype query =
    QClock
  | QTime
  | QNanosleep int int
  | QReaddir bytes
  | QGetpwnam bytes
  | QGetgrnam bytes
  | QGetpid int
  | QLseek int int
  | QFcntl int int
  | QSysconf int
  | QWaitpid int int int
  | QPoll "int list" int
  | QAccept int int

text \<open>Calls that change what the calling process is (made by children after \<open>fork\<close>).\<close>

datatype proc_call =
    PSetsid
  | PSetrlimit rlimit_kind nat
  | PNice int
  | PChroot bytes int
  | PChdir bytes
  | PSetgid nat
  | PSetgroups nat
  | PSetuid nat
  | PGetuid nat
  | PExecve bytes "bytes list" "bytes list"
  | PExit int

text \<open>Calls made once, when the supervisor starts.\<close>

datatype setup_call =
    SSigaction int
  | SSigIgn int
  | SUmask int
  | SSocket int
  | SBind int bytes nat int
  | SChmod bytes int
  | SListen int int

datatype event =
    EAccess bytes amode int
  | EOpen bytes omode int
  | ERead int nat
  | EWrite int bytes
  | EClose int
  | ENonblock int
  | ECloexec int
  | EPipe "(int \<times> int) option"
  | EDup2 int int
  | EKill int int
  | EFork int "event list"
  | EMkdir bytes
  | ERename bytes bytes
  | EUnlink bytes
  | EAsk query
  | EProc proc_call
  | ESetup setup_call

record os =
  os_eintr :: "event list \<Rightarrow> event \<Rightarrow> nat"
  os_sleep_left :: "event list \<Rightarrow> int \<times> int"
  os_access :: "event list \<Rightarrow> bytes \<Rightarrow> amode \<Rightarrow> int"
  os_open :: "event list \<Rightarrow> bytes \<Rightarrow> omode \<Rightarrow> int"
  os_read :: "event list \<Rightarrow> int \<Rightarrow> nat \<Rightarrow> rd_result"
  os_write :: "event list \<Rightarrow> int \<Rightarrow> bytes \<Rightarrow> nat option"
  os_fcntl :: "event list \<Rightarrow> int \<Rightarrow> int"
  os_pipe :: "event list \<Rightarrow> (int \<times> int) option"
  os_fork :: "event list \<Rightarrow> nat option"
  os_chroot :: "event list \<Rightarrow> bytes \<Rightarrow> int"
  os_getuid :: "event list \<Rightarrow> nat"
  os_execve_fails :: "event list \<Rightarrow> bytes \<Rightarrow> bool"
  os_lseek :: "event list \<Rightarrow> int \<Rightarrow> int"
  os_clock :: "event list \<Rightarrow> int option"
  os_time :: "event list \<Rightarrow> int"
  os_getpwnam :: "event list \<Rightarrow> bytes \<Rightarrow> nat option"
  os_getgrnam :: "event list \<Rightarrow> bytes \<Rightarrow> nat option"
  os_readdir :: "event list \<Rightarrow> bytes \<Rightarrow> bytes list option"
  os_waitpid :: "event list \<Rightarrow> int \<Rightarrow> int \<times> int"
  os_getpid :: "event list \<Rightarrow> int"
  os_sysconf :: "event list \<Rightarrow> int"
  os_umask :: "event list \<Rightarrow> int"
  os_socket :: "event list \<Rightarrow> int"
  os_bind :: "event list \<Rightarrow> int \<Rightarrow> int"
  os_listen :: "event list \<Rightarrow> int \<Rightarrow> int"
  os_poll :: "event list \<Rightarrow> int list \<Rightarrow> poll_result"
  os_accept :: "event list \<Rightarrow> int \<Rightarrow> int"
  os_sigrtmax :: nat
  os_sun_path :: nat

text \<open>The transcript, with the mutable statics of \<open>src/log.rs\<close> and \<open>src/signal.rs\<close>.\<close>

record world =
  trace :: "event list"
  SUPERVISOR_LOG_FD :: int
  SUPERVISOR_LOG_LEN :: int
  SIG_PIPE_W :: int

definition emit :: "event \<Rightarrow> world \<Rightarrow> world" where
  "emit e w = w\<lparr>trace := e # trace w\<rparr>"

lemma emit_sel [simp]:
  "trace (emit e w) = e # trace w"
  "SUPERVISOR_LOG_FD (emit e w) = SUPERVISOR_LOG_FD w"
  "SUPERVISOR_LOG_LEN (emit e w) = SUPERVISOR_LOG_LEN w"
  "SIG_PIPE_W (emit e w) = SIG_PIPE_W w"
  by (simp_all add: emit_def)

text \<open>The calls made from \<open>w\<close> to \<open>w'\<close>, oldest first.\<close>

definition new_events :: "world \<Rightarrow> world \<Rightarrow> event list" where
  "new_events w w' = rev (take (length (trace w') - length (trace w)) (trace w'))"

definition extends :: "world \<Rightarrow> world \<Rightarrow> bool" where
  "extends w w' \<longleftrightarrow> (\<exists>es. trace w' = es @ trace w)"

lemma new_events_eq: "trace w' = es @ trace w \<Longrightarrow> new_events w w' = rev es"
  by (simp add: new_events_def)

lemma new_events_self [simp]: "new_events w w = []"
  by (simp add: new_events_def)

lemma extends_refl [simp, intro]: "extends w w"
  by (simp add: extends_def)

lemma extends_trans [trans]: "extends u v \<Longrightarrow> extends v w \<Longrightarrow> extends u w"
  by (auto simp: extends_def)

lemma extends_emit [simp]: "extends w w' \<Longrightarrow> extends w (emit e w')"
  by (auto simp: extends_def)

lemma new_events_trans:
  "extends u v \<Longrightarrow> extends v w \<Longrightarrow> new_events u w = new_events u v @ new_events v w"
  by (auto simp: extends_def new_events_def)

lemma new_events_emit [simp]: "extends w w' \<Longrightarrow> new_events w (emit e w') = new_events w w' @ [e]"
  by (auto simp: extends_def new_events_def)

text \<open>A Rust panic: the panic handler of \<open>src/main.rs\<close> calls \<open>_exit(101)\<close>.\<close>

definition panic :: "world \<Rightarrow> world" where
  "panic w = emit (EProc (PExit 101)) w"

lemma extends_panic [simp]: "extends u w \<Longrightarrow> extends u (panic w)"
  by (simp add: panic_def)

text \<open>A kernel that grants nothing, and the world at the start: concrete values for examples.\<close>

definition os_idle :: os where
  "os_idle = \<lparr>os_eintr = (\<lambda>_ _. 0), os_sleep_left = (\<lambda>_. (0, 0)), os_access = (\<lambda>_ _ _. -1), os_open = (\<lambda>_ _ _. -1),
     os_read = (\<lambda>_ _ _. RAgain), os_write = (\<lambda>_ _ _. None), os_fcntl = (\<lambda>_ _. -1),
     os_pipe = (\<lambda>_. None), os_fork = (\<lambda>_. None), os_chroot = (\<lambda>_ _. -1), os_getuid = (\<lambda>_. 0),
     os_execve_fails = (\<lambda>_ _. True), os_lseek = (\<lambda>_ _. 0), os_clock = (\<lambda>_. None),
     os_time = (\<lambda>_. 0), os_getpwnam = (\<lambda>_ _. None), os_getgrnam = (\<lambda>_ _. None),
     os_readdir = (\<lambda>_ _. None), os_waitpid = (\<lambda>_ _. (0, 0)), os_getpid = (\<lambda>_. 1),
     os_sysconf = (\<lambda>_. 256), os_umask = (\<lambda>_. 0), os_socket = (\<lambda>_. -1), os_bind = (\<lambda>_ _. -1),
     os_listen = (\<lambda>_ _. -1), os_poll = (\<lambda>_ _. PollFail), os_accept = (\<lambda>_ _. -1),
     os_sigrtmax = 64, os_sun_path = 108\<rparr>"

definition world_start :: world where
  "world_start = \<lparr>trace = [], SUPERVISOR_LOG_FD = -1, SUPERVISOR_LOG_LEN = 0, SIG_PIPE_W = -1\<rparr>"

section \<open>Single calls\<close>

text \<open>What C reads at the address of a NUL-terminated literal or array.\<close>

definition c_read :: "bytes \<Rightarrow> bytes" where
  "c_read b = takeWhile (\<lambda>c. c \<noteq> NUL) b"

definition sys_access :: "os \<Rightarrow> bytes \<Rightarrow> amode \<Rightarrow> world \<Rightarrow> int \<times> world" where
  "sys_access os p m w = (let r = os_access os (trace w) p m in (r, emit (EAccess p m r) w))"

definition sys_open :: "os \<Rightarrow> bytes \<Rightarrow> omode \<Rightarrow> world \<Rightarrow> int \<times> world" where
  "sys_open os p m w = (let r = os_open os (trace w) p m in (r, emit (EOpen p m r) w))"

text \<open>A read fills at most \<open>n\<close> bytes of the caller's buffer.\<close>

definition sys_read :: "os \<Rightarrow> int \<Rightarrow> nat \<Rightarrow> world \<Rightarrow> rd_result \<times> world" where
  "sys_read os fd n w =
     ((case os_read os (trace w) fd n of RData b \<Rightarrow> RData (take n b) | r \<Rightarrow> r),
      emit (ERead fd n) w)"

text \<open>A write accepts a prefix of the data; the transcript keeps the bytes accepted.\<close>

definition sys_write :: "os \<Rightarrow> int \<Rightarrow> bytes \<Rightarrow> world \<Rightarrow> int \<times> world" where
  "sys_write os fd b w = (case os_write os (trace w) fd b of
       None \<Rightarrow> (-1, emit (EWrite fd []) w)
     | Some k \<Rightarrow> let k = min k (length b) in (int k, emit (EWrite fd (take k b)) w))"

text \<open>\<open>fork\<close> in the parent: \<open>-1\<close>, or a positive \<open>pid_t\<close>. The child runs \<open>child\<close>, the code of the
  \<open>pid == 0\<close> branch, and its calls are kept with the event.\<close>

definition sys_fork :: "os \<Rightarrow> (world \<Rightarrow> world) \<Rightarrow> world \<Rightarrow> int \<times> world" where
  "sys_fork os child w = (case os_fork os (trace w) of
       None \<Rightarrow> (-1, emit (EFork (-1) []) w)
     | Some n \<Rightarrow> let p = int (n mod 2147483647) + 1
                 in (p, emit (EFork p (new_events w (child w))) w))"

lemma sys_fork_range: "in_i32 (fst (sys_fork os child w))"
  "fst (sys_fork os child w) = -1 \<or> fst (sys_fork os child w) > 0"
proof -
  have "n mod 2147483647 < 2147483647" for n :: nat by simp
  then have "int (n mod 2147483647) < 2147483647" for n :: nat
    by (metis of_nat_less_iff of_nat_numeral)
  then have "int (n mod 2147483647) + 1 \<le> 2147483647" for n :: nat by (simp add: add1_zle_eq)
  then show "in_i32 (fst (sys_fork os child w))"
    by (simp add: sys_fork_def in_i32_def Let_def split: option.split)
  show "fst (sys_fork os child w) = -1 \<or> fst (sys_fork os child w) > 0"
    by (simp add: sys_fork_def Let_def split: option.split)
qed

text \<open>\<open>waitpid(pid, &status, ..)\<close>: the pid and the wait status, both \<open>c_int\<close>.\<close>

definition sys_waitpid :: "os \<Rightarrow> int \<Rightarrow> world \<Rightarrow> (int \<times> int) \<times> world" where
  "sys_waitpid os p w =
     (let r = os_waitpid os (trace w) p; pid = wrap_i32 (fst r); st = wrap_i32 (snd r)
      in ((pid, st), emit (EAsk (QWaitpid p pid st)) w))"

definition sys_kill :: "int \<Rightarrow> int \<Rightarrow> world \<Rightarrow> world" where
  "sys_kill p sig w = emit (EKill p sig) w"

definition sys_lseek_end :: "os \<Rightarrow> int \<Rightarrow> world \<Rightarrow> int \<times> world" where
  "sys_lseek_end os fd w = (let r = os_lseek os (trace w) fd in (r, emit (EAsk (QLseek fd r)) w))"

section \<open>The signals sent\<close>

fun kills :: "event list \<Rightarrow> (int \<times> int) list" where
  "kills [] = []"
| "kills (e # es) = (case e of EKill p sig \<Rightarrow> [(p, sig)] | _ \<Rightarrow> []) @ kills es"

text \<open>All signals sent so far, oldest first.\<close>

definition kill_log :: "world \<Rightarrow> (int \<times> int) list" where
  "kill_log w = kills (rev (trace w))"

lemma kills_append: "kills (es @ fs) = kills es @ kills fs"
  by (induction es) simp_all

lemma kill_log_emit [simp]:
  "kill_log (emit e w) = kill_log w @ (case e of EKill p sig \<Rightarrow> [(p, sig)] | _ \<Rightarrow> [])"
  by (simp add: kill_log_def kills_append)

lemma kill_log_statics [simp]:
  "kill_log (w\<lparr>SUPERVISOR_LOG_FD := x\<rparr>) = kill_log w"
  "kill_log (w\<lparr>SUPERVISOR_LOG_LEN := y\<rparr>) = kill_log w"
  "kill_log (w\<lparr>SIG_PIPE_W := z\<rparr>) = kill_log w"
  by (simp_all add: kill_log_def)

lemma kill_log_calls [simp]:
  "kill_log (snd (sys_access os p m w)) = kill_log w"
  "kill_log (snd (sys_open os p om w)) = kill_log w"
  "kill_log (snd (sys_read os fd n w)) = kill_log w"
  "kill_log (snd (sys_write os fd b w)) = kill_log w"
  "kill_log (snd (sys_fork os child w)) = kill_log w"
  "kill_log (snd (sys_waitpid os q w)) = kill_log w"
  "kill_log (snd (sys_lseek_end os fd w)) = kill_log w"
  "kill_log (sys_kill q sig w) = kill_log w @ [(q, sig)]"
  by (simp_all add: sys_access_def sys_open_def sys_read_def sys_write_def sys_fork_def
      sys_waitpid_def sys_lseek_end_def sys_kill_def Let_def split: option.split)

end
