(* ===== verification/Fd.thy ===== *)
theory Fd
  imports Posix
begin

text \<open>
  \<open>src/fd.rs\<close>: descriptors, the retry loops around \<open>close\<close>, \<open>read\<close>, \<open>write\<close> and
  \<open>nanosleep\<close>, whole-file reads and the clocks. \<open>FdGuard\<close> is the raw descriptor; where the
  code drops a guard, the model closes it.
\<close>

section \<open>Retry loops\<close>

fun eintr_loop :: "nat \<Rightarrow> event \<Rightarrow> world \<Rightarrow> world" where
  "eintr_loop 0 e w = w"
| "eintr_loop (Suc k) e w = eintr_loop k e (emit e w)"

definition retried :: "os \<Rightarrow> event \<Rightarrow> world \<Rightarrow> world" where
  "retried os e w = eintr_loop (os_eintr os (trace w) e) e w"

lemma eintr_loop_trace: "trace (eintr_loop k e w) = replicate k e @ trace w"
proof (induction k arbitrary: w)
  case (Suc k)
  have "replicate k e @ [e] = e # replicate k e" by (induction k) simp_all
  with Suc show ?case by (simp flip: append_assoc append_Cons)
qed simp

lemma eintr_loop_frame:
  "SUPERVISOR_LOG_FD (eintr_loop k e w) = SUPERVISOR_LOG_FD w"
  "SUPERVISOR_LOG_LEN (eintr_loop k e w) = SUPERVISOR_LOG_LEN w"
  "SIG_PIPE_W (eintr_loop k e w) = SIG_PIPE_W w"
  by (induction k arbitrary: w) simp_all

lemma retried_frame [simp, frame_simps]:
  "SUPERVISOR_LOG_FD (retried os e w) = SUPERVISOR_LOG_FD w"
  "SUPERVISOR_LOG_LEN (retried os e w) = SUPERVISOR_LOG_LEN w"
  "SIG_PIPE_W (retried os e w) = SIG_PIPE_W w"
  by (simp_all add: retried_def eintr_loop_frame)

lemma retried_trace: "\<exists>k. trace (retried os e w) = replicate k e @ trace w"
  by (auto simp: retried_def eintr_loop_trace)

lemma extends_retried [simp]: "extends u w \<Longrightarrow> extends u (retried os e w)"
  using retried_trace [of os e w] by (auto simp: extends_def)

lemma in_new_events_retried [simp]:
  assumes "x \<noteq> e" "extends u v"
  shows "x \<in> set (new_events u (retried os e v)) \<longleftrightarrow> x \<in> set (new_events u v)"
proof -
  obtain k where "trace (retried os e v) = replicate k e @ trace v" using retried_trace by blast
  then have "new_events v (retried os e v) = replicate k e" by (simp add: new_events_eq)
  with assms show ?thesis by (simp add: new_events_trans [of u v "retried os e v"])
qed

section \<open>Descriptors\<close>

definition guard_from_raw :: "int \<Rightarrow> int option" where
  "guard_from_raw fd = (if fd \<ge> 0 then Some fd else None)"

definition close_fd :: "os \<Rightarrow> int \<Rightarrow> world \<Rightarrow> world" where
  "close_fd os fd w = (if fd \<ge> 0 then emit (EClose fd) (retried os (EClose fd) w) else w)"

definition libc_close :: "int \<Rightarrow> world \<Rightarrow> world" where
  "libc_close fd w = emit (EClose fd) w"

definition sys_fcntl_get :: "os \<Rightarrow> int \<Rightarrow> world \<Rightarrow> int \<times> world" where
  "sys_fcntl_get os fd w = (let r = os_fcntl os (trace w) fd in (r, emit (EAsk (QFcntl fd r)) w))"

definition set_nonblock :: "os \<Rightarrow> int \<Rightarrow> world \<Rightarrow> bool \<times> world" where
  "set_nonblock os fd w =
     (let (flags, w) = sys_fcntl_get os fd w
      in if flags \<ge> 0 then (os_fcntl os (trace w) fd \<ge> 0, emit (ENonblock fd) w) else (False, w))"

definition set_cloexec :: "os \<Rightarrow> int \<Rightarrow> world \<Rightarrow> bool \<times> world" where
  "set_cloexec os fd w =
     (let (flags, w) = sys_fcntl_get os fd w
      in if flags \<ge> 0 then (os_fcntl os (trace w) fd \<ge> 0, emit (ECloexec fd) w) else (False, w))"

definition pipe_new :: "os \<Rightarrow> world \<Rightarrow> (int \<times> int) option \<times> world" where
  "pipe_new os w =
     (let res = os_pipe os (trace w); w = emit (EPipe res) w
      in case res of
           None \<Rightarrow> (None, w)
         | Some (r0, w0) \<Rightarrow>
             (case guard_from_raw r0 of
                None \<Rightarrow> (None, w)
              | Some rd \<Rightarrow>
                  (case guard_from_raw w0 of
                     None \<Rightarrow> (None, close_fd os rd w)
                   | Some wr \<Rightarrow>
                       let w = snd (set_nonblock os rd w);
                           w = snd (set_nonblock os wr w);
                           w = snd (set_cloexec os rd w);
                           w = snd (set_cloexec os wr w)
                       in (Some (rd, wr), w))))"

text \<open>\<open>close_from(min)\<close> closes every descriptor from \<open>min\<close> up to the (capped) table size.\<close>

definition close_from_max :: "int \<Rightarrow> int" where
  "close_from_max mx =
     (let mx = (if mx \<le> 0 then 1024 else mx) in if mx > 65536 then 65536 else mx)"

definition close_from :: "os \<Rightarrow> nat \<Rightarrow> world \<Rightarrow> world" where
  "close_from os mn w =
     (let mx = os_sysconf os (trace w); w = emit (EAsk (QSysconf mx)) w
      in fold (\<lambda>fd. libc_close (int fd)) [mn..<nat (close_from_max mx)] w)"

definition ensure_stdio_fd :: "os \<Rightarrow> int \<Rightarrow> world \<Rightarrow> world" where
  "ensure_stdio_fd os fd w =
     (let (fl, w) = sys_fcntl_get os fd w
      in if fl < 0
         then let (nfd, w) = sys_open os (c_read DEV_NULL) O_RDWR w
              in if nfd \<ge> 0 \<and> nfd \<noteq> fd then libc_close nfd (emit (EDup2 nfd fd) w) else w
         else w)"

definition ensure_stdio :: "os \<Rightarrow> world \<Rightarrow> world" where
  "ensure_stdio os w = fold (ensure_stdio_fd os) [0, 1, 2] w"

section \<open>Reading and writing\<close>

text \<open>\<open>write_all\<close> returns when everything is written or a write accepts nothing; each accepted
  chunk shortens the data, so the loop ends.\<close>

function write_all :: "os \<Rightarrow> int \<Rightarrow> bytes \<Rightarrow> world \<Rightarrow> bool \<times> world" where
  "write_all os fd data w =
     (if data = [] then (True, w)
      else let rw = sys_write os fd data (retried os (EWrite fd []) w)
           in if fst rw > 0 then write_all os fd (drop (nat (fst rw)) data) (snd rw)
              else (False, snd rw))"
  by pat_completeness auto
termination
  by (relation "measure (\<lambda>(os, fd, data, w). length data)") auto

declare write_all.simps [simp del]

definition read_all_nonblock :: "os \<Rightarrow> int \<Rightarrow> nat \<Rightarrow> world \<Rightarrow> rd_result \<times> world" where
  "read_all_nonblock os fd n w = sys_read os fd n (retried os (ERead fd n) w)"

text \<open>\<open>read_file_to_buf\<close>: one read of at most \<open>n\<close> bytes; the callers go on when it got any.\<close>

definition read_file_to_buf :: "os \<Rightarrow> cstrbuf \<Rightarrow> nat \<Rightarrow> world \<Rightarrow> rd_result \<times> world" where
  "read_file_to_buf os p n w =
     (let (fd, w) = sys_open os (cs_cstr p) O_RDONLY w
      in if fd < 0 then (RFail, w)
         else let (nr, w) = read_all_nonblock os fd n w in (nr, close_fd os fd w))"

fun rd_data :: "rd_result \<Rightarrow> bytes" where
  "rd_data (RData b) = b"
| "rd_data RAgain = []"
| "rd_data RFail = []"

definition bytes_eq :: "bytes \<Rightarrow> bytes \<Rightarrow> bool" where
  "bytes_eq a b \<longleftrightarrow> length a = length b \<and> list_all (\<lambda>(x, y). x = y) (zip a b)"

section \<open>Clocks\<close>

definition u64_of_i64 :: "int \<Rightarrow> nat" where
  "u64_of_i64 t = nat (t mod 18446744073709551616)"

definition wall_now :: "os \<Rightarrow> world \<Rightarrow> int \<times> world" where
  "wall_now os w = (wrap_i64 (os_time os (trace w)), emit (EAsk QTime) w)"

definition mono_now :: "os \<Rightarrow> world \<Rightarrow> int \<times> world" where
  "mono_now os w = (case os_clock os (trace w) of
       Some t \<Rightarrow> (wrap_i64 t, emit (EAsk QClock) w)
     | None \<Rightarrow> wall_now os (emit (EAsk QClock) w))"

text \<open>\<open>nanosleep(&ts, &mut ts)\<close>: an interrupted sleep leaves the time that remains in \<open>ts\<close>, and the
  next call of the loop asks for that.\<close>

fun sleep_loop :: "os \<Rightarrow> nat \<Rightarrow> int \<Rightarrow> int \<Rightarrow> world \<Rightarrow> world" where
  "sleep_loop os 0 sec nsec w = emit (EAsk (QNanosleep sec nsec)) w"
| "sleep_loop os (Suc k) sec nsec w =
     (let w = emit (EAsk (QNanosleep sec nsec)) w;
          (sec, nsec) = os_sleep_left os (trace w)
      in sleep_loop os k sec nsec w)"

definition sleep_ms :: "os \<Rightarrow> int \<Rightarrow> world \<Rightarrow> world" where
  "sleep_ms os ms w =
     (let sec = ms div 1000;
          nsec = ms mod 1000 * 1000000
      in sleep_loop os (os_eintr os (trace w) (EAsk (QNanosleep sec nsec))) sec nsec w)"

section \<open>What the wrappers do\<close>

lemma bytes_eq_iff [simp]: "bytes_eq a b \<longleftrightarrow> a = b"
  unfolding bytes_eq_def by (induction a b rule: list_induct2') auto

lemma mono_now_in: "in_i64 (fst (mono_now os w))"
  by (simp add: mono_now_def wall_now_def wrap_i64_in split: option.split)

lemma u64_of_i64_le: "u64_of_i64 t \<le> u64_max"
proof -
  have "t mod 18446744073709551616 < 18446744073709551616" by simp
  then show ?thesis unfolding u64_of_i64_def by linarith
qed

lemma sys_frame [simp, frame_simps]:
  "SUPERVISOR_LOG_FD (snd (sys_access os p m w)) = SUPERVISOR_LOG_FD w"
  "SUPERVISOR_LOG_FD (snd (sys_open os p om w)) = SUPERVISOR_LOG_FD w"
  "SUPERVISOR_LOG_FD (snd (sys_read os fd n w)) = SUPERVISOR_LOG_FD w"
  "SUPERVISOR_LOG_FD (snd (sys_write os fd b w)) = SUPERVISOR_LOG_FD w"
  "SUPERVISOR_LOG_FD (close_fd os fd w) = SUPERVISOR_LOG_FD w"
  by (simp_all add: sys_access_def sys_open_def sys_read_def sys_write_def close_fd_def Let_def
      split: option.split)

lemma extends_sleep_loop: "extends u w \<Longrightarrow> extends u (sleep_loop os k sec nsec w)"
  by (induction k arbitrary: sec nsec w) (simp_all add: Let_def split_def)

lemma sys_extends [simp]:
  assumes "extends u w"
  shows "extends u (snd (sys_access os p m w))" "extends u (snd (sys_open os p om w))"
    "extends u (snd (sys_read os fd n w))" "extends u (snd (sys_write os fd b w))"
    "extends u (snd (sys_fork os child w))" "extends u (sys_kill q sig w)"
    "extends u (snd (sys_waitpid os q w))"
    "extends u (snd (sys_lseek_end os fd w))" "extends u (close_fd os fd w)"
    "extends u (libc_close fd w)" "extends u (snd (sys_fcntl_get os fd w))"
    "extends u (snd (mono_now os w))" "extends u (snd (wall_now os w))"
    "extends u (sleep_ms os ms w)"
  using assms
  by (simp_all add: sys_access_def sys_open_def sys_read_def sys_write_def sys_fork_def
      sys_kill_def sys_waitpid_def sys_lseek_end_def close_fd_def libc_close_def sys_fcntl_get_def mono_now_def
      wall_now_def sleep_ms_def extends_sleep_loop Let_def split: option.split)

lemma extends_set_flags [simp]:
  "extends u w \<Longrightarrow> extends u (snd (set_nonblock os fd w))"
  "extends u w \<Longrightarrow> extends u (snd (set_cloexec os fd w))"
  by (simp_all add: set_nonblock_def set_cloexec_def sys_fcntl_get_def Let_def)

lemma extends_pipe_new [simp]: "extends u w \<Longrightarrow> extends u (snd (pipe_new os w))"
  by (simp add: pipe_new_def Let_def split: option.split)

lemma extends_fold: "(\<And>x w. extends u w \<Longrightarrow> extends u (f x w)) \<Longrightarrow>
  extends u w \<Longrightarrow> extends u (fold f xs w)"
  by (induction xs arbitrary: w) simp_all

lemma extends_close_from [simp]: "extends u w \<Longrightarrow> extends u (close_from os mn w)"
  by (simp add: close_from_def Let_def extends_fold)

lemma extends_write_all [simp]: "extends u w \<Longrightarrow> extends u (snd (write_all os fd data w))"
proof (induction os fd data w rule: write_all.induct)
  case (1 os fd data w)
  then show ?case by (subst write_all.simps) (simp add: Let_def)
qed

lemma extends_read [simp]:
  "extends u w \<Longrightarrow> extends u (snd (read_all_nonblock os fd n w))"
  "extends u w \<Longrightarrow> extends u (snd (read_file_to_buf os p n w))"
  by (simp_all add: read_all_nonblock_def read_file_to_buf_def split_def Let_def)

lemma read_all_bound: "length (rd_data (fst (read_all_nonblock os fd n w))) \<le> n"
  by (simp add: read_all_nonblock_def sys_read_def split: rd_result.split)

lemma read_file_bound: "length (rd_data (fst (read_file_to_buf os p n w))) \<le> n"
  using read_all_bound by (simp add: read_file_to_buf_def split_def Let_def)

text \<open>The bytes a run wrote to a descriptor.\<close>

fun written :: "int \<Rightarrow> event list \<Rightarrow> bytes" where
  "written fd [] = []"
| "written fd (e # es) = (case e of EWrite fd' b \<Rightarrow> (if fd' = fd then b else []) | _ \<Rightarrow> [])
     @ written fd es"

lemma written_append: "written fd (es @ fs) = written fd es @ written fd fs"
  by (induction es) simp_all

lemma written_trans: "extends u v \<Longrightarrow> extends v w \<Longrightarrow>
  written fd (new_events u w) = written fd (new_events u v) @ written fd (new_events v w)"
  by (simp only: new_events_trans written_append)

lemma written_retried: "written fd (new_events w (retried os (EWrite fd' []) w)) = []"
proof -
  obtain k where "trace (retried os (EWrite fd' []) w) = replicate k (EWrite fd' []) @ trace w"
    using retried_trace by blast
  then have "new_events w (retried os (EWrite fd' []) w) = replicate k (EWrite fd' [])"
    by (simp add: new_events_eq)
  moreover have "written fd (replicate k (EWrite fd' [])) = []" by (induction k) simp_all
  ultimately show ?thesis by simp
qed

lemma written_sys_write:
  "written fd (new_events w (snd (sys_write os fd b w))) = take (nat (fst (sys_write os fd b w))) b"
  by (simp add: sys_write_def Let_def split: option.split)

lemma written_write_step:
  "written fd (new_events w (snd (sys_write os fd b (retried os (EWrite fd []) w)))) =
   take (nat (fst (sys_write os fd b (retried os (EWrite fd []) w)))) b"
  by (subst written_trans [where v = "retried os (EWrite fd []) w"])
    (simp_all add: written_retried written_sys_write)

text \<open>\<open>write_all\<close> writes a prefix, in order and without gaps, and says whether it is all.\<close>

lemma write_all_spec:
  "\<exists>rest. data = written fd (new_events w (snd (write_all os fd data w))) @ rest
     \<and> fst (write_all os fd data w) = (rest = [])"
proof (induction os fd data w rule: write_all.induct)
  case (1 os fd data w)
  let ?rw = "sys_write os fd data (retried os (EWrite fd []) w)"
  show ?case
  proof (cases "data \<noteq> [] \<and> fst ?rw > 0")
    case True
    then have step: "write_all os fd data w = write_all os fd (drop (nat (fst ?rw)) data) (snd ?rw)"
      by (simp add: write_all.simps [of os fd data w] Let_def)
    obtain rest where rest: "drop (nat (fst ?rw)) data =
        written fd (new_events (snd ?rw) (snd (write_all os fd data w))) @ rest"
        "fst (write_all os fd data w) = (rest = [])"
      using 1 True step by fastforce
    have "written fd (new_events w (snd (write_all os fd data w))) =
      take (nat (fst ?rw)) data @ written fd (new_events (snd ?rw) (snd (write_all os fd data w)))"
      by (subst written_trans [where v = "snd ?rw"]) (simp_all add: written_write_step step)
    with rest show ?thesis by (metis append_take_drop_id append_assoc)
  next
    case False
    then have stop: "write_all os fd data w = (if data = [] then (True, w) else (False, snd ?rw))"
      by (auto simp: write_all.simps [of os fd data w] Let_def)
    show ?thesis
    proof (cases "data = []")
      case True
      with stop show ?thesis by simp
    next
      case ne: False
      with False have "nat (fst ?rw) = 0" by simp
      then have "written fd (new_events w (snd ?rw)) = []"
        by (simp add: written_write_step)
      with stop ne show ?thesis by simp
    qed
  qed
qed

section \<open>None of the wrappers sends a signal\<close>

lemma kill_log_retried [simp]:
  "(\<And>p sig. e \<noteq> EKill p sig) \<Longrightarrow> kill_log (retried os e w) = kill_log w"
proof -
  assume e: "\<And>p sig. e \<noteq> EKill p sig"
  have "kill_log (eintr_loop k e w) = kill_log w" for k
    using e by (induction k arbitrary: w) (auto split: event.split)
  then show ?thesis by (simp add: retried_def)
qed

lemma kill_log_sleep_loop: "kill_log (sleep_loop os k sec nsec w) = kill_log w"
  by (induction k arbitrary: sec nsec w) (simp_all add: Let_def split_def)

lemma kill_log_fd [simp]:
  "kill_log (close_fd os fd w) = kill_log w"
  "kill_log (libc_close fd w) = kill_log w"
  "kill_log (snd (sys_fcntl_get os fd w)) = kill_log w"
  "kill_log (snd (set_nonblock os fd w)) = kill_log w"
  "kill_log (snd (set_cloexec os fd w)) = kill_log w"
  "kill_log (snd (wall_now os w)) = kill_log w"
  "kill_log (snd (mono_now os w)) = kill_log w"
  "kill_log (sleep_ms os ms w) = kill_log w"
  "kill_log (snd (read_all_nonblock os fd n w)) = kill_log w"
  by (simp_all add: close_fd_def libc_close_def sys_fcntl_get_def set_nonblock_def set_cloexec_def
      wall_now_def mono_now_def sleep_ms_def kill_log_sleep_loop read_all_nonblock_def Let_def split_def
      split: option.split)

lemma kill_log_read_file [simp]: "kill_log (snd (read_file_to_buf os p n w)) = kill_log w"
  by (simp add: read_file_to_buf_def split_def Let_def)

lemma kill_log_pipe_new [simp]: "kill_log (snd (pipe_new os w)) = kill_log w"
  by (simp add: pipe_new_def Let_def split: option.split)

lemma kill_log_write_all [simp]: "kill_log (snd (write_all os fd data w)) = kill_log w"
proof (induction os fd data w rule: write_all.induct)
  case (1 os fd data w)
  then show ?case by (subst write_all.simps) (simp add: Let_def)
qed

section \<open>Claims\<close>

text \<open>C34. However the kernel splits and interrupts the writes, \<open>write_all\<close> returns, has written a
  prefix of the data without gaps or repetitions, and reports success exactly when that is all.\<close>

theorem write_all_prefix:
  "\<exists>rest. data = written fd (new_events w (snd (write_all os fd data w))) @ rest \<and>
     fst (write_all os fd data w) = (rest = [])"
  by (rule write_all_spec)

end
