(* ===== verification/Types.thy ===== *)
theory Types
  imports Fd
begin

text \<open>
  \<open>src/types.rs\<close>: dependencies, log streams and the service record, with the sizes of its
  arrays as a well-formedness predicate. The raw pointers of \<open>env_ptrs\<close> all point into
  \<open>env_buf\<close> of the same record: a pointer is its offset there, \<open>None\<close> is null.
\<close>

record dependency =
  dep_name :: bytes
  dep_name_len :: nat
  soft :: bool

definition DEP_EMPTY :: dependency where
  "DEP_EMPTY = \<lparr>dep_name = replicate NAME_BUF NUL, dep_name_len = 0, soft = False\<rparr>"

record stream =
  read_fd :: int
  log_fd :: int
  log_len :: int
  rotations :: nat

definition STREAM_EMPTY :: stream where
  "STREAM_EMPTY = \<lparr>read_fd = -1, log_fd = -1, log_len = 0, rotations = 0\<rparr>"

record service =
  active :: bool
  present :: bool
  stopping :: bool
  manual_start :: bool
  name :: bytes
  name_len :: nat
  dir :: bytes
  dir_len :: nat
  pid :: int
  streams :: "stream list"
  restart_at :: int
  started_at :: int
  restarts :: nat
  last_status :: int
  state :: nat
  exit_code :: int
  term_signal :: int
  auto_start :: bool
  once :: bool
  deps :: "dependency list"
  deps_count :: nat
  has_log :: bool
  log_pid :: int
  log_state :: nat
  log_started_at :: int
  log_stopping :: bool
  uid :: nat
  gid :: nat
  has_uid :: bool
  env_buf :: bytes
  env_ptrs :: "nat option list"
  env_count :: nat
  chroot_enabled :: bool

definition SERVICE_EMPTY :: service where
  "SERVICE_EMPTY = \<lparr>
     active = False, present = False, stopping = False, manual_start = False,
     name = replicate NAME_BUF NUL, name_len = 0,
     dir = replicate PATH_BUF NUL, dir_len = 0,
     pid = -1, streams = replicate 2 STREAM_EMPTY,
     restart_at = 0, started_at = 0, restarts = 0, last_status = 0,
     state = STATE_DOWN, exit_code = 0, term_signal = 0,
     auto_start = True, once = False,
     deps = replicate MAX_DEPENDENCIES DEP_EMPTY, deps_count = 0,
     has_log = False, log_pid = -1, log_state = STATE_DOWN, log_started_at = 0,
     log_stopping = False,
     uid = 0, gid = 0, has_uid = False,
     env_buf = replicate ENV_BUF NUL, env_ptrs = replicate (MAX_ENV_VARS + 1) None,
     env_count = 0, chroot_enabled = False\<rparr>"

text \<open>An entry of the static \<open>SERVICES\<close> of \<open>src/main.rs\<close> before its first use: all bytes zero.\<close>

definition SERVICE_ZERO :: service where
  "SERVICE_ZERO = SERVICE_EMPTY\<lparr>
     pid := 0, log_pid := 0, auto_start := False,
     streams := replicate 2 \<lparr>read_fd = 0, log_fd = 0, log_len = 0, rotations = 0\<rparr>\<rparr>"

section \<open>Methods\<close>

definition dir_bytes :: "service \<Rightarrow> bytes" where
  "dir_bytes s = take (dir_len s) (dir s)"

definition name_bytes :: "service \<Rightarrow> bytes" where
  "name_bytes s = take (name_len s) (name s)"

definition dep_bytes :: "dependency \<Rightarrow> bytes" where
  "dep_bytes d = take (dep_name_len d) (dep_name d)"

definition set_dir :: "cstrbuf \<Rightarrow> service \<Rightarrow> service" where
  "set_dir p s =
     (let s = s\<lparr>dir_len := cs_len p\<rparr>;
          s = s\<lparr>dir := copy_slice 0 (cs_bytes p) (dir s)\<rparr>
      in s\<lparr>dir := (dir s)[cs_len p := NUL]\<rparr>)"

definition set_name :: "bytes \<Rightarrow> service \<Rightarrow> service" where
  "set_name b s =
     (let n = min (length b) (NAME_BUF - 1);
          s = s\<lparr>name_len := n\<rparr>;
          s = s\<lparr>name := copy_slice 0 (take n b) (name s)\<rparr>
      in s\<lparr>name := (name s)[n := NUL]\<rparr>)"

definition uptime_seconds :: "service \<Rightarrow> int \<Rightarrow> int" where
  "uptime_seconds s now =
     (if state s = STATE_RUNNING \<and> started_at s > 0 then wrap_i64 (now - started_at s) else 0)"

definition log_uptime_seconds :: "service \<Rightarrow> int \<Rightarrow> int" where
  "log_uptime_seconds s now =
     (if log_state s = STATE_RUNNING \<and> log_started_at s > 0
      then wrap_i64 (now - log_started_at s) else 0)"

definition upd_stream :: "nat \<Rightarrow> (stream \<Rightarrow> stream) \<Rightarrow> service \<Rightarrow> service" where
  "upd_stream i f s = s\<lparr>streams := (streams s)[i := f (streams s ! i)]\<rparr>"

text \<open>The C string the kernel reads at \<open>s.dir.as_ptr()\<close>.\<close>

definition dir_cstr :: "service \<Rightarrow> bytes" where
  "dir_cstr s = takeWhile (\<lambda>c. c \<noteq> NUL) (dir s)"

text \<open>A path under the service directory: \<open>CStrBuf::from_bytes(s.dir_bytes())\<close>, then a push.\<close>

definition svc_path :: "service \<Rightarrow> bytes \<Rightarrow> cstrbuf" where
  "svc_path s suffix = cs_push suffix (cs_from_bytes (dir_bytes s))"

section \<open>Well-formed services\<close>

definition dep_wf :: "dependency \<Rightarrow> bool" where
  "dep_wf d \<longleftrightarrow> length (dep_name d) = NAME_BUF \<and> dep_name_len d < NAME_BUF"

text \<open>The array sizes are those of the declaration; the counts stay inside them.\<close>

definition svc_wf :: "service \<Rightarrow> bool" where
  "svc_wf s \<longleftrightarrow>
     length (name s) = NAME_BUF \<and> name_len s < NAME_BUF \<and>
     length (dir s) = PATH_BUF \<and> dir_len s < PATH_BUF \<and>
     NUL \<notin> set (dir_bytes s) \<and> dir s ! dir_len s = NUL \<and>
     length (streams s) = 2 \<and>
     length (deps s) = MAX_DEPENDENCIES \<and> deps_count s \<le> MAX_DEPENDENCIES \<and>
     (\<forall>d \<in> set (deps s). dep_wf d) \<and>
     length (env_buf s) = ENV_BUF \<and> length (env_ptrs s) = MAX_ENV_VARS + 1 \<and>
     env_count s \<le> MAX_ENV_VARS \<and>
     in_i32 (pid s) \<and> in_i32 (log_pid s) \<and> in_i32 (last_status s) \<and>
     in_i32 (exit_code s) \<and> in_i32 (term_signal s) \<and>
     restarts s \<le> u32_max \<and> in_i64 (restart_at s) \<and> in_i64 (started_at s) \<and>
     in_i64 (log_started_at s)"

lemma svc_wf_EMPTY: "svc_wf SERVICE_EMPTY"
  by (simp add: svc_wf_def SERVICE_EMPTY_def dep_wf_def DEP_EMPTY_def dir_bytes_def in_i64_def
      in_i32_def)

lemma svc_wf_ZERO: "svc_wf SERVICE_ZERO"
  using svc_wf_EMPTY by (simp add: svc_wf_def SERVICE_ZERO_def dir_bytes_def in_i32_def)

lemma name_bytes_length: "svc_wf s \<Longrightarrow> length (name_bytes s) = name_len s"
  by (simp add: svc_wf_def name_bytes_def)

lemma dir_cstr_bytes: "svc_wf s \<Longrightarrow> dir_cstr s = dir_bytes s"
proof -
  assume wf: "svc_wf s"
  let ?p = "take (dir_len s) (dir s)"
  have "dir s = ?p @ NUL # drop (Suc (dir_len s)) (dir s)"
    using wf id_take_nth_drop [of "dir_len s" "dir s"] by (simp add: svc_wf_def)
  moreover have "takeWhile (\<lambda>c. c \<noteq> NUL) (?p @ NUL # ys) = ?p" for ys
    using wf by (subst takeWhile_append2) (auto simp: svc_wf_def dir_bytes_def)
  ultimately show ?thesis unfolding dir_cstr_def dir_bytes_def by metis
qed

lemma set_name_bytes: "length (name s) = NAME_BUF \<Longrightarrow> name_bytes (set_name b s) = take 63 b"
  by (simp add: set_name_def name_bytes_def Let_def copy_slice_def min_def)

lemma set_dir_bytes:
  "cs_inv p \<Longrightarrow> length (dir s) = PATH_BUF \<Longrightarrow> dir_bytes (set_dir p s) = cs_bytes p"
  using cs_bytes_length [of p]
  by (simp add: set_dir_def dir_bytes_def Let_def cs_inv_def copy_slice_def)

lemma svc_wf_set_name: "svc_wf s \<Longrightarrow> svc_wf (set_name b s)"
  by (simp add: svc_wf_def set_name_def Let_def dir_bytes_def copy_slice_def)

lemma svc_wf_set_dir: "svc_wf s \<Longrightarrow> cs_inv p \<Longrightarrow> svc_wf (set_dir p s)"
  using set_dir_bytes [of p s] cs_bytes_length [of p] cs_bytes_no_NUL [of p]
  by (simp add: svc_wf_def set_dir_def Let_def copy_slice_def cs_inv_def)

lemma cs_inv_svc_path [simp]: "cs_inv (svc_path s x)"
  by (simp add: svc_path_def)

lemma nz_dir: "svc_wf s \<Longrightarrow> nz (dir_bytes s) = dir_bytes s"
  by (rule filter_True) (auto simp: svc_wf_def)

lemma dir_bytes_le: "svc_wf s \<Longrightarrow> length (dir_bytes s) \<le> 1023"
  by (simp add: dir_bytes_def svc_wf_def)

lemma svc_path_bytes: "svc_wf s \<Longrightarrow>
  cs_bytes (svc_path s x) = take 1023 (dir_bytes s @ nz x)"
  using dir_bytes_le [of s] by (simp add: svc_path_def bytes_simps nz_dir)

lemma svc_path_cstr: "svc_wf s \<Longrightarrow>
  cs_cstr (svc_path s x) = take 1023 (dir_bytes s @ nz x)"
  by (simp add: svc_path_bytes cs_cstr_bytes)

lemma uptime_range: "in_i64 (uptime_seconds s now)" "in_i64 (log_uptime_seconds s now)"
  using wrap_i64_in by (simp_all add: uptime_seconds_def log_uptime_seconds_def in_i64_def)

section \<open>Updates that keep the record well-formed\<close>

lemma svc_wf_flags [simp]:
  "svc_wf (s\<lparr>active := xactive\<rparr>) = svc_wf s"
  "svc_wf (s\<lparr>present := xpresent\<rparr>) = svc_wf s"
  "svc_wf (s\<lparr>stopping := xstopping\<rparr>) = svc_wf s"
  "svc_wf (s\<lparr>manual_start := xmanual_start\<rparr>) = svc_wf s"
  "svc_wf (s\<lparr>state := xstate\<rparr>) = svc_wf s"
  "svc_wf (s\<lparr>auto_start := xauto_start\<rparr>) = svc_wf s"
  "svc_wf (s\<lparr>once := xonce\<rparr>) = svc_wf s"
  "svc_wf (s\<lparr>has_log := xhas_log\<rparr>) = svc_wf s"
  "svc_wf (s\<lparr>log_state := xlog_state\<rparr>) = svc_wf s"
  "svc_wf (s\<lparr>log_stopping := xlog_stopping\<rparr>) = svc_wf s"
  "svc_wf (s\<lparr>uid := xuid\<rparr>) = svc_wf s"
  "svc_wf (s\<lparr>gid := xgid\<rparr>) = svc_wf s"
  "svc_wf (s\<lparr>has_uid := xhas_uid\<rparr>) = svc_wf s"
  "svc_wf (s\<lparr>chroot_enabled := xchroot_enabled\<rparr>) = svc_wf s"
  by (simp_all add: svc_wf_def dir_bytes_def)

lemma svc_wf_numbers [simp]:
  "svc_wf s \<Longrightarrow> svc_wf (s\<lparr>pid := v\<rparr>) = in_i32 v"
  "svc_wf s \<Longrightarrow> svc_wf (s\<lparr>log_pid := v\<rparr>) = in_i32 v"
  "svc_wf s \<Longrightarrow> svc_wf (s\<lparr>last_status := v\<rparr>) = in_i32 v"
  "svc_wf s \<Longrightarrow> svc_wf (s\<lparr>exit_code := v\<rparr>) = in_i32 v"
  "svc_wf s \<Longrightarrow> svc_wf (s\<lparr>term_signal := v\<rparr>) = in_i32 v"
  "svc_wf s \<Longrightarrow> svc_wf (s\<lparr>restart_at := v\<rparr>) = in_i64 v"
  "svc_wf s \<Longrightarrow> svc_wf (s\<lparr>started_at := v\<rparr>) = in_i64 v"
  "svc_wf s \<Longrightarrow> svc_wf (s\<lparr>log_started_at := v\<rparr>) = in_i64 v"
  "svc_wf s \<Longrightarrow> svc_wf (s\<lparr>restarts := n\<rparr>) = (n \<le> u32_max)"
  by (auto simp: svc_wf_def dir_bytes_def)

lemma svc_wf_upd_stream [simp]: "svc_wf (upd_stream i f s) = svc_wf s"
  by (simp add: svc_wf_def upd_stream_def dir_bytes_def)

lemma name_bytes_upd [simp]:
  "name_bytes (s\<lparr>active := xactive\<rparr>) = name_bytes s"
  "name_bytes (s\<lparr>present := xpresent\<rparr>) = name_bytes s"
  "name_bytes (s\<lparr>stopping := xstopping\<rparr>) = name_bytes s"
  "name_bytes (s\<lparr>manual_start := xmanual_start\<rparr>) = name_bytes s"
  "name_bytes (s\<lparr>state := xstate\<rparr>) = name_bytes s"
  "name_bytes (s\<lparr>auto_start := xauto_start\<rparr>) = name_bytes s"
  "name_bytes (s\<lparr>once := xonce\<rparr>) = name_bytes s"
  "name_bytes (s\<lparr>has_log := xhas_log\<rparr>) = name_bytes s"
  "name_bytes (s\<lparr>log_state := xlog_state\<rparr>) = name_bytes s"
  "name_bytes (s\<lparr>log_stopping := xlog_stopping\<rparr>) = name_bytes s"
  "name_bytes (s\<lparr>uid := xuid\<rparr>) = name_bytes s"
  "name_bytes (s\<lparr>gid := xgid\<rparr>) = name_bytes s"
  "name_bytes (s\<lparr>has_uid := xhas_uid\<rparr>) = name_bytes s"
  "name_bytes (s\<lparr>chroot_enabled := xchroot_enabled\<rparr>) = name_bytes s"
  "name_bytes (s\<lparr>pid := xpid\<rparr>) = name_bytes s"
  "name_bytes (s\<lparr>log_pid := xlog_pid\<rparr>) = name_bytes s"
  "name_bytes (s\<lparr>last_status := xlast_status\<rparr>) = name_bytes s"
  "name_bytes (s\<lparr>exit_code := xexit_code\<rparr>) = name_bytes s"
  "name_bytes (s\<lparr>term_signal := xterm_signal\<rparr>) = name_bytes s"
  "name_bytes (s\<lparr>restart_at := xrestart_at\<rparr>) = name_bytes s"
  "name_bytes (s\<lparr>started_at := xstarted_at\<rparr>) = name_bytes s"
  "name_bytes (s\<lparr>log_started_at := xlog_started_at\<rparr>) = name_bytes s"
  "name_bytes (s\<lparr>restarts := xrestarts\<rparr>) = name_bytes s"
  "name_bytes (s\<lparr>streams := xstreams\<rparr>) = name_bytes s"
  by (simp_all add: name_bytes_def)

lemma dir_bytes_upd [simp]:
  "dir_bytes (s\<lparr>active := xactive\<rparr>) = dir_bytes s"
  "dir_bytes (s\<lparr>present := xpresent\<rparr>) = dir_bytes s"
  "dir_bytes (s\<lparr>stopping := xstopping\<rparr>) = dir_bytes s"
  "dir_bytes (s\<lparr>manual_start := xmanual_start\<rparr>) = dir_bytes s"
  "dir_bytes (s\<lparr>state := xstate\<rparr>) = dir_bytes s"
  "dir_bytes (s\<lparr>auto_start := xauto_start\<rparr>) = dir_bytes s"
  "dir_bytes (s\<lparr>once := xonce\<rparr>) = dir_bytes s"
  "dir_bytes (s\<lparr>has_log := xhas_log\<rparr>) = dir_bytes s"
  "dir_bytes (s\<lparr>log_state := xlog_state\<rparr>) = dir_bytes s"
  "dir_bytes (s\<lparr>log_stopping := xlog_stopping\<rparr>) = dir_bytes s"
  "dir_bytes (s\<lparr>uid := xuid\<rparr>) = dir_bytes s"
  "dir_bytes (s\<lparr>gid := xgid\<rparr>) = dir_bytes s"
  "dir_bytes (s\<lparr>has_uid := xhas_uid\<rparr>) = dir_bytes s"
  "dir_bytes (s\<lparr>chroot_enabled := xchroot_enabled\<rparr>) = dir_bytes s"
  "dir_bytes (s\<lparr>pid := xpid\<rparr>) = dir_bytes s"
  "dir_bytes (s\<lparr>log_pid := xlog_pid\<rparr>) = dir_bytes s"
  "dir_bytes (s\<lparr>last_status := xlast_status\<rparr>) = dir_bytes s"
  "dir_bytes (s\<lparr>exit_code := xexit_code\<rparr>) = dir_bytes s"
  "dir_bytes (s\<lparr>term_signal := xterm_signal\<rparr>) = dir_bytes s"
  "dir_bytes (s\<lparr>restart_at := xrestart_at\<rparr>) = dir_bytes s"
  "dir_bytes (s\<lparr>started_at := xstarted_at\<rparr>) = dir_bytes s"
  "dir_bytes (s\<lparr>log_started_at := xlog_started_at\<rparr>) = dir_bytes s"
  "dir_bytes (s\<lparr>restarts := xrestarts\<rparr>) = dir_bytes s"
  "dir_bytes (s\<lparr>streams := xstreams\<rparr>) = dir_bytes s"
  by (simp_all add: dir_bytes_def)

lemma upd_stream_sel [simp]:
  "active (upd_stream i f s) = active s"
  "present (upd_stream i f s) = present s"
  "stopping (upd_stream i f s) = stopping s"
  "manual_start (upd_stream i f s) = manual_start s"
  "pid (upd_stream i f s) = pid s"
  "state (upd_stream i f s) = state s"
  "log_pid (upd_stream i f s) = log_pid s"
  "log_state (upd_stream i f s) = log_state s"
  "log_stopping (upd_stream i f s) = log_stopping s"
  "has_log (upd_stream i f s) = has_log s"
  "deps (upd_stream i f s) = deps s"
  "deps_count (upd_stream i f s) = deps_count s"
  "once (upd_stream i f s) = once s"
  "restart_at (upd_stream i f s) = restart_at s"
  "chroot_enabled (upd_stream i f s) = chroot_enabled s"
  "has_uid (upd_stream i f s) = has_uid s"
  "uid (upd_stream i f s) = uid s"
  "gid (upd_stream i f s) = gid s"
  "name_bytes (upd_stream i f s) = name_bytes s" "dir_bytes (upd_stream i f s) = dir_bytes s"
  by (simp_all add: upd_stream_def)

end
