(* ===== verification/Security.thy ===== *)
theory Security
  imports Decimal Types
begin

text \<open>
  \<open>src/security.rs\<close>: the \<open>rlimit_*\<close> and \<open>nice\<close> files of a service and the limits a child
  applies before \<open>chroot\<close>. The decimal parsers are separate functions of the bytes read, and
  two of the interpretations of \<open>sat_parser\<close> are theirs.
\<close>

section \<open>Parsing\<close>

definition parse_rlimit :: "bytes \<Rightarrow> nat option" where
  "parse_rlimit b = (let (val, has_digit) = sat_loop u64_max 0 False b
     in if has_digit then Some val else None)"

definition read_rlimit_value :: "os \<Rightarrow> service \<Rightarrow> bytes \<Rightarrow> world \<Rightarrow> nat option \<times> world" where
  "read_rlimit_value os s filename w =
     (let (nr, w) = read_file_to_buf os (svc_path s filename) 32 w
      in if rd_data nr = [] then (None, w) else (parse_rlimit (rd_data nr), w))"

text \<open>\<open>sign.saturating_mul(val)\<close> at 32 bits.\<close>

definition sat_mul_i32 :: "int \<Rightarrow> int \<Rightarrow> int" where
  "sat_mul_i32 a b = max (- 2147483648) (min 2147483647 (a * b))"

definition nice_magnitude :: "bytes \<Rightarrow> nat option" where
  "nice_magnitude b = (let (val, has_digit) = sat_loop i32_max 0 False b
     in if has_digit then Some val else None)"

definition parse_nice :: "bytes \<Rightarrow> int option" where
  "parse_nice b =
     (let (sign, i) = (if 0 < length b \<and> b ! 0 = CHR ''-'' then (-1, 1) else (1, 0))
      in case nice_magnitude (drop i b) of
           Some val \<Rightarrow> Some (sat_mul_i32 sign (int val))
         | None \<Rightarrow> None)"

definition read_nice_value :: "os \<Rightarrow> service \<Rightarrow> world \<Rightarrow> int option \<times> world" where
  "read_nice_value os s w =
     (let (nr, w) = read_file_to_buf os (svc_path s ''/nice'') 16 w
      in if rd_data nr = [] then (None, w) else (parse_nice (rd_data nr), w))"

section \<open>Applying\<close>

definition set_rlimit :: "os \<Rightarrow> service \<Rightarrow> rlimit_kind \<times> bytes \<Rightarrow> world \<Rightarrow> world" where
  "set_rlimit os s rf w =
     (let (v, w) = read_rlimit_value os s (snd rf) w
      in case v of Some val \<Rightarrow> emit (EProc (PSetrlimit (fst rf) val)) w | None \<Rightarrow> w)"

definition rlimit_files :: "(rlimit_kind \<times> bytes) list" where
  "rlimit_files =
     [(RLIMIT_CPU, ''/rlimit_cpu''), (RLIMIT_AS, ''/rlimit_as''),
      (RLIMIT_NOFILE, ''/rlimit_nofile''), (RLIMIT_FSIZE, ''/rlimit_fsize''),
      (RLIMIT_NPROC, ''/rlimit_nproc''), (RLIMIT_CORE, ''/rlimit_core'')]"

definition apply_security_restrictions :: "os \<Rightarrow> service \<Rightarrow> world \<Rightarrow> world" where
  "apply_security_restrictions os s w =
     (let w = fold (set_rlimit os s) rlimit_files w;
          (nv, w) = read_nice_value os s w
      in case nv of Some n \<Rightarrow> emit (EProc (PNice n)) w | None \<Rightarrow> w)"

section \<open>Properties\<close>

interpretation rlimit: sat_parser parse_rlimit u64_max
  by unfold_locales (simp add: parse_rlimit_def sat_loop_eq)

interpretation nicep: sat_parser nice_magnitude i32_max
  by unfold_locales (simp add: nice_magnitude_def sat_loop_eq)

lemma parse_nice_sign:
  "parse_nice b = (if b \<noteq> [] \<and> hd b = CHR ''-''
     then map_option (\<lambda>n. - int n) (nice_magnitude (tl b))
     else map_option int (nice_magnitude b))"
proof (cases b)
  case Nil
  then show ?thesis by (simp add: parse_nice_def nicep.parse_law)
next
  case (Cons c cs)
  have rng: "sat_mul_i32 1 (int v) = int v" "sat_mul_i32 (-1) (int v) = - int v"
    if "v \<le> i32_max" for v using that by (simp_all add: sat_mul_i32_def)
  from Cons show ?thesis
    by (auto simp: parse_nice_def rng dest: nicep.parse_le split: option.split)
qed

lemma extends_rlimit [simp]: "extends u w \<Longrightarrow> extends u (snd (read_rlimit_value os s f w))"
  by (simp add: read_rlimit_value_def split_def Let_def)

lemma extends_nice [simp]: "extends u w \<Longrightarrow> extends u (snd (read_nice_value os s w))"
  by (simp add: read_nice_value_def split_def Let_def)

lemma extends_set_rlimit [simp]: "extends u w \<Longrightarrow> extends u (set_rlimit os s rf w)"
  by (simp add: set_rlimit_def split_def Let_def split: option.split)

lemma extends_security [simp]:
  "extends u w \<Longrightarrow> extends u (apply_security_restrictions os s w)"
  by (simp add: apply_security_restrictions_def split_def Let_def extends_fold split: option.split)

section \<open>Claims\<close>

text \<open>C37. A limit written in decimal is read back unchanged, whatever follows it in the file, as long
  as that does not start with a digit; a file that does not start with a digit gives no limit.\<close>

theorem rlimit_roundtrip:
  "v \<le> u64_max \<Longrightarrow> rest = [] \<or> \<not> is_digit (hd rest) \<Longrightarrow>
   parse_rlimit (dec_string v @ rest) = Some v \<and>
   (b = [] \<or> \<not> is_digit (hd b) \<longrightarrow> parse_rlimit b = None)"
  by (simp add: rlimit.parse_roundtrip rlimit.parse_None_iff)

theorem rlimit_roundtrip_witness:
  "parse_rlimit (dec_string 4096 @ [LF]) = Some 4096 \<and> parse_rlimit ''unlimited'' = None"
  using rlimit_roundtrip [of 4096 "[LF]" "''unlimited''"] by (simp add: is_digit_def)

text \<open>C38. A nice value written in decimal, with a minus sign if it is negative, is read back whatever
  follows it in the file, as long as that does not start with a digit; beyond \<open>i32::MAX\<close> in either
  direction it is that bound. A file without a digit at its start, after the sign if there is
  one, gives no value.\<close>

theorem parse_nice_spec:
  assumes "rest = [] \<or> \<not> is_digit (hd rest)"
  shows "parse_nice (dec_string_i n @ rest) = Some (max (- 2147483647) (min 2147483647 n)) \<and>
    (parse_nice b = None \<longleftrightarrow> (let d = (if b \<noteq> [] \<and> hd b = CHR ''-'' then tl b else b)
       in d = [] \<or> \<not> is_digit (hd d)))"
proof
  have mag: "nice_magnitude (dec_string v @ rest) = Some (min i32_max v)" for v
    by (rule nicep.parse_dec_string [OF assms])
  show "parse_nice (dec_string_i n @ rest) = Some (max (- 2147483647) (min 2147483647 n))"
  proof (cases "n < 0")
    case True
    then show ?thesis by (simp add: parse_nice_sign dec_string_i_def mag)
  next
    case False
    have "dec_string (nat n) \<noteq> []" "is_digit (hd (dec_string (nat n)))"
      using dec_string_nonempty dec_string_digit [of "hd (dec_string (nat n))" "nat n"] by simp_all
    then have "hd (dec_string (nat n) @ rest) \<noteq> CHR ''-''" by (auto simp: is_digit_def)
    with False show ?thesis by (simp add: parse_nice_sign dec_string_i_def mag)
  qed
  show "parse_nice b = None \<longleftrightarrow> (let d = (if b \<noteq> [] \<and> hd b = CHR ''-'' then tl b else b)
       in d = [] \<or> \<not> is_digit (hd d))"
    by (simp add: parse_nice_sign nicep.parse_None_iff Let_def)
qed

theorem parse_nice_spec_witness:
  "parse_nice (dec_string_i (- 5) @ [LF]) = Some (- 5) \<and> parse_nice ''-x'' = None"
  using parse_nice_spec [of "[LF]" "- 5" "''-x''"] by (simp add: is_digit_def)

end
