(* ===== verification/User.thy ===== *)
theory User
  imports Decimal Types
begin

text \<open>
  \<open>src/user.rs\<close>: the \<open>user\<close> and \<open>group\<close> files, the environment file and the \<open>root\<close> marker
  of a service.
\<close>

section \<open>Names and numbers\<close>

definition trim_name :: "char \<Rightarrow> bool" where
  "trim_name c \<longleftrightarrow> c = LF \<or> c = CR \<or> c = CHR '' '' \<or> c = NUL"

definition trim_num :: "char \<Rightarrow> bool" where
  "trim_num c \<longleftrightarrow> c = LF \<or> c = CR \<or> c = CHR '' ''"

definition resolve_uid :: "os \<Rightarrow> bytes \<Rightarrow> world \<Rightarrow> nat option \<times> world" where
  "resolve_uid os nm w =
     (let e = scan_bwd trim_name nm 0 (length nm)
      in if e = 0 \<or> e \<ge> NAME_BUF then (None, w)
         else let clean = copy_slice 0 (take e nm) (replicate NAME_BUF NUL);
                  clean = clean[e := NUL]
              in if NUL \<in> set (take e clean) then (None, w)
                 else (os_getpwnam os (trace w) (c_read clean),
                       emit (EAsk (QGetpwnam (c_read clean))) w))"

definition resolve_gid :: "os \<Rightarrow> bytes \<Rightarrow> world \<Rightarrow> nat option \<times> world" where
  "resolve_gid os nm w =
     (let e = scan_bwd trim_name nm 0 (length nm)
      in if e = 0 \<or> e \<ge> NAME_BUF then (None, w)
         else let clean = copy_slice 0 (take e nm) (replicate NAME_BUF NUL);
                  clean = clean[e := NUL]
              in if NUL \<in> set (take e clean) then (None, w)
                 else (os_getgrnam os (trace w) (c_read clean),
                       emit (EAsk (QGetgrnam (c_read clean))) w))"

text \<open>The loop of \<open>parse_numeric_or_name\<close>: one byte that is no digit makes it a name.\<close>

fun numeric_loop :: "nat \<Rightarrow> bytes \<Rightarrow> nat option" where
  "numeric_loop val [] = Some val"
| "numeric_loop val (c # cs) =
     (if is_digit c then numeric_loop (sat_add u32_max (sat_mul u32_max val 10) (digit_val c)) cs
      else None)"

definition parse_numeric_or_name :: "bytes \<Rightarrow> nat option" where
  "parse_numeric_or_name data =
     (let e = scan_bwd trim_num data 0 (length data)
      in if e = 0 then None else numeric_loop 0 (take e data))"

text \<open>The two halves of \<open>parse_user_group\<close>: the \<open>user\<close> file, then the \<open>group\<close> file.\<close>

definition parse_user_file :: "os \<Rightarrow> cstrbuf \<Rightarrow> service \<Rightarrow> world \<Rightarrow> service \<times> world" where
  "parse_user_file os dirb s w =
     (let (nr, w) = read_file_to_buf os (cs_push ''/user'' (cs_from_bytes (cs_bytes dirb))) NAME_BUF w;
          data = rd_data nr
      in if data = [] then (s, w)
         else case parse_numeric_or_name data of
                Some u \<Rightarrow> (s\<lparr>uid := u, has_uid := True\<rparr>, w)
              | None \<Rightarrow>
                  (let (r, w) = resolve_uid os data w
                   in case r of
                        Some u \<Rightarrow> (s\<lparr>uid := u, has_uid := True\<rparr>, w)
                      | None \<Rightarrow> (s, w)))"

definition parse_group_file :: "os \<Rightarrow> cstrbuf \<Rightarrow> service \<Rightarrow> world \<Rightarrow> service \<times> world" where
  "parse_group_file os dirb s w =
     (let (gnr, w) = read_file_to_buf os (cs_push ''/group'' (cs_from_bytes (cs_bytes dirb))) NAME_BUF w;
          data = rd_data gnr
      in if data = [] then (s, w)
         else case parse_numeric_or_name data of
                Some g \<Rightarrow> (s\<lparr>gid := g\<rparr>, w)
              | None \<Rightarrow>
                  (let (r, w) = resolve_gid os data w
                   in case r of
                        Some g \<Rightarrow> (s\<lparr>gid := g\<rparr>, w)
                      | None \<Rightarrow> (s, w)))"

definition parse_user_group :: "os \<Rightarrow> service \<Rightarrow> world \<Rightarrow> service \<times> world" where
  "parse_user_group os s w =
     (let s = s\<lparr>uid := 0, gid := 0, has_uid := False\<rparr>;
          dirb = cs_from_bytes (dir_bytes s);
          (s, w) = parse_user_file os dirb s w
      in parse_group_file os dirb s w)"

section \<open>The environment file\<close>

definition is_nl :: "char \<Rightarrow> bool" where
  "is_nl c \<longleftrightarrow> c = LF \<or> c = CR"

definition is_blank :: "char \<Rightarrow> bool" where
  "is_blank c \<longleftrightarrow> c = CHR '' '' \<or> c = TAB"

text \<open>
  One line \<open>data[start..line_end]\<close> of the file, with the write position in \<open>env_buf\<close>. The reads,
  the slices and the array writes are those of the code; \<open>None\<close> stands for the panic of an index
  out of range.
\<close>

definition data_at :: "bytes \<Rightarrow> nat \<Rightarrow> char option" where
  "data_at data i = (if i < length data then Some (data ! i) else None)"

definition data_slice :: "bytes \<Rightarrow> nat \<Rightarrow> nat \<Rightarrow> bytes option" where
  "data_slice data i j = (if i \<le> j \<and> j \<le> length data then Some (slice data i j) else None)"

function data_scan :: "(char \<Rightarrow> bool) \<Rightarrow> bytes \<Rightarrow> nat \<Rightarrow> nat \<Rightarrow> nat option" where
  "data_scan P data i n =
     (if i < n
      then Option.bind (data_at data i) (\<lambda>c. if P c then data_scan P data (i + 1) n else Some i)
      else Some i)"
  by pat_completeness auto
termination
  by (relation "measure (\<lambda>(P, data, i, n). n - i)") auto

declare data_scan.simps [simp del]

definition env_copy :: "nat \<Rightarrow> bytes \<Rightarrow> service \<Rightarrow> service option" where
  "env_copy i src s =
     (if i + length src \<le> length (env_buf s)
      then Some (s\<lparr>env_buf := copy_slice i src (env_buf s)\<rparr>) else None)"

definition env_put :: "nat \<Rightarrow> char \<Rightarrow> service \<Rightarrow> service option" where
  "env_put i c s =
     (if i < length (env_buf s) then Some (s\<lparr>env_buf := (env_buf s)[i := c]\<rparr>) else None)"

definition env_ptr :: "nat \<Rightarrow> nat option \<Rightarrow> service \<Rightarrow> service option" where
  "env_ptr i p s =
     (if i < length (env_ptrs s) then Some (s\<lparr>env_ptrs := (env_ptrs s)[i := p]\<rparr>) else None)"

definition read_env_line :: "bytes \<Rightarrow> nat \<Rightarrow> nat \<Rightarrow> service \<times> nat \<Rightarrow> (service \<times> nat) option" where
  "read_env_line data start line_end st =
     (case st of (s, env_pos) \<Rightarrow>
       Option.bind
         (if line_end > start then map_option (\<lambda>c. c \<noteq> CHR ''#'') (data_at data start) else Some False)
         (\<lambda>go. if go
            then Option.bind (data_scan (\<lambda>c. c \<noteq> CHR ''='') data start line_end) (\<lambda>eq.
              if eq > start \<and> eq < line_end
              then let key_len = eq - start;
                       val_len = line_end - eq - 1;
                       total_len = key_len + 1 + val_len
                   in if env_pos + total_len + 1 \<le> ENV_BUF
                      then Option.bind (data_slice data start eq) (\<lambda>key.
                           Option.bind (env_copy env_pos key s) (\<lambda>s.
                           let env_pos = env_pos + key_len
                           in Option.bind (env_put env_pos (CHR ''='') s) (\<lambda>s.
                           let env_pos = env_pos + 1
                           in Option.bind (data_slice data (eq + 1) line_end) (\<lambda>val.
                              Option.bind (env_copy env_pos val s) (\<lambda>s.
                           let env_pos = env_pos + val_len
                           in Option.bind (env_put env_pos NUL s) (\<lambda>s.
                              Option.bind (env_ptr (env_count s) (Some (env_pos - total_len)) s) (\<lambda>s.
                              Some (s\<lparr>env_count := env_count s + 1\<rparr>, env_pos + 1))))))))
                      else Some (s, env_pos)
              else Some (s, env_pos))
            else Some (s, env_pos)))"

lemma data_scan_eq: "n \<le> length data \<Longrightarrow> data_scan P data i n = Some (scan_fwd P data i n)"
proof (induction P data i n rule: data_scan.induct)
  case (1 P data i n)
  then show ?case by (subst data_scan.simps, subst scan_fwd.simps) (simp add: data_at_def)
qed

text \<open>Inside the data, the reads do not fail.\<close>

lemma read_env_line_inside:
  assumes "line_end \<le> length data"
  shows "read_env_line data start line_end (s, env_pos) =
     (let eq = scan_fwd (\<lambda>c. c \<noteq> CHR ''='') data start line_end;
          key_len = eq - start; val_len = line_end - eq - 1; total_len = key_len + 1 + val_len
      in if line_end > start \<and> data ! start \<noteq> CHR ''#'' \<and> eq > start \<and> eq < line_end \<and>
            env_pos + total_len + 1 \<le> ENV_BUF
         then Option.bind (env_copy env_pos (slice data start eq) s) (\<lambda>s.
              Option.bind (env_put (env_pos + key_len) (CHR ''='') s) (\<lambda>s.
              Option.bind (env_copy (env_pos + key_len + 1) (slice data (eq + 1) line_end) s) (\<lambda>s.
              Option.bind (env_put (env_pos + key_len + 1 + val_len) NUL s) (\<lambda>s.
              Option.bind (env_ptr (env_count s)
                (Some (env_pos + key_len + 1 + val_len - total_len)) s) (\<lambda>s.
              Some (s\<lparr>env_count := env_count s + 1\<rparr>, env_pos + key_len + 1 + val_len + 1))))))
         else Some (s, env_pos))"
proof -
  let ?eq = "scan_fwd (\<lambda>c. c \<noteq> CHR ''='') data start line_end"
  have "data_slice data start ?eq = Some (slice data start ?eq)"
    "data_slice data (?eq + 1) line_end = Some (slice data (?eq + 1) line_end)" if "start < ?eq" "?eq < line_end"
    using that assms by (simp_all add: data_slice_def)
  then show ?thesis
    using assms by (auto simp only: read_env_line_def data_at_def data_scan_eq Let_def prod.case
        bind.bind_lunit option.map split: if_splits)
qed

text \<open>The bounds of one line: its end, its start after blanks, its end before blanks, and the
  start of the next line.\<close>

definition line_bounds :: "bytes \<Rightarrow> nat \<Rightarrow> nat \<times> nat \<times> nat" where
  "line_bounds data pos =
     (let end1 = scan_fwd (\<lambda>c. \<not> is_nl c) data pos (length data);
          start = scan_fwd is_blank data pos end1;
          line_end = scan_bwd is_blank data start end1
      in (start, line_end, scan_fwd is_nl data (end1 + 1) (length data)))"

lemma line_bounds_next: "line_bounds data pos = (start, line_end, pos') \<Longrightarrow> pos < pos'"
proof -
  assume lb: "line_bounds data pos = (start, line_end, pos')"
  have "pos \<le> scan_fwd (\<lambda>c. \<not> is_nl c) data pos (length data)" by (rule scan_fwd_ge)
  also have "\<dots> < scan_fwd (\<lambda>c. \<not> is_nl c) data pos (length data) + 1" by simp
  also have "\<dots> \<le> scan_fwd is_nl data (scan_fwd (\<lambda>c. \<not> is_nl c) data pos (length data) + 1)
      (length data)" by (rule scan_fwd_ge)
  also have "\<dots> = pos'" using lb by (simp add: line_bounds_def Let_def)
  finally show ?thesis .
qed

function read_env_loop :: "bytes \<Rightarrow> nat \<Rightarrow> service \<times> nat \<Rightarrow> (service \<times> nat) option" where
  "read_env_loop data pos st =
     (if pos < length data \<and> env_count (fst st) < MAX_ENV_VARS
      then case line_bounds data pos of (start, line_end, pos') \<Rightarrow>
             Option.bind (read_env_line data start line_end st) (read_env_loop data pos')
      else Some st)"
  by pat_completeness auto
termination
  by (relation "measure (\<lambda>(data, pos, st). length data - pos)")
    (auto dest!: line_bounds_next [OF sym])

declare read_env_loop.simps [simp del]

definition read_env :: "os \<Rightarrow> service \<Rightarrow> world \<Rightarrow> service \<times> world" where
  "read_env os s w =
     (let (fd, w) = sys_open os (cs_cstr (svc_path s ''/env'')) O_RDONLY w
      in if fd < 0 then (s\<lparr>env_count := 0, env_ptrs := (env_ptrs s)[0 := None]\<rparr>, w)
         else let (nr, w) = read_all_nonblock os fd ENV_BUF w;
                  w = close_fd os fd w;
                  data = rd_data nr
              in if data = [] then (s\<lparr>env_count := 0, env_ptrs := (env_ptrs s)[0 := None]\<rparr>, w)
                 else case Option.bind (read_env_loop data 0 (s\<lparr>env_count := 0\<rparr>, 0))
                             (\<lambda>(s, env_pos). env_ptr (env_count s) None s) of
                        Some s \<Rightarrow> (s, w)
                      | None \<Rightarrow> (s, panic w))"

definition check_chroot :: "os \<Rightarrow> service \<Rightarrow> world \<Rightarrow> bool \<times> world" where
  "check_chroot os s w =
     (let (r, w) = sys_access os (cs_cstr (svc_path s ''/root'')) F_OK w in (r = 0, w))"

definition prepare_service_env :: "os \<Rightarrow> service \<Rightarrow> world \<Rightarrow> service \<times> world" where
  "prepare_service_env os s w =
     (let (s, w) = read_env os s w;
          (c, w) = check_chroot os s w
      in (s\<lparr>chroot_enabled := c\<rparr>, w))"

section \<open>What the environment file means\<close>

text \<open>The entry of a line: the line without blanks at either end, when it is neither empty nor a
  comment and has a \<open>=\<close> after at least one byte.\<close>

definition line_entry :: "bytes \<Rightarrow> bytes option" where
  "line_entry l =
     (let t = rtrim is_blank (dropWhile is_blank l)
      in if t \<noteq> [] \<and> hd t \<noteq> CHR ''#'' \<and> hd t \<noteq> CHR ''='' \<and> CHR ''='' \<in> set t
         then Some t else None)"

function lines_of :: "bytes \<Rightarrow> bytes list" where
  "lines_of b =
     (if b = [] then []
      else takeWhile (\<lambda>c. \<not> is_nl c) b #
           lines_of (dropWhile is_nl (dropWhile (\<lambda>c. \<not> is_nl c) b)))"
  by pat_completeness auto
termination
proof (relation "measure length", goal_cases)
  case (2 b)
  then obtain c cs where b: "b = c # cs" by (cases b) auto
  show ?case
  proof (cases "is_nl c")
    case True
    then have "length (dropWhile is_nl (dropWhile (\<lambda>c. \<not> is_nl c) b)) \<le> length cs"
      using b by (simp add: length_dropWhile_le)
    with b show ?thesis by simp
  next
    case False
    then have "length (dropWhile is_nl (dropWhile (\<lambda>c. \<not> is_nl c) b)) \<le> length cs"
      using b length_dropWhile_le [of is_nl "dropWhile (\<lambda>c. \<not> is_nl c) cs"]
        length_dropWhile_le [of "\<lambda>c. \<not> is_nl c" cs] by simp
    with b show ?thesis by simp
  qed
qed simp

declare lines_of.simps [simp del]

text \<open>The entries kept: at most 64, each only if it still fits the buffer.\<close>

fun kept_entries :: "nat \<Rightarrow> nat \<Rightarrow> bytes list \<Rightarrow> bytes list" where
  "kept_entries n p [] = []"
| "kept_entries n p (l # ls) =
     (if n < MAX_ENV_VARS
      then case line_entry l of
             None \<Rightarrow> kept_entries n p ls
           | Some e \<Rightarrow> if p + length e + 1 \<le> ENV_BUF
                       then e # kept_entries (n + 1) (p + length e + 1) ls
                       else kept_entries n p ls
      else [])"

text \<open>The environment \<open>execve\<close> sees: the strings the first \<open>env_count\<close> pointers lead to.\<close>

definition env_string :: "service \<Rightarrow> nat option \<Rightarrow> bytes" where
  "env_string s p = (case p of Some off \<Rightarrow> c_read (drop off (env_buf s)) | None \<Rightarrow> [])"

definition env_view :: "service \<Rightarrow> bytes list" where
  "env_view s = map (env_string s) (take (env_count s) (env_ptrs s))"

text \<open>The strings \<open>execve\<close> finds at \<open>env_ptrs\<close>, up to the null pointer.\<close>

definition exec_env :: "service \<Rightarrow> bytes list" where
  "exec_env s = map (env_string s) (takeWhile (\<lambda>p. p \<noteq> None) (env_ptrs s))"

lemma exec_env_view:
  assumes "env_count s < length (env_ptrs s)" "env_ptrs s ! env_count s = None"
    "\<forall>q \<in> set (take (env_count s) (env_ptrs s)). q \<noteq> None"
  shows "exec_env s = env_view s"
proof -
  have "env_ptrs s = take (env_count s) (env_ptrs s) @ None # drop (Suc (env_count s)) (env_ptrs s)"
    using id_take_nth_drop [OF assms(1)] assms(2) by simp
  moreover have "takeWhile (\<lambda>p. p \<noteq> None) (take (env_count s) (env_ptrs s) @ None # ys) =
      take (env_count s) (env_ptrs s)" for ys
    using assms(3) by (subst takeWhile_append2) auto
  ultimately have "takeWhile (\<lambda>p. p \<noteq> None) (env_ptrs s) = take (env_count s) (env_ptrs s)"
    by metis
  then show ?thesis by (simp add: exec_env_def env_view_def)
qed

section \<open>\<open>read_env\<close> stays in bounds and stores exactly those entries\<close>

definition env_inv :: "service \<times> nat \<Rightarrow> bool" where
  "env_inv st \<longleftrightarrow>
     length (env_buf (fst st)) = ENV_BUF \<and> length (env_ptrs (fst st)) = MAX_ENV_VARS + 1 \<and>
     env_count (fst st) \<le> MAX_ENV_VARS \<and> snd st \<le> ENV_BUF \<and>
     (\<forall>q \<in> set (take (env_count (fst st)) (env_ptrs (fst st))).
        \<exists>off. q = Some off \<and> NUL \<in> set (slice (env_buf (fst st)) off (snd st)))"

text \<open>What one stored entry makes of the record.\<close>

definition store_entry :: "bytes \<Rightarrow> service \<times> nat \<Rightarrow> service \<times> nat" where
  "store_entry e st =
     ((fst st)\<lparr>env_buf := copy_slice (snd st) (e @ [NUL]) (env_buf (fst st)),
               env_ptrs := (env_ptrs (fst st))[env_count (fst st) := Some (snd st)],
               env_count := env_count (fst st) + 1\<rparr>,
      snd st + length e + 1)"

lemma c_read_prefix: "NUL \<in> set xs \<Longrightarrow> c_read (xs @ ys) = c_read xs"
  by (auto simp: c_read_def takeWhile_append1)

lemma c_read_copy:
  assumes "NUL \<in> set (slice buf off p)" "p \<le> length buf"
  shows "c_read (drop off (copy_slice p src buf)) = c_read (drop off buf)"
proof -
  have "off \<le> p" using assms(1) by (cases "off \<le> p") auto
  then have "drop off b = slice b off p @ drop p b" if "p \<le> length b" for b :: bytes
    using slice_split [of off p "length b" b] that by (simp add: slice_to_end)
  moreover have "slice (copy_slice p src buf) off p = slice buf off p"
    using assms(2) by (simp add: slice_def copy_slice_def drop_take [symmetric])
  moreover have "p \<le> length (copy_slice p src buf)" using assms(2) by (simp add: copy_slice_def)
  ultimately show ?thesis using assms by (metis c_read_prefix)
qed

lemma slice_copy_ext:
  assumes "NUL \<in> set (slice buf off p)" "p \<le> length buf"
  shows "NUL \<in> set (slice (copy_slice p src buf) off (p + length src))"
proof -
  have "off \<le> p" using assms(1) by (cases "off \<le> p") auto
  moreover have "slice (copy_slice p src buf) off p = slice buf off p"
    using assms(2) by (simp add: slice_def copy_slice_def drop_take [symmetric])
  ultimately show ?thesis
    using slice_split [of off p "p + length src" "copy_slice p src buf"] assms(1) by auto
qed

lemma store_entry_inv:
  assumes inv: "env_inv st" and n: "env_count (fst st) < MAX_ENV_VARS"
    and fits: "snd st + length e + 1 \<le> ENV_BUF"
  shows "env_inv (store_entry e st)"
    and "env_view (fst (store_entry e st)) = env_view (fst st) @ [c_read e]"
proof -
  obtain s p where st: "st = (s, p)" by (cases st)
  let ?b = "copy_slice p (e @ [NUL]) (env_buf s)"
  have take_ptrs: "take (env_count s + 1) ((env_ptrs s)[env_count s := Some p])
      = take (env_count s) (env_ptrs s) @ [Some p]"
    using inv n st by (simp add: env_inv_def take_Suc_conv_app_nth)
  have buf: "p \<le> length (env_buf s)" "p + length (e @ [NUL]) \<le> length (env_buf s)"
    using inv fits st by (simp_all add: env_inv_def)
  have drop_p: "drop p ?b = e @ NUL # drop (p + length (e @ [NUL])) (env_buf s)"
    using drop_copy_slice [OF buf(1), of "e @ [NUL]"] by simp
  have "NUL \<in> set (slice ?b p (p + length e + 1))"
    unfolding slice_def drop_p by simp
  moreover have old: "\<exists>off. q = Some off \<and> NUL \<in> set (slice (env_buf s) off p)"
    if "q \<in> set (take (env_count s) (env_ptrs s))" for q
    using that inv st by (auto simp: env_inv_def)
  then have "\<exists>off. q = Some off \<and> NUL \<in> set (slice ?b off (p + length e + 1))"
    if "q \<in> set (take (env_count s) (env_ptrs s))" for q
    using that slice_copy_ext [OF _ buf(1), of _ "e @ [NUL]"] by (fastforce simp: add.assoc)
  ultimately show "env_inv (store_entry e st)"
    using inv n fits st take_ptrs by (simp add: env_inv_def store_entry_def)
  have "env_string (fst (store_entry e st)) q = env_string s q"
    if "q \<in> set (take (env_count s) (env_ptrs s))" for q
    using old [OF that] c_read_copy [OF _ buf(1)] st by (auto simp: env_string_def store_entry_def)
  moreover have "env_string (fst (store_entry e st)) (Some p) = c_read e"
    using st drop_p c_read_prefix [of "e @ [NUL]"]
    by (simp add: env_string_def store_entry_def) (simp add: c_read_def takeWhile_tail)
  ultimately show "env_view (fst (store_entry e st)) = env_view (fst st) @ [c_read e]"
    using st take_ptrs by (simp add: env_view_def store_entry_def)
qed

lemma slice_has_eq:
  assumes "start < line_end" "line_end \<le> length data"
  shows "scan_fwd (\<lambda>c. c \<noteq> CHR ''='') data start line_end < line_end
     \<longleftrightarrow> CHR ''='' \<in> set (slice data start line_end)"
    and "scan_fwd (\<lambda>c. c \<noteq> CHR ''='') data start line_end > start
     \<longleftrightarrow> hd (slice data start line_end) \<noteq> CHR ''=''"
proof -
  let ?eq = "scan_fwd (\<lambda>c. c \<noteq> CHR ''='') data start line_end"
  let ?t = "slice data start line_end"
  have b: "start \<le> ?eq" "?eq \<le> line_end" using assms by (simp_all add: scan_fwd_ge scan_fwd_le)
  have rest: "slice data ?eq line_end = dropWhile (\<lambda>c. c \<noteq> CHR ''='') ?t"
    and front: "slice data start ?eq = takeWhile (\<lambda>c. c \<noteq> CHR ''='') ?t"
    using assms by (simp_all add: scan_fwd_rest scan_fwd_slice)
  have "?eq < line_end \<longleftrightarrow> slice data ?eq line_end \<noteq> []"
    using b assms by (auto simp: slice_def)
  then show "?eq < line_end \<longleftrightarrow> CHR ''='' \<in> set ?t" by (simp add: rest dropWhile_eq_Nil_conv)
  have "start < ?eq \<longleftrightarrow> slice data start ?eq \<noteq> []" using b assms by (auto simp: slice_def)
  also have "\<dots> \<longleftrightarrow> hd ?t \<noteq> CHR ''=''"
    using assms slice_Cons [of start line_end data] by (simp add: front)
  finally show "start < ?eq \<longleftrightarrow> hd ?t \<noteq> CHR ''=''" .
qed

text \<open>The four copies of one entry are one copy of \<open>key=value\<close> and its NUL.\<close>

lemma copy_key_value:
  "p + length k + 1 + length v + 1 \<le> length b \<Longrightarrow>
   copy_slice (p + length k + 1 + length v) [z] (copy_slice (p + length k + 1) v
     (copy_slice (p + length k) [c] (copy_slice p k b))) = copy_slice p (k @ [c] @ v @ [z]) b"
  using copy_slice_append [of p k "[c]" b] copy_slice_append [of p "k @ [c]" v b]
    copy_slice_append [of p "k @ [c] @ v" "[z]" b] by (simp add: add.assoc)

lemma entry_writes:
  assumes inv: "env_inv (s, p)" "env_count s < MAX_ENV_VARS"
    and fits: "p + (length k + 1 + length v) + 1 \<le> ENV_BUF"
  shows "Option.bind (env_copy p k s) (\<lambda>s.
           Option.bind (env_put (p + length k) c s) (\<lambda>s.
           Option.bind (env_copy (p + length k + 1) v s) (\<lambda>s.
           Option.bind (env_put (p + length k + 1 + length v) NUL s) (\<lambda>s.
           Option.bind (env_ptr (env_count s) (Some (p + length k + 1 + length v
              - (length k + 1 + length v))) s) (\<lambda>s.
           Some (s\<lparr>env_count := env_count s + 1\<rparr>, p + length k + 1 + length v + 1))))))
         = Some (store_entry (k @ [c] @ v) (s, p))"
proof -
  have buf: "length (env_buf s) = ENV_BUF" "length (env_ptrs s) = MAX_ENV_VARS + 1"
    using inv by (simp_all add: env_inv_def)
  have "copy_slice p (k @ [c] @ v @ [NUL]) (env_buf s) =
     (copy_slice (p + length k + 1) v ((copy_slice p k (env_buf s))[p + length k := c]))
     [p + length k + 1 + length v := NUL]"
    using buf fits copy_key_value [of p k v "env_buf s" NUL c]
    by (simp add: list_update_copy_slice)
  then show ?thesis
    using buf fits inv(2)
    by (simp add: env_copy_def env_put_def env_ptr_def store_entry_def add.assoc)
qed

text \<open>One line: nothing changes, or its entry is stored when it fits.\<close>

lemma read_env_line_eq:
  assumes b: "start \<le> line_end" "line_end \<le> length data"
    and inv: "env_inv (s, p)" "env_count s < MAX_ENV_VARS"
  shows "read_env_line data start line_end (s, p) =
    (let t = slice data start line_end
     in if t \<noteq> [] \<and> hd t \<noteq> CHR ''#'' \<and> hd t \<noteq> CHR ''='' \<and> CHR ''='' \<in> set t \<and>
           p + length t + 1 \<le> ENV_BUF
        then Some (store_entry t (s, p)) else Some (s, p))"
proof (cases "start < line_end \<and> data ! start \<noteq> CHR ''#''")
  case False
  then have "slice data start line_end = [] \<or> hd (slice data start line_end) = CHR ''#''"
    using b slice_Cons [of start line_end data] by (cases "start < line_end") auto
  with False show ?thesis by (auto simp: read_env_line_inside [OF b(2)] Let_def)
next
  case True
  let ?t = "slice data start line_end"
  let ?eq = "scan_fwd (\<lambda>c. c \<noteq> CHR ''='') data start line_end"
  let ?k = "slice data start ?eq" and ?v = "slice data (?eq + 1) line_end"
  have t: "?t \<noteq> []" "hd ?t \<noteq> CHR ''#''"
    using True b slice_Cons [of start line_end data] by auto
  show ?thesis
  proof (cases "?eq > start \<and> ?eq < line_end")
    case False
    then show ?thesis
      using True t slice_has_eq [of start line_end data] b
      by (auto simp: read_env_line_inside [OF b(2)] Let_def)
  next
    case eq: True
    have "slice data ?eq line_end = dropWhile (\<lambda>c. c \<noteq> CHR ''='') ?t"
      using b by (simp add: scan_fwd_rest)
    moreover have "slice data ?eq line_end = data ! ?eq # ?v"
      using eq b slice_Cons [of ?eq line_end data] by simp
    ultimately have ch: "data ! ?eq = CHR ''=''"
      by (metis (mono_tags, lifting) hd_dropWhile list.discI list.sel(1))
    have tk: "?t = ?k @ [CHR ''=''] @ ?v"
      using eq b ch slice_split [of start ?eq line_end data] slice_Cons [of ?eq line_end data]
      by simp
    have len: "?eq - start = length ?k" "line_end - ?eq - 1 = length ?v"
      using eq b by simp_all
    have lt: "length ?t = length ?k + 1 + length ?v" using tk by simp
    show ?thesis
      using True t eq slice_has_eq [of start line_end data] b inv
        entry_writes [OF inv, of ?k ?v "CHR ''=''"]
      unfolding read_env_line_inside [OF b(2)] Let_def len tk [symmetric] lt by auto
  qed
qed

lemma line_bounds_lines:
  assumes "line_bounds data pos = (start, line_end, pos')" "pos < length data"
  shows "start \<le> line_end" "line_end \<le> length data"
    and "slice data start line_end =
         rtrim is_blank (dropWhile is_blank (takeWhile (\<lambda>c. \<not> is_nl c) (drop pos data)))"
    and "drop pos' data = dropWhile is_nl (dropWhile (\<lambda>c. \<not> is_nl c) (drop pos data))"
proof -
  let ?e = "scan_fwd (\<lambda>c. \<not> is_nl c) data pos (length data)"
  have start: "start = scan_fwd is_blank data pos ?e"
    and le: "line_end = scan_bwd is_blank data start ?e"
    and nx: "pos' = scan_fwd is_nl data (?e + 1) (length data)"
    using assms(1) by (auto simp: line_bounds_def Let_def)
  have e: "pos \<le> ?e" "?e \<le> length data" using assms(2) by (simp_all add: scan_fwd_ge scan_fwd_le)
  then have se: "start \<le> ?e" unfolding start by (simp add: scan_fwd_le)
  then show "start \<le> line_end" unfolding le by (simp add: scan_bwd_ge)
  show "line_end \<le> length data" using e(2) scan_bwd_le [of is_blank data start ?e] le by simp
  have "slice data start line_end = rtrim is_blank (slice data start ?e)"
    unfolding le rtrim_def using e by (simp add: scan_bwd_slice)
  also have "slice data start ?e = dropWhile is_blank (slice data pos ?e)"
    unfolding start using e by (simp add: scan_fwd_rest)
  also have "slice data pos ?e = takeWhile (\<lambda>c. \<not> is_nl c) (drop pos data)"
    by (simp add: scan_fwd_slice slice_to_end)
  finally show "slice data start line_end =
    rtrim is_blank (dropWhile is_blank (takeWhile (\<lambda>c. \<not> is_nl c) (drop pos data)))" .
  have rest: "drop ?e data = dropWhile (\<lambda>c. \<not> is_nl c) (drop pos data)"
    using scan_fwd_rest [of pos "length data" data] assms(2) by (simp add: slice_to_end)
  show "drop pos' data = dropWhile is_nl (dropWhile (\<lambda>c. \<not> is_nl c) (drop pos data))"
  proof (cases "?e < length data")
    case True
    then have cons: "drop ?e data = data ! ?e # drop (?e + 1) data"
      by (simp add: Cons_nth_drop_Suc)
    then have "is_nl (data ! ?e)"
      using rest by (metis hd_dropWhile list.discI list.sel(1))
    moreover have "drop pos' data = dropWhile is_nl (drop (?e + 1) data)"
      unfolding nx using True scan_fwd_rest [of "?e + 1" "length data" data is_nl]
      by (simp add: slice_to_end)
    ultimately show ?thesis by (simp add: rest [symmetric] cons)
  next
    case False
    then have "pos' > length data" unfolding nx
      using scan_fwd_ge [of "?e + 1" is_nl data "length data"] by simp
    with False rest show ?thesis by simp
  qed
qed

lemma lines_of_drop:
  assumes "line_bounds data pos = (start, line_end, pos')" "pos < length data"
  shows "lines_of (drop pos data) =
    takeWhile (\<lambda>c. \<not> is_nl c) (drop pos data) # lines_of (drop pos' data)"
  using assms line_bounds_lines(4) [OF assms] by (simp add: lines_of.simps [of "drop pos data"])

definition same_but_env :: "service \<Rightarrow> service \<Rightarrow> bool" where
  "same_but_env s s' \<longleftrightarrow> (\<exists>b ps n. s' = s\<lparr>env_buf := b, env_ptrs := ps, env_count := n\<rparr>)"

lemma same_but_envI: "same_but_env s (s\<lparr>env_buf := b, env_ptrs := ps, env_count := n\<rparr>)"
  by (auto simp: same_but_env_def)

lemma same_but_env_refl [simp]: "same_but_env s s"
  using same_but_envI [where s = s and b = "env_buf s" and ps = "env_ptrs s" and n = "env_count s"]
  by simp

lemma same_but_env_trans [trans]: "same_but_env s t \<Longrightarrow> same_but_env t u \<Longrightarrow> same_but_env s u"
  unfolding same_but_env_def by (elim exE, simp, blast)

lemma same_but_env_store: "same_but_env s (fst (store_entry e (s, p)))"
  by (auto simp: store_entry_def intro: same_but_envI)

text \<open>The whole loop: it never leaves the arrays, and what it appends to the environment are the
  entries of the remaining lines.\<close>

lemma read_env_loop_spec:
  "env_inv st \<Longrightarrow>
   \<exists>st'. read_env_loop data pos st = Some st' \<and> env_inv st' \<and>
      same_but_env (fst st) (fst st') \<and>
      env_view (fst st') = env_view (fst st) @
        map c_read (kept_entries (env_count (fst st)) (snd st) (lines_of (drop pos data)))"
proof (induction data pos st rule: read_env_loop.induct)
  case (1 data pos st)
  obtain s p where st: "st = (s, p)" by (cases st)
  obtain a b nx where lb: "line_bounds data pos = (a, b, nx)" by (cases "line_bounds data pos")
  show ?case
  proof (cases "pos < length data \<and> env_count s < MAX_ENV_VARS")
    case False
    then have "kept_entries (env_count s) p (lines_of (drop pos data)) = []"
      by (cases "lines_of (drop pos data)") (auto simp: lines_of.simps)
    moreover have "read_env_loop data pos st = Some st"
      using False st by (auto simp: read_env_loop.simps [of data pos])
    ultimately show ?thesis using st "1.prems" by simp
  next
    case True
    let ?t = "slice data a b"
    let ?ls = "lines_of (drop nx data)"
    have pos: "pos < length data" using True by simp
    note lns = line_bounds_lines [OF lb pos]
    have ls: "lines_of (drop pos data) = takeWhile (\<lambda>c. \<not> is_nl c) (drop pos data) # ?ls"
      using lines_of_drop [OF lb pos] .
    have entry: "line_entry (takeWhile (\<lambda>c. \<not> is_nl c) (drop pos data)) =
       (if ?t \<noteq> [] \<and> hd ?t \<noteq> CHR ''#'' \<and> hd ?t \<noteq> CHR ''='' \<and> CHR ''='' \<in> set ?t then Some ?t else None)"
      by (simp add: line_entry_def Let_def lns(3))
    define st1 where "st1 = (if line_entry (takeWhile (\<lambda>c. \<not> is_nl c) (drop pos data)) = Some ?t \<and>
      p + length ?t + 1 \<le> ENV_BUF then store_entry ?t st else st)"
    have line: "read_env_line data a b st = Some st1"
      using read_env_line_eq [OF lns(1,2), of s p] "1.prems" True st entry
      by (auto simp: st1_def Let_def)
    have inv1: "env_inv st1"
      using "1.prems" True st store_entry_inv(1) [of st ?t] by (auto simp: st1_def)
    have same1: "same_but_env s (fst st1)"
      using st same_but_env_store by (auto simp: st1_def)
    have view1: "env_view (fst st1) @ map c_read (kept_entries (env_count (fst st1)) (snd st1) ?ls) =
       env_view s @ map c_read (kept_entries (env_count s) p (lines_of (drop pos data)))"
      using "1.prems" True st entry store_entry_inv(2) [of st ?t]
      by (auto simp: st1_def ls store_entry_def)
    have step: "read_env_loop data pos st = read_env_loop data nx st1"
      using True st lb line by (simp add: read_env_loop.simps [of data pos])
    obtain st' where st': "read_env_loop data nx st1 = Some st'" "env_inv st'"
      "same_but_env (fst st1) (fst st')" "env_view (fst st') = env_view (fst st1) @
         map c_read (kept_entries (env_count (fst st1)) (snd st1) ?ls)"
      using "1.IH" [OF _ lb [symmetric] refl _ inv1] True st lb line inv1 by auto
    from same_but_env_trans [OF same1 st'(3)] st' view1 step st show ?thesis by auto
  qed
qed

section \<open>Frames and well-formedness\<close>

lemma env_write_same:
  "env_copy i b s = Some s' \<Longrightarrow> same_but_env s s'"
  "env_put i c s = Some s' \<Longrightarrow> same_but_env s s'"
  "env_ptr i q s = Some s' \<Longrightarrow> same_but_env s s'"
  using same_but_envI [where s = s and ps = "env_ptrs s" and n = "env_count s"]
    same_but_envI [where s = s and b = "env_buf s" and n = "env_count s"]
  by (auto simp: env_copy_def env_put_def env_ptr_def split: if_splits)

lemma env_count_same: "same_but_env s (s\<lparr>env_count := n\<rparr>)"
  using same_but_envI [where s = s and b = "env_buf s" and ps = "env_ptrs s" and n = n] by simp

lemma env_reset_same: "same_but_env s (s\<lparr>env_count := n, env_ptrs := ps\<rparr>)"
  using same_but_envI [where s = s and b = "env_buf s" and ps = ps and n = n] by (cases s) simp

lemma read_env_line_same:
  "read_env_line data a b st = Some st' \<Longrightarrow> same_but_env (fst st) (fst st')"
  by (cases st)
    (auto simp: read_env_line_def Let_def bind_eq_Some_conv split: if_splits
      intro!: same_but_env_trans [OF _ env_count_same] dest!: env_write_same,
     meson same_but_env_trans)

lemma read_env_loop_same:
  "read_env_loop data pos st = Some st' \<Longrightarrow> same_but_env (fst st) (fst st')"
proof (induction data pos st rule: read_env_loop.induct)
  case (1 data pos st)
  show ?case
  proof (cases "pos < length data \<and> env_count (fst st) < MAX_ENV_VARS")
    case False
    then show ?thesis using "1.prems" by (auto simp: read_env_loop.simps [of data pos])
  next
    case True
    obtain a b nx where lb: "line_bounds data pos = (a, b, nx)" by (cases "line_bounds data pos")
    obtain st1 where st1: "read_env_line data a b st = Some st1"
      "read_env_loop data nx st1 = Some st'"
      using "1.prems" True lb by (auto simp: read_env_loop.simps [of data pos] bind_eq_Some_conv)
    have "same_but_env (fst st1) (fst st')"
      using "1.IH" [OF True lb [symmetric] refl] st1 by blast
    then show ?thesis using read_env_line_same [OF st1(1)] same_but_env_trans by blast
  qed
qed

lemma read_env_same: "same_but_env s (fst (read_env os s w))"
proof -
  have "same_but_env s s2" if "read_env_loop data 0 (s\<lparr>env_count := 0\<rparr>, 0) = Some (s1, p)"
    "env_ptr (env_count s1) None s1 = Some s2" for data s1 s2 p
    using same_but_env_trans [OF env_count_same [of s 0] same_but_env_trans [of _ s1 s2]]
      read_env_loop_same [OF that(1)] env_write_same(3) [OF that(2)] by simp
  then show ?thesis
    by (auto simp: read_env_def split_def Let_def env_reset_same bind_eq_Some_conv
        split: option.split)
qed

text \<open>\<open>prepare_service_env\<close> changes the environment and the chroot flag, nothing else.\<close>

lemma prepare_frame:
  "\<exists>b ps n c. fst (prepare_service_env os s w) =
     s\<lparr>env_buf := b, env_ptrs := ps, env_count := n, chroot_enabled := c\<rparr>"
proof -
  obtain b ps n where r: "fst (read_env os s w) = s\<lparr>env_buf := b, env_ptrs := ps, env_count := n\<rparr>"
    using read_env_same [of s os w] by (auto simp: same_but_env_def)
  show ?thesis
    unfolding prepare_service_env_def split_def Let_def r fst_conv by blast
qed

lemma prepare_keeps [simp, frame_simps]:
  "active (fst (prepare_service_env os s w)) = active s"
  "present (fst (prepare_service_env os s w)) = present s"
  "stopping (fst (prepare_service_env os s w)) = stopping s"
  "manual_start (fst (prepare_service_env os s w)) = manual_start s"
  "name (fst (prepare_service_env os s w)) = name s"
  "name_len (fst (prepare_service_env os s w)) = name_len s"
  "dir (fst (prepare_service_env os s w)) = dir s"
  "dir_len (fst (prepare_service_env os s w)) = dir_len s"
  "pid (fst (prepare_service_env os s w)) = pid s"
  "streams (fst (prepare_service_env os s w)) = streams s"
  "restart_at (fst (prepare_service_env os s w)) = restart_at s"
  "started_at (fst (prepare_service_env os s w)) = started_at s"
  "restarts (fst (prepare_service_env os s w)) = restarts s"
  "last_status (fst (prepare_service_env os s w)) = last_status s"
  "state (fst (prepare_service_env os s w)) = state s"
  "exit_code (fst (prepare_service_env os s w)) = exit_code s"
  "term_signal (fst (prepare_service_env os s w)) = term_signal s"
  "auto_start (fst (prepare_service_env os s w)) = auto_start s"
  "once (fst (prepare_service_env os s w)) = once s"
  "deps (fst (prepare_service_env os s w)) = deps s"
  "deps_count (fst (prepare_service_env os s w)) = deps_count s"
  "has_log (fst (prepare_service_env os s w)) = has_log s"
  "log_pid (fst (prepare_service_env os s w)) = log_pid s"
  "log_state (fst (prepare_service_env os s w)) = log_state s"
  "log_started_at (fst (prepare_service_env os s w)) = log_started_at s"
  "log_stopping (fst (prepare_service_env os s w)) = log_stopping s"
  "uid (fst (prepare_service_env os s w)) = uid s"
  "gid (fst (prepare_service_env os s w)) = gid s"
  "has_uid (fst (prepare_service_env os s w)) = has_uid s"
  using prepare_frame [of os s w] by auto

text \<open>On a well-formed service \<open>read_env\<close> never panics, and the environment is the list of
  entries of the bytes it read.\<close>

lemma env_inv_start: "svc_wf s \<Longrightarrow> env_inv (s\<lparr>env_count := 0\<rparr>, 0)"
  by (simp add: env_inv_def svc_wf_def)

lemma read_env_ok:
  assumes "svc_wf s"
  shows "\<exists>st' s2. read_env_loop data 0 (s\<lparr>env_count := 0\<rparr>, 0) = Some st' \<and>
     env_ptr (env_count (fst st')) None (fst st') = Some s2 \<and> svc_wf s2 \<and>
     env_ptrs s2 ! env_count s2 = None \<and> exec_env s2 = env_view s2 \<and>
     env_view s2 = map c_read (kept_entries 0 0 (lines_of data))"
proof -
  obtain st' where st': "read_env_loop data 0 (s\<lparr>env_count := 0\<rparr>, 0) = Some st'" "env_inv st'"
    "same_but_env (s\<lparr>env_count := 0\<rparr>) (fst st')"
    "env_view (fst st') = env_view (s\<lparr>env_count := 0\<rparr>) @
       map c_read (kept_entries 0 0 (lines_of data))"
    using read_env_loop_spec [OF env_inv_start [OF assms], of data 0] by auto
  define s2 where "s2 = (fst st')\<lparr>env_ptrs := (env_ptrs (fst st'))[env_count (fst st') := None]\<rparr>"
  have put: "env_ptr (env_count (fst st')) None (fst st') = Some s2"
    using st'(2) by (simp add: env_ptr_def env_inv_def s2_def)
  have "svc_wf s2"
    using assms st'(2,3) unfolding s2_def
    by (auto simp: same_but_env_def svc_wf_def env_inv_def dir_bytes_def)
  moreover have "env_string s2 = env_string (fst st')"
    by (simp add: s2_def fun_eq_iff env_string_def split: option.split)
  then have "env_view s2 = env_view (fst st')" by (simp add: s2_def env_view_def)
  moreover have null: "env_ptrs s2 ! env_count s2 = None"
    using st'(2) by (simp add: s2_def env_inv_def)
  moreover have "exec_env s2 = env_view s2"
    by (rule exec_env_view [OF _ null]) (use st'(2) in \<open>auto simp: s2_def env_inv_def\<close>)
  moreover have "env_view (s\<lparr>env_count := 0\<rparr>) = []" by (simp add: env_view_def)
  ultimately show ?thesis using st' put by auto
qed

text \<open>The bytes \<open>read_env\<close> gets from the file, none when it cannot be opened or read.\<close>

definition env_file :: "os \<Rightarrow> service \<Rightarrow> world \<Rightarrow> bytes" where
  "env_file os s w =
     (let (fd, w) = sys_open os (cs_cstr (svc_path s ''/env'')) O_RDONLY w
      in if fd < 0 then [] else rd_data (fst (read_all_nonblock os fd ENV_BUF w)))"

lemma env_file_length: "length (env_file os s w) \<le> ENV_BUF"
  using read_all_bound by (simp add: env_file_def split_def Let_def)

lemma env_file_empty: "env_file os s w = [] \<Longrightarrow>
  fst (read_env os s w) = s\<lparr>env_count := 0, env_ptrs := (env_ptrs s)[0 := None]\<rparr>"
  by (auto simp: read_env_def env_file_def split_def Let_def split: if_splits)

lemma env_file_nonempty:
  assumes "svc_wf s" "env_file os s w \<noteq> []"
  shows "svc_wf (fst (read_env os s w))"
    and "env_view (fst (read_env os s w)) =
      map c_read (kept_entries 0 0 (lines_of (env_file os s w)))"
    and "env_ptrs (fst (read_env os s w)) ! env_count (fst (read_env os s w)) = None"
    and "exec_env (fst (read_env os s w)) = env_view (fst (read_env os s w))"
proof -
  obtain st' s2 where r: "read_env_loop (env_file os s w) 0 (s\<lparr>env_count := 0\<rparr>, 0) = Some st'"
      "env_ptr (env_count (fst st')) None (fst st') = Some s2" "svc_wf s2"
      "env_ptrs s2 ! env_count s2 = None" "exec_env s2 = env_view s2"
      "env_view s2 = map c_read (kept_entries 0 0 (lines_of (env_file os s w)))"
    using read_env_ok [OF assms(1)] by blast
  have "fst (read_env os s w) = s2"
    using assms(2) r(1,2)
    by (auto simp: read_env_def env_file_def split_def Let_def split: if_splits)
  with r show "svc_wf (fst (read_env os s w))"
    "env_view (fst (read_env os s w)) = map c_read (kept_entries 0 0 (lines_of (env_file os s w)))"
    "env_ptrs (fst (read_env os s w)) ! env_count (fst (read_env os s w)) = None"
    "exec_env (fst (read_env os s w)) = env_view (fst (read_env os s w))" by simp_all
qed

lemma svc_wf_env_reset: "svc_wf s \<Longrightarrow> svc_wf (s\<lparr>env_count := 0, env_ptrs := (env_ptrs s)[0 := q]\<rparr>)"
  by (simp add: svc_wf_def dir_bytes_def)

lemma svc_wf_read_env: "svc_wf s \<Longrightarrow> svc_wf (fst (read_env os s w))"
  by (cases "env_file os s w = []") (simp_all add: env_file_empty svc_wf_env_reset env_file_nonempty)

lemma read_env_view: "svc_wf s \<Longrightarrow>
  env_view (fst (read_env os s w)) = map c_read (kept_entries 0 0 (lines_of (env_file os s w)))"
proof (cases "env_file os s w = []")
  case True
  then show ?thesis by (simp add: env_file_empty env_view_def lines_of.simps [of "[]"])
qed (simp add: env_file_nonempty)

lemma svc_wf_prepare [simp]: "svc_wf s \<Longrightarrow> svc_wf (fst (prepare_service_env os s w))"
proof -
  assume "svc_wf s"
  then have "svc_wf (fst (read_env os s w))" by (rule svc_wf_read_env)
  then show ?thesis by (simp add: prepare_service_env_def split_def Let_def svc_wf_def dir_bytes_def)
qed

text \<open>What a child passes to \<open>execve\<close> after \<open>prepare_service_env\<close>.\<close>

lemma exec_env_prepared:
  assumes "svc_wf s"
  shows "exec_env (fst (prepare_service_env os s w)) =
    map c_read (kept_entries 0 0 (lines_of (env_file os s w)))"
proof -
  let ?r = "fst (read_env os s w)"
  have "exec_env ?r = env_view ?r"
  proof (cases "env_file os s w = []")
    case True
    have "length (env_ptrs s) = 65" using assms by (simp add: svc_wf_def)
    with True show ?thesis by (intro exec_env_view) (simp_all add: env_file_empty)
  qed (simp add: env_file_nonempty [OF assms])
  moreover have "env_string (?r\<lparr>chroot_enabled := c\<rparr>) = env_string ?r" for c
    by (simp add: fun_eq_iff env_string_def split: option.split)
  then have "exec_env (?r\<lparr>chroot_enabled := c\<rparr>) = exec_env ?r" for c
    by (simp add: exec_env_def)
  ultimately show ?thesis using read_env_view [OF assms]
    by (simp add: prepare_service_env_def split_def Let_def)
qed

text \<open>A panic would be a call \<open>_exit(101)\<close> in the transcript: there is none.\<close>

lemma read_env_no_panic:
  assumes "svc_wf s"
  shows "EProc (PExit 101) \<notin> set (new_events w (snd (read_env os s w)))"
proof -
  define fd where "fd = fst (sys_open os (cs_cstr (svc_path s ''/env'')) O_RDONLY w)"
  define w1 where "w1 = snd (sys_open os (cs_cstr (svc_path s ''/env'')) O_RDONLY w)"
  define w2 where "w2 = close_fd os fd (snd (read_all_nonblock os fd ENV_BUF w1))"
  define data where "data = rd_data (fst (read_all_nonblock os fd ENV_BUF w1))"
  have ext: "extends w w1" by (simp add: w1_def)
  have "snd (read_env os s w) = (if fd < 0 then w1 else w2)"
    using read_env_ok [OF assms, of data]
    by (auto simp: read_env_def split_def Let_def fd_def w1_def w2_def data_def)
  moreover have "EProc (PExit 101) \<notin> set (new_events w w1)"
    by (simp add: w1_def sys_open_def Let_def)
  moreover from this have "EProc (PExit 101) \<notin> set (new_events w w2)"
    using ext by (simp add: w2_def read_all_nonblock_def sys_read_def close_fd_def)
  ultimately show ?thesis by simp
qed

section \<open>Users and groups\<close>

lemma numeric_loop_eq:
  "numeric_loop (min u32_max n) b =
     (if \<forall>c \<in> set b. is_digit c
      then Some (min u32_max (foldl (\<lambda>a c. a * 10 + digit_val c) n b)) else None)"
proof (induction b arbitrary: n)
  case Nil
  then show ?case by simp
next
  case (Cons c b)
  then show ?case by (simp add: sat_step)
qed

lemma parse_numeric_eq:
  "parse_numeric_or_name data =
     (let t = rtrim trim_num data
      in if t \<noteq> [] \<and> (\<forall>c \<in> set t. is_digit c) then Some (min u32_max (dec_val t)) else None)"
proof -
  let ?e = "scan_bwd trim_num data 0 (length data)"
  have "take ?e data = rtrim trim_num data"
    using scan_bwd_slice [of "length data" data 0 trim_num] by (simp add: slice_0 rtrim_def)
  moreover have "?e = 0 \<longleftrightarrow> take ?e data = []"
    using scan_bwd_le [of trim_num data 0 "length data"] by auto
  ultimately show ?thesis
    using numeric_loop_eq [of 0 "take ?e data"]
    by (simp add: parse_numeric_or_name_def Let_def dec_val_def)
qed

lemma parse_numeric_dec:
  assumes "\<forall>c \<in> set nl. trim_num c"
  shows "parse_numeric_or_name (dec_string v @ nl) = Some (min u32_max v)"
proof -
  have d: "\<not> trim_num (last (dec_string v))"
    using dec_string_digit [of "last (dec_string v)" v] dec_string_nonempty
    by (auto simp: trim_num_def is_digit_def)
  have "rtrim trim_num (dec_string v @ nl) = rtrim trim_num (dec_string v)"
    using assms unfolding rtrim_def rev_append by (subst dropWhile_append2) auto
  also have "\<dots> = dec_string v" using d by (intro rtrim_id) simp
  finally show ?thesis
    by (auto simp: parse_numeric_eq Let_def dec_string_nonempty dec_val_string
        intro: dec_string_digit)
qed

lemma parse_user_file_frame:
  "\<exists>u h. fst (parse_user_file os d s w) = s\<lparr>uid := u, has_uid := h\<rparr>"
proof -
  have *: "\<exists>u h. s = s\<lparr>uid := u, has_uid := h\<rparr>"
    by (rule exI [of _ "uid s"], rule exI [of _ "has_uid s"]) simp
  show ?thesis
    unfolding parse_user_file_def split_def Let_def by (auto intro: * split: option.split)
qed

lemma parse_group_file_frame: "\<exists>g. fst (parse_group_file os d s w) = s\<lparr>gid := g\<rparr>"
proof -
  have *: "\<exists>g. s = s\<lparr>gid := g\<rparr>" by (rule exI [of _ "gid s"]) simp
  show ?thesis
    unfolding parse_group_file_def split_def Let_def by (auto intro: * split: option.split)
qed

lemma parse_user_group_frame:
  "\<exists>u h g. fst (parse_user_group os s w) = s\<lparr>uid := u, has_uid := h, gid := g\<rparr>"
proof -
  let ?s = "s\<lparr>uid := 0, gid := 0, has_uid := False\<rparr>"
  let ?d = "cs_from_bytes (dir_bytes s)"
  let ?u = "parse_user_file os ?d ?s w"
  obtain u h where u: "fst ?u = ?s\<lparr>uid := u, has_uid := h\<rparr>"
    using parse_user_file_frame by blast
  obtain g where "fst (parse_group_file os ?d (fst ?u) (snd ?u)) = (fst ?u)\<lparr>gid := g\<rparr>"
    using parse_group_file_frame by blast
  then have "fst (parse_user_group os s w) = (?s\<lparr>uid := u, has_uid := h\<rparr>)\<lparr>gid := g\<rparr>"
    by (simp add: parse_user_group_def split_def Let_def u)
  then show ?thesis by auto
qed

lemma parse_user_group_keeps [simp, frame_simps]:
  "active (fst (parse_user_group os s w)) = active s"
  "present (fst (parse_user_group os s w)) = present s"
  "stopping (fst (parse_user_group os s w)) = stopping s"
  "manual_start (fst (parse_user_group os s w)) = manual_start s"
  "name (fst (parse_user_group os s w)) = name s"
  "name_len (fst (parse_user_group os s w)) = name_len s"
  "dir (fst (parse_user_group os s w)) = dir s"
  "dir_len (fst (parse_user_group os s w)) = dir_len s"
  "pid (fst (parse_user_group os s w)) = pid s"
  "streams (fst (parse_user_group os s w)) = streams s"
  "restart_at (fst (parse_user_group os s w)) = restart_at s"
  "started_at (fst (parse_user_group os s w)) = started_at s"
  "restarts (fst (parse_user_group os s w)) = restarts s"
  "last_status (fst (parse_user_group os s w)) = last_status s"
  "state (fst (parse_user_group os s w)) = state s"
  "exit_code (fst (parse_user_group os s w)) = exit_code s"
  "term_signal (fst (parse_user_group os s w)) = term_signal s"
  "auto_start (fst (parse_user_group os s w)) = auto_start s"
  "once (fst (parse_user_group os s w)) = once s"
  "deps (fst (parse_user_group os s w)) = deps s"
  "deps_count (fst (parse_user_group os s w)) = deps_count s"
  "has_log (fst (parse_user_group os s w)) = has_log s"
  "log_pid (fst (parse_user_group os s w)) = log_pid s"
  "log_state (fst (parse_user_group os s w)) = log_state s"
  "log_started_at (fst (parse_user_group os s w)) = log_started_at s"
  "log_stopping (fst (parse_user_group os s w)) = log_stopping s"
  "env_buf (fst (parse_user_group os s w)) = env_buf s"
  "env_ptrs (fst (parse_user_group os s w)) = env_ptrs s"
  "env_count (fst (parse_user_group os s w)) = env_count s"
  "chroot_enabled (fst (parse_user_group os s w)) = chroot_enabled s"
  using parse_user_group_frame [of os s w] by auto

lemma svc_wf_parse_user_group [simp]: "svc_wf s \<Longrightarrow> svc_wf (fst (parse_user_group os s w))"
  by (simp add: svc_wf_def dir_bytes_def)

lemma extends_user [simp]:
  assumes "extends u w"
  shows "extends u (snd (read_env os s w))" "extends u (snd (check_chroot os s w))"
    "extends u (snd (resolve_uid os nm w))" "extends u (snd (resolve_gid os nm w))"
  using assms
  by (simp_all add: read_env_def check_chroot_def resolve_uid_def resolve_gid_def
      split_def Let_def split: option.split)

lemma extends_prepare [simp]: "extends u w \<Longrightarrow> extends u (snd (prepare_service_env os s w))"
  by (simp add: prepare_service_env_def split_def Let_def)

lemma extends_user_group [simp]:
  assumes "extends u w"
  shows "extends u (snd (parse_user_file os d s w))" "extends u (snd (parse_group_file os d s w))"
  using assms
  by (simp_all add: parse_user_file_def parse_group_file_def split_def Let_def split: option.split)

lemma extends_parse_user_group [simp]: "extends u w \<Longrightarrow> extends u (snd (parse_user_group os s w))"
  by (simp add: parse_user_group_def split_def Let_def)

lemma kill_log_user [simp]:
  "kill_log (snd (read_env os s w)) = kill_log w"
  "kill_log (snd (check_chroot os s w)) = kill_log w"
  "kill_log (snd (resolve_uid os nm w)) = kill_log w"
  "kill_log (snd (resolve_gid os nm w)) = kill_log w"
  "kill_log (panic w) = kill_log w"
  by (simp_all add: read_env_def check_chroot_def resolve_uid_def resolve_gid_def panic_def
      split_def Let_def split: option.split)

lemma kill_log_prepare [simp]: "kill_log (snd (prepare_service_env os s w)) = kill_log w"
  by (simp add: prepare_service_env_def split_def Let_def)

lemma kill_log_user_group [simp]:
  "kill_log (snd (parse_user_file os d s w)) = kill_log w"
  "kill_log (snd (parse_group_file os d s w)) = kill_log w"
  "kill_log (snd (parse_user_group os s w)) = kill_log w"
  by (simp_all add: parse_user_group_def parse_user_file_def parse_group_file_def split_def Let_def
      split: option.split)

section \<open>Claims\<close>

text \<open>C27. The environment a child gets is the list of \<open>KEY=value\<close> lines of the file, trimmed and
  without comments, in their order, at most 64 of them and as many as fit 4096 bytes.\<close>

theorem environment_is_file:
  "svc_wf s \<Longrightarrow> exec_env (fst (prepare_service_env os s w)) =
     map c_read (kept_entries 0 0 (lines_of (env_file os s w)))"
  by (rule exec_env_prepared)

theorem environment_is_file_witness:
  "\<forall>os w. svc_wf SERVICE_EMPTY \<and> exec_env (fst (prepare_service_env os SERVICE_EMPTY w)) =
     map c_read (kept_entries 0 0 (lines_of (env_file os SERVICE_EMPTY w)))"
  using environment_is_file [OF svc_wf_EMPTY] svc_wf_EMPTY by blast

text \<open>C28. No environment file makes \<open>read_env\<close> index out of range: the supervisor does not panic
  there, and the record is well-formed afterwards.\<close>

theorem read_env_safe:
  "svc_wf s \<Longrightarrow> EProc (PExit 101) \<notin> set (new_events w (snd (read_env os s w))) \<and>
     svc_wf (fst (read_env os s w))"
  using read_env_no_panic svc_wf_read_env by blast

theorem read_env_safe_witness:
  "\<forall>os w. EProc (PExit 101) \<notin> set (new_events w (snd (read_env os SERVICE_EMPTY w))) \<and>
     svc_wf (fst (read_env os SERVICE_EMPTY w))"
  using read_env_safe [OF svc_wf_EMPTY] by blast

text \<open>A numeric \<open>user\<close> or \<open>group\<close> file is the number of its digits, cut at \<open>u32::MAX\<close>; anything
  else than digits and trailing white space is taken for a name.\<close>

lemma numeric_user_or_name:
  "parse_numeric_or_name data =
     (let t = rtrim trim_num data
      in if t \<noteq> [] \<and> list_all is_digit t then Some (min u32_max (dec_val t)) else None)"
  unfolding list_all_iff by (rule parse_numeric_eq)

end
