(* ===== verification/Status.thy ===== *)
theory Status
  imports Types
begin

text \<open>
  \<open>src/status.rs\<close>: the status file the supervisor writes into each service directory, and the
  text of control responses. A response buffer \<open>buf[..n]\<close> is the byte string of its first \<open>n\<close>
  bytes.
\<close>

definition state_text :: "nat \<Rightarrow> bytes" where
  "state_text st =
     (if st = STATE_RUNNING then ''running''
      else if st = STATE_EXITED then ''exited''
      else if st = STATE_SIGNALED then ''signaled''
      else if st = STATE_FAILED then ''failed''
      else if st = STATE_STOPPING then ''stopping''
      else ''down'')"

definition yes_no :: "bool \<Rightarrow> bytes" where
  "yes_no b = (if b then ''yes'' else ''no'')"

definition status_text :: "service \<Rightarrow> int \<Rightarrow> cstrbuf" where
  "status_text s now =
     (let t = cs_new;
          t = cs_push ''name='' t;
          t = cs_push (name_bytes s) t;
          t = cs_push (LF # ''pid='') t;
          t = cs_push_i64 (pid s) t;
          t = cs_push (LF # ''state='') t;
          t = cs_push (state_text (state s)) t;
          t = cs_push (LF # ''uptime='') t;
          t = cs_push_i64 (uptime_seconds s now) t;
          t = cs_push (LF # ''restarts='') t;
          t = cs_push_u64 (restarts s) t;
          t = cs_push (LF # ''exit_code='') t;
          t = cs_push_i64 (exit_code s) t;
          t = cs_push (LF # ''term_signal='') t;
          t = cs_push_i64 (term_signal s) t;
          t = cs_push (LF # ''last_wait_status='') t;
          t = cs_push_i64 (last_status s) t;
          t = cs_push (LF # ''started_at_mono='') t;
          t = cs_push_i64 (started_at s) t;
          t = cs_push (LF # ''auto_start='') t;
          t = cs_push (yes_no (auto_start s)) t;
          t = cs_push (LF # ''once='') t;
          t = cs_push (yes_no (once s)) t;
          t = (if has_uid s
               then let t = cs_push (LF # ''uid='') t;
                        t = cs_push_u64 (uid s) t;
                        t = cs_push (LF # ''gid='') t
                    in cs_push_u64 (gid s) t
               else t)
      in cs_push [LF] t)"

definition write_status_file :: "os \<Rightarrow> service \<Rightarrow> world \<Rightarrow> world" where
  "write_status_file os s w =
     (let (fd, w) = sys_open os (cs_cstr (svc_path s ''/status'')) O_WR_CREAT_TRUNC w
      in if fd < 0 then w
         else let (now, w) = mono_now os w;
                  w = snd (write_all os fd (cs_bytes (status_text s now)) w)
              in libc_close fd w)"

definition push_dep :: "service \<Rightarrow> nat \<Rightarrow> bool \<times> cstrbuf \<Rightarrow> bool \<times> cstrbuf" where
  "push_dep s i fp =
     (let (first, p) = fp;
          p = (if first then p else cs_push_byte (CHR '','') p);
          p = (if soft (deps s ! i) then cs_push_byte (CHR ''?'') p else p);
          p = cs_push (dep_bytes (deps s ! i)) p
      in (False, p))"

definition service_line :: "service \<Rightarrow> int \<Rightarrow> cstrbuf" where
  "service_line s now =
     (let p = cs_new;
          p = cs_push (name_bytes s) p;
          p = cs_push '' state='' p;
          p = cs_push (state_text (state s)) p;
          p = cs_push '' pid='' p;
          p = cs_push_i64 (pid s) p;
          p = cs_push '' uptime='' p;
          p = cs_push_i64 (uptime_seconds s now) p;
          p = cs_push '' restarts='' p;
          p = cs_push_u64 (restarts s) p;
          p = cs_push '' exit_code='' p;
          p = cs_push_i64 (exit_code s) p;
          p = cs_push '' signal='' p;
          p = cs_push_i64 (term_signal s) p;
          p = cs_push '' auto='' p;
          p = cs_push (yes_no (auto_start s)) p;
          p = cs_push '' once='' p;
          p = cs_push (yes_no (once s)) p;
          p = (if has_uid s
               then let p = cs_push '' uid='' p;
                        p = cs_push_u64 (uid s) p;
                        p = cs_push '' gid='' p
                    in cs_push_u64 (gid s) p
               else p);
          p = cs_push '' deps=['' p;
          p = snd (fold (push_dep s) [0..<deps_count s] (True, p));
          p = cs_push '']'' p;
          p = (if has_log s
               then let p = cs_push '' log_pid='' p;
                        p = cs_push_i64 (log_pid s) p;
                        p = cs_push '' log_state='' p;
                        p = cs_push (if log_state s = STATE_RUNNING then ''running'' else ''down'') p;
                        p = cs_push '' log_uptime='' p
                    in cs_push_i64 (log_uptime_seconds s now) p
               else p)
      in cs_push [LF] p)"

definition format_service_status :: "service \<Rightarrow> int \<Rightarrow> bytes" where
  "format_service_status s now =
     (let out = cs_bytes (service_line s now);
          copy_len = min (length out) RESP_BUF
      in take copy_len (copy_slice 0 (take copy_len out) (replicate RESP_BUF NUL)))"

definition format_error :: "bytes \<Rightarrow> bytes" where
  "format_error msg =
     (let prefix = ''ERROR: '';
          total = length prefix + length msg;
          copy = min total RESP_BUF
      in map (\<lambda>i. if i < length prefix then prefix ! i else msg ! (i - length prefix)) [0..<copy])"

definition format_ok :: "bytes \<Rightarrow> bytes" where
  "format_ok msg =
     (let prefix = ''OK: '';
          total = length prefix + length msg;
          copy = min total RESP_BUF
      in map (\<lambda>i. if i < length prefix then prefix ! i else msg ! (i - length prefix)) [0..<copy])"

section \<open>Properties\<close>

lemma map_nth_append_upt:
  "n \<le> length p + length m \<Longrightarrow>
   map (\<lambda>i. if i < length p then p ! i else m ! (i - length p)) [0..<n] = take n (p @ m)"
  by (rule nth_equalityI) (auto simp: nth_append)

lemma format_error_eq: "format_error msg = take 8192 (''ERROR: '' @ msg)"
proof -
  have "format_error msg = take (min (length ''ERROR: '' + length msg) RESP_BUF) (''ERROR: '' @ msg)"
    unfolding format_error_def Let_def by (rule map_nth_append_upt) simp
  then show ?thesis by (simp add: min_def)
qed

lemma format_ok_eq: "format_ok msg = take 8192 (''OK: '' @ msg)"
proof -
  have "format_ok msg = take (min (length ''OK: '' + length msg) RESP_BUF) (''OK: '' @ msg)"
    unfolding format_ok_def Let_def by (rule map_nth_append_upt) simp
  then show ?thesis by (simp add: min_def)
qed

text \<open>A line built by pushes holds the first 1023 bytes of the text.\<close>

text \<open>The dependency list of a status line.\<close>

definition dep_item :: "dependency \<Rightarrow> bytes" where
  "dep_item d = (if soft d then ''?'' else []) @ nz (dep_bytes d)"

fun join_deps :: "bool \<Rightarrow> dependency list \<Rightarrow> bytes" where
  "join_deps first [] = []"
| "join_deps first (d # ds) = (if first then [] else '','') @ dep_item d @ join_deps False ds"

definition service_line_spec :: "service \<Rightarrow> int \<Rightarrow> bytes" where
  "service_line_spec s now =
     nz (name_bytes s) @ '' state='' @ state_text (state s)
     @ '' pid='' @ dec_string_i (pid s)
     @ '' uptime='' @ dec_string_i (uptime_seconds s now)
     @ '' restarts='' @ dec_string (restarts s)
     @ '' exit_code='' @ dec_string_i (exit_code s)
     @ '' signal='' @ dec_string_i (term_signal s)
     @ '' auto='' @ yes_no (auto_start s) @ '' once='' @ yes_no (once s)
     @ (if has_uid s then '' uid='' @ dec_string (uid s) @ '' gid='' @ dec_string (gid s) else [])
     @ '' deps=['' @ join_deps True (take (deps_count s) (deps s)) @ '']''
     @ (if has_log s
        then '' log_pid='' @ dec_string_i (log_pid s)
          @ '' log_state='' @ (if log_state s = STATE_RUNNING then ''running'' else ''down'')
          @ '' log_uptime='' @ dec_string_i (log_uptime_seconds s now)
        else [])
     @ [LF]"

fun raw_join :: "bool \<Rightarrow> dependency list \<Rightarrow> bytes" where
  "raw_join first [] = []"
| "raw_join first (d # ds) = (if first then [] else '','') @ (if soft d then ''?'' else [])
     @ dep_bytes d @ raw_join False ds"

lemma push_dep_step:
  "push_dep s i (first, p) =
     (False, cs_push ((if first then [] else '','') @ (if soft (deps s ! i) then ''?'' else [])
       @ dep_bytes (deps s ! i)) p)"
  by (simp add: push_dep_def Let_def)

lemma push_dep_join:
  "snd (fold (push_dep s) is (first, p)) = cs_push (raw_join first (map ((!) (deps s)) is)) p"
proof (induction "is" arbitrary: first p)
  case (Cons i "is")
  show ?case
    by (simp only: fold.simps o_apply push_dep_step Cons list.map raw_join.simps cs_push_push
        append_assoc)
qed simp

lemma nz_raw_join: "nz (raw_join first ds) = join_deps first ds"
  by (induction ds arbitrary: first) (simp_all add: dep_item_def)

lemma map_nth_take: "n \<le> length xs \<Longrightarrow> map ((!) xs) [0..<n] = take n xs"
  by (rule nth_equalityI) auto

lemma svc_wf_ranges:
  "svc_wf s \<Longrightarrow> in_i64 (pid s)" "svc_wf s \<Longrightarrow> in_i64 (log_pid s)"
  "svc_wf s \<Longrightarrow> in_i64 (last_status s)" "svc_wf s \<Longrightarrow> in_i64 (exit_code s)"
  "svc_wf s \<Longrightarrow> in_i64 (term_signal s)" "svc_wf s \<Longrightarrow> in_i64 (started_at s)"
  by (simp_all add: svc_wf_def in_i32_i64)

lemma nz_state_text [simp]: "nz (state_text st) = state_text st"
  by (simp add: state_text_def)

lemma nz_yes_no [simp]: "nz (yes_no b) = yes_no b"
  by (simp add: yes_no_def)

lemma if_push:
  "(if b then cs_push_u64 n (cs_push d (cs_push_u64 m (cs_push a p))) else p) =
   cs_push (if b then a @ dec_string m @ d @ dec_string n else []) p"
  by (simp add: cs_push_u64_eq cs_push_push del: cs_push.simps) simp

lemma if_push_log:
  "in_i64 x \<Longrightarrow> in_i64 y \<Longrightarrow>
   (if b then cs_push_i64 y (cs_push e (cs_push d (cs_push c (cs_push_i64 x (cs_push a p))))) else p) =
   cs_push (if b then a @ dec_string_i x @ c @ d @ e @ dec_string_i y else []) p"
  by (simp add: cs_push_i64_eq cs_push_push del: cs_push.simps) simp

lemma nz_if: "nz (if b then x else []) = (if b then nz x else [])"
  by simp

text \<open>Every push of the line is one push of its whole text.\<close>

lemma service_line_raw:
  assumes "svc_wf s"
  shows "\<exists>raw. service_line s now = cs_push raw cs_new \<and> nz raw = service_line_spec s now"
proof -
  have n: "deps_count s \<le> length (deps s)" using assms by (simp add: svc_wf_def)
  note push = push_dep_join cs_push_u64_eq cs_push_i64_eq [OF svc_wf_ranges(1) [OF assms]]
    cs_push_i64_eq [OF svc_wf_ranges(2) [OF assms]] cs_push_i64_eq [OF svc_wf_ranges(4) [OF assms]]
    cs_push_i64_eq [OF svc_wf_ranges(5) [OF assms]] cs_push_i64_eq [OF uptime_range(1)]
    cs_push_push map_nth_take [OF n]
  show ?thesis
    apply (rule exI, rule conjI)
     apply (unfold service_line_def Let_def)
     apply (simp only: if_push if_push_log [OF svc_wf_ranges(2) [OF assms] uptime_range(2)])
     apply (simp only: push)
    apply (simp add: service_line_spec_def nz_raw_join)
    done
qed

lemma service_line_bytes:
  "svc_wf s \<Longrightarrow> cs_bytes (service_line s now) = take 1023 (service_line_spec s now)"
  using service_line_raw [of s now] by (auto simp: cs_bytes_push cs_bytes_new)

lemma format_service_status_eq:
  "svc_wf s \<Longrightarrow> format_service_status s now = take 1023 (service_line_spec s now)"
proof -
  assume wf: "svc_wf s"
  define ob where "ob = cs_bytes (service_line s now)"
  have ob: "ob = take 1023 (service_line_spec s now)" using wf by (simp add: service_line_bytes ob_def)
  then have "length ob \<le> 1023" by simp
  then have m: "min (length ob) RESP_BUF = length ob" and c: "length ob \<le> length (replicate RESP_BUF NUL)"
    by simp_all
  have "format_service_status s now = ob"
    unfolding format_service_status_def Let_def ob_def [symmetric] m take_all [OF order_refl]
    by (rule take_copy_slice_0 [OF c])
  then show ?thesis by (simp add: ob)
qed

definition status_file_spec :: "service \<Rightarrow> int \<Rightarrow> bytes" where
  "status_file_spec s now =
     ''name='' @ nz (name_bytes s) @ LF # ''pid='' @ dec_string_i (pid s)
     @ LF # ''state='' @ state_text (state s)
     @ LF # ''uptime='' @ dec_string_i (uptime_seconds s now)
     @ LF # ''restarts='' @ dec_string (restarts s)
     @ LF # ''exit_code='' @ dec_string_i (exit_code s)
     @ LF # ''term_signal='' @ dec_string_i (term_signal s)
     @ LF # ''last_wait_status='' @ dec_string_i (last_status s)
     @ LF # ''started_at_mono='' @ dec_string_i (started_at s)
     @ LF # ''auto_start='' @ yes_no (auto_start s)
     @ LF # ''once='' @ yes_no (once s)
     @ (if has_uid s then LF # ''uid='' @ dec_string (uid s) @ LF # ''gid='' @ dec_string (gid s)
        else [])
     @ [LF]"

lemma status_text_raw:
  assumes "svc_wf s"
  shows "\<exists>raw. status_text s now = cs_push raw cs_new \<and> nz raw = status_file_spec s now"
proof -
  note push = cs_push_u64_eq cs_push_i64_eq [OF svc_wf_ranges(1) [OF assms]]
    cs_push_i64_eq [OF svc_wf_ranges(3) [OF assms]] cs_push_i64_eq [OF svc_wf_ranges(4) [OF assms]]
    cs_push_i64_eq [OF svc_wf_ranges(5) [OF assms]] cs_push_i64_eq [OF svc_wf_ranges(6) [OF assms]]
    cs_push_i64_eq [OF uptime_range(1)] cs_push_push
  show ?thesis
    apply (rule exI, rule conjI)
     apply (unfold status_text_def Let_def)
     apply (simp only: if_push)
     apply (simp only: push)
    apply (simp add: status_file_spec_def)
    done
qed

lemma status_text_bytes:
  "svc_wf s \<Longrightarrow> cs_bytes (status_text s now) = take 1023 (status_file_spec s now)"
  using status_text_raw [of s now] by (auto simp: cs_bytes_push cs_bytes_new)

lemma extends_write_status [simp]: "extends u w \<Longrightarrow> extends u (write_status_file os s w)"
  by (simp add: write_status_file_def split_def Let_def)

lemma kill_log_write_status [simp]: "kill_log (write_status_file os s w) = kill_log w"
  by (simp add: write_status_file_def split_def Let_def)

section \<open>Claims\<close>

text \<open>A kernel whose writes accept at least one byte.\<close>

definition takes_writes :: "os \<Rightarrow> bool" where
  "takes_writes os \<longleftrightarrow> (\<forall>tr fd b. b \<noteq> [] \<longrightarrow> (\<exists>k > 0. os_write os tr fd b = Some k))"

lemma write_all_succeeds: "takes_writes os \<Longrightarrow> fst (write_all os fd data w)"
proof (induction os fd data w rule: write_all.induct)
  case (1 os fd data w)
  show ?case
  proof (cases "data = []")
    case False
    then obtain k where "os_write os (trace (retried os (EWrite fd []) w)) fd data = Some k" "k > 0"
      using "1.prems" unfolding takes_writes_def by blast
    then have pos: "fst (sys_write os fd data (retried os (EWrite fd []) w)) > 0"
      using False by (simp add: sys_write_def Let_def)
    from "1.IH" [OF False refl pos "1.prems"] show ?thesis
      using False pos by (subst write_all.simps) (simp add: Let_def)
  qed (simp add: write_all.simps)
qed

text \<open>What a run wrote to \<open>fd\<close> is a text, up to a failed write.\<close>

definition wrote :: "os \<Rightarrow> int \<Rightarrow> bytes \<Rightarrow> world \<Rightarrow> world \<Rightarrow> bool" where
  "wrote os fd text w w' \<longleftrightarrow>
     (if takes_writes os then written fd (new_events w w') = text
      else \<exists>rest. written fd (new_events w w') @ rest = text)"

lemma wrote_all: "wrote os fd data w (snd (write_all os fd data w))"
proof -
  obtain rest where "data = written fd (new_events w (snd (write_all os fd data w))) @ rest"
    "fst (write_all os fd data w) = (rest = [])" using write_all_spec by blast
  then show ?thesis using write_all_succeeds [of os fd data w] unfolding wrote_def by (metis append_Nil2)
qed

lemma status_file_written:
  assumes "svc_wf s" and op: "sys_open os (cs_cstr (svc_path s ''/status'')) O_WR_CREAT_TRUNC w = (fd, v)"
    and fd: "fd \<ge> 0"
  shows "wrote os fd (take 1023 (status_file_spec s (fst (mono_now os v)))) w (write_status_file os s w)"
proof -
  let ?t = "fst (mono_now os v)" and ?v = "snd (mono_now os v)"
  let ?w = "snd (write_all os fd (cs_bytes (status_text s ?t)) ?v)"
  have eq: "write_status_file os s w = libc_close fd ?w"
    using fd by (simp add: write_status_file_def Let_def split_def op)
  have "extends w (snd (sys_open os (cs_cstr (svc_path s ''/status'')) O_WR_CREAT_TRUNC w))" by simp
  then have ext: "extends w v" "extends w ?v" by (simp_all add: op)
  have "written fd (new_events w v) = []"
    using op by (auto simp: sys_open_def Let_def)
  moreover have "written fd (new_events v ?v) = []"
    by (simp add: mono_now_def wall_now_def split: option.split)
  ultimately have "written fd (new_events w ?v) = []" using written_trans [OF ext(1), of ?v fd] by simp
  then have "written fd (new_events w ?w) = written fd (new_events ?v ?w)"
    using written_trans [OF ext(2), of ?w fd] by simp
  moreover have "extends w ?w" using ext(2) by simp
  ultimately have "written fd (new_events w (write_status_file os s w)) = written fd (new_events ?v ?w)"
    by (simp add: eq libc_close_def written_append)
  then show ?thesis
    using wrote_all [of os fd "cs_bytes (status_text s ?t)" ?v] status_text_bytes [OF assms(1), of ?t]
    by (simp add: wrote_def)
qed

section \<open>Claims\<close>

text \<open>C40. The status file is written from the record and the clock alone: when it can be opened and
  every write accepts something, however little, the bytes written to it are the first 1023 of the
  documented text, with the uptime by the clock read after the file is opened. When a write
  fails, they are a beginning of it.\<close>

theorem status_file_content:
  assumes "svc_wf s" "sys_open os (cs_cstr (svc_path s ''/status'')) O_WR_CREAT_TRUNC w = (fd, v)" "fd \<ge> 0"
  shows "(let text = take 1023 (status_file_spec s (fst (mono_now os v)));
      out = written fd (new_events w (write_status_file os s w))
    in if takes_writes os then out = text else \<exists>rest. out @ rest = text)"
  using status_file_written [OF assms] by (simp add: wrote_def Let_def)

text \<open>A kernel that takes one byte with each write.\<close>

theorem status_file_content_witness:
  "(let os = os_idle\<lparr>os_open := \<lambda>_ _ _. 5, os_write := \<lambda>_ _ _. Some 1\<rparr>
    in written 5 (new_events world_start (write_status_file os SERVICE_EMPTY world_start)) =
      take 1023 (status_file_spec SERVICE_EMPTY 0))"
proof -
  let ?os = "os_idle\<lparr>os_open := \<lambda>_ _ _. 5, os_write := \<lambda>_ _ _. Some 1\<rparr>"
  have "\<exists>v. sys_open ?os p m w = (5, v)" for p m and w :: world by (simp add: sys_open_def Let_def)
  then obtain v where v: "sys_open ?os (cs_cstr (svc_path SERVICE_EMPTY ''/status'')) O_WR_CREAT_TRUNC world_start =
      (5, v)" by blast
  have tw: "takes_writes ?os" by (simp add: takes_writes_def)
  have now: "fst (mono_now ?os v) = 0" by (simp add: mono_now_def wall_now_def os_idle_def wrap_i64_def)
  have "(0::int) \<le> 5" by simp
  from status_file_content [OF svc_wf_EMPTY v this] show ?thesis unfolding Let_def now if_P [OF tw] .
qed

text \<open>The status line of a control response is the documented text, cut at 1023 bytes.\<close>

lemma status_line_content:
  "svc_wf s \<Longrightarrow> format_service_status s now = take 1023 (service_line_spec s now)"
  by (rule format_service_status_eq)

end
