(* ===== verification/Sup_Log.thy ===== *)
theory Sup_Log
  imports Types
begin

text \<open>
  \<open>src/log.rs\<close>, the supervisor's own log (its two statics are fields of \<open>world\<close>), and
  \<open>src/signal.rs\<close>, the self-pipe through which signals reach the main loop.
\<close>

section \<open>The supervisor log\<close>

definition supervisor_log_init :: "os \<Rightarrow> world \<Rightarrow> world" where
  "supervisor_log_init os w =
     (let (fd, w) = sys_open os (c_read SUPERVISOR_LOG_PATH) O_WR_CREAT_APPEND w
      in if fd \<ge> 0
         then let w = snd (set_cloexec os fd w);
                  (l, w) = sys_lseek_end os fd w
              in w\<lparr>SUPERVISOR_LOG_LEN := l, SUPERVISOR_LOG_FD := fd\<rparr>
         else w)"

definition supervisor_log_rotate :: "os \<Rightarrow> world \<Rightarrow> world" where
  "supervisor_log_rotate os w =
     (let w = close_fd os (SUPERVISOR_LOG_FD w) w;
          w = w\<lparr>SUPERVISOR_LOG_FD := -1, SUPERVISOR_LOG_LEN := 0\<rparr>;
          (ts, w) = wall_now os w;
          old = cs_from_bytes SUPERVISOR_LOG_PATH;
          old = cs_push_byte (CHR ''.'') old;
          old = cs_push_u64 (u64_of_i64 ts) old;
          w = emit (ERename (c_read SUPERVISOR_LOG_PATH) (cs_cstr old)) w
      in supervisor_log_init os w)"

definition log_prefix :: "int \<Rightarrow> cstrbuf" where
  "log_prefix ts = cs_push '' [svc-rs] '' (cs_push_u64 (u64_of_i64 ts) cs_new)"

text \<open>The line of at most 256 bytes \<open>supervisor_log\<close> assembles in \<open>buf[..total]\<close>.\<close>

definition log_line :: "int \<Rightarrow> bytes \<Rightarrow> bytes" where
  "log_line ts msg =
     (let buf = replicate 256 NUL;
          prefix = cs_bytes (log_prefix ts);
          max_copy = min (length buf) (length prefix + length msg);
          buf = copy_slice 0 prefix buf;
          msg_len = min (length msg) (max_copy - length prefix);
          buf = copy_slice (length prefix) (take msg_len msg) buf;
          total = length prefix + msg_len
      in take total buf)"

definition supervisor_log :: "os \<Rightarrow> bytes \<Rightarrow> world \<Rightarrow> world" where
  "supervisor_log os msg w =
     (if SUPERVISOR_LOG_FD w < 0 then w
      else let (ts, w) = wall_now os w;
               line = log_line ts msg;
               (ok, w) = write_all os (SUPERVISOR_LOG_FD w) line w
           in if ok
              then let w = w\<lparr>SUPERVISOR_LOG_LEN :=
                         wrap_i64 (SUPERVISOR_LOG_LEN w + int (length line) + 1)\<rparr>;
                       w = snd (write_all os (SUPERVISOR_LOG_FD w) [LF] w)
                   in if SUPERVISOR_LOG_LEN w > SUPERVISOR_LOG_LIMIT
                      then supervisor_log_rotate os w else w
              else w)"

lemma log_prefix_bytes:
  "cs_bytes (log_prefix ts) = dec_string (u64_of_i64 ts) @ '' [svc-rs] ''"
  "length (cs_bytes (log_prefix ts)) \<le> 30"
proof -
  have len: "length (dec_string (u64_of_i64 ts)) \<le> 20"
    by (rule dec_string_length) (rule u64_of_i64_le)
  then show eq: "cs_bytes (log_prefix ts) = dec_string (u64_of_i64 ts) @ '' [svc-rs] ''"
    by (simp add: log_prefix_def bytes_simps)
  show "length (cs_bytes (log_prefix ts)) \<le> 30" using len by (simp add: eq)
qed

text \<open>The line is the time stamp, the tag and as much of the message as 256 bytes leave.\<close>

lemma log_line_eq:
  "log_line ts msg = take 256 (dec_string (u64_of_i64 ts) @ '' [svc-rs] '' @ msg)"
proof -
  let ?p = "cs_bytes (log_prefix ts)"
  let ?n = "min (length msg) (256 - length ?p)"
  have p: "length ?p \<le> 30" by (rule log_prefix_bytes)
  have "log_line ts msg = ?p @ take ?n msg"
  proof (cases "length ?p + length msg \<le> 256")
    case True
    then have "min (length msg) (256 - length ?p) = length msg" by simp
    with p True show ?thesis by (simp add: log_line_def Let_def copy_slice_def)
  next
    case False
    with p show ?thesis by (simp add: log_line_def Let_def copy_slice_def min_def)
  qed
  also have "\<dots> = take 256 (?p @ msg)" using p by (simp add: min_def)
  finally show ?thesis by (simp add: log_prefix_bytes)
qed

lemma extends_statics [simp]:
  "extends u (w\<lparr>SUPERVISOR_LOG_FD := x\<rparr>) = extends u w"
  "extends u (w\<lparr>SUPERVISOR_LOG_LEN := x\<rparr>) = extends u w"
  "extends u (w\<lparr>SIG_PIPE_W := x\<rparr>) = extends u w"
  by (simp_all add: extends_def)

lemma extends_log_init [simp]: "extends u w \<Longrightarrow> extends u (supervisor_log_init os w)"
  by (simp add: supervisor_log_init_def split_def Let_def)

lemma extends_log_rotate [simp]: "extends u w \<Longrightarrow> extends u (supervisor_log_rotate os w)"
  by (simp add: supervisor_log_rotate_def split_def Let_def)

lemma extends_supervisor_log [simp]: "extends u w \<Longrightarrow> extends u (supervisor_log os msg w)"
  by (simp add: supervisor_log_def split_def Let_def)

lemma kill_log_supervisor [simp]:
  "kill_log (supervisor_log_init os w) = kill_log w"
  "kill_log (supervisor_log_rotate os w) = kill_log w"
  "kill_log (supervisor_log os msg w) = kill_log w"
  by (simp_all add: supervisor_log_init_def supervisor_log_rotate_def supervisor_log_def
      split_def Let_def)

section \<open>The signal pipe\<close>

definition signal_handler :: "os \<Rightarrow> int \<Rightarrow> world \<Rightarrow> world" where
  "signal_handler os sig w =
     (let fd = SIG_PIPE_W w
      in if fd \<ge> 0 then snd (sys_write os fd [char_of (nat (sig mod 256))] w) else w)"

definition init_signal_pipe :: "os \<Rightarrow> world \<Rightarrow> int \<times> world" where
  "init_signal_pipe os w =
     (case pipe_new os w of
        (None, w) \<Rightarrow> (-1, w)
      | (Some (rd, wr), w) \<Rightarrow> (rd, w\<lparr>SIG_PIPE_W := wr\<rparr>))"

definition set_signal_action :: "int \<Rightarrow> world \<Rightarrow> world" where
  "set_signal_action sig w = emit (ESetup (SSigaction sig)) w"

definition install_signal_handlers :: "world \<Rightarrow> world" where
  "install_signal_handlers w =
     (let w = emit (ESetup (SSigIgn SIGPIPE)) w;
          w = set_signal_action SIGTERM w;
          w = set_signal_action SIGINT w;
          w = set_signal_action SIGCHLD w
      in set_signal_action SIGHUP w)"

text \<open>The inner loop of \<open>drain_signal_pipe\<close>: the first byte of a chunk that is one of the three
  signals the main loop acts on.\<close>

fun find_signal :: "bytes \<Rightarrow> int option" where
  "find_signal [] = None"
| "find_signal (c # cs) =
     (let s = of_char c
      in if s = SIGTERM \<or> s = SIGINT \<or> s = SIGHUP then Some s else find_signal cs)"

text \<open>The outer loop reads until the pipe is empty or a signal is found. A pipe that is refilled
  for ever keeps it going: it is a partial function.\<close>

partial_function (option) drain_signal_pipe ::
    "os \<Rightarrow> int \<Rightarrow> world \<Rightarrow> (int option \<times> world) option" where
  "drain_signal_pipe os fd w =
     (case sys_read os fd 64 w of
        (r, w) \<Rightarrow>
          (if rd_data r = [] then Some (None, w)
           else case find_signal (rd_data r) of
                  Some s \<Rightarrow> Some (Some s, w)
                | None \<Rightarrow> drain_signal_pipe os fd w))"

lemma find_signal_Some:
  "find_signal b = Some s \<Longrightarrow> s \<in> {SIGTERM, SIGINT, SIGHUP} \<and> (\<exists>c \<in> set b. of_char c = s)"
  by (induction b) (auto simp: Let_def split: if_splits)

definition acted_on :: "char \<Rightarrow> bool" where
  "acted_on c \<longleftrightarrow> (of_char c :: int) \<in> {SIGTERM, SIGINT, SIGHUP}"

lemma find_signal_find: "find_signal b = map_option of_char (find acted_on b)"
  by (induction b) (auto simp: Let_def acted_on_def)

lemma find_signal_append:
  "find_signal (a @ b) = (case find_signal a of None \<Rightarrow> find_signal b | Some s \<Rightarrow> Some s)"
  by (induction a) (simp_all add: Let_def)

text \<open>The world after \<open>k\<close> reads of the pipe, and what read number \<open>k\<close> delivers.\<close>

definition after_reads :: "int \<Rightarrow> nat \<Rightarrow> world \<Rightarrow> world" where
  "after_reads fd k w = (emit (ERead fd 64) ^^ k) w"

definition nth_chunk :: "os \<Rightarrow> int \<Rightarrow> world \<Rightarrow> nat \<Rightarrow> bytes" where
  "nth_chunk os fd w k = rd_data (fst (sys_read os fd 64 (after_reads fd k w)))"

lemma nth_chunk_Suc: "nth_chunk os fd w (Suc k) = nth_chunk os fd (emit (ERead fd 64) w) k"
  by (simp add: nth_chunk_def after_reads_def funpow_swap1)

lemma drain_step:
  "drain_signal_pipe os fd w =
     (if nth_chunk os fd w 0 = [] then Some (None, emit (ERead fd 64) w)
      else case find_signal (nth_chunk os fd w 0) of
             Some s \<Rightarrow> Some (Some s, emit (ERead fd 64) w)
           | None \<Rightarrow> drain_signal_pipe os fd (emit (ERead fd 64) w))"
  by (subst drain_signal_pipe.simps)
    (simp add: nth_chunk_def after_reads_def sys_read_def split_def split: option.split)

text \<open>A pipe that is empty after \<open>n\<close> chunks makes the loop return, with the first signal of
  interest in the bytes read.\<close>

lemma drain_returns:
  "nth_chunk os fd w n = [] \<Longrightarrow> \<forall>k < n. nth_chunk os fd w k \<noteq> [] \<Longrightarrow>
   \<exists>w'. drain_signal_pipe os fd w =
     Some (find_signal (concat (map (nth_chunk os fd w) [0..<n])), w')"
proof (induction n arbitrary: w)
  case 0
  then show ?case by (simp add: drain_step)
next
  case (Suc n)
  let ?w = "emit (ERead fd 64) w"
  have chunks: "map (nth_chunk os fd w) [0..<Suc n] =
      nth_chunk os fd w 0 # map (nth_chunk os fd ?w) [0..<n]"
    by (simp add: upt_conv_Cons map_Suc_upt [symmetric] nth_chunk_Suc del: upt_Suc)
  from Suc.prems have "nth_chunk os fd ?w n = []" "\<forall>k < n. nth_chunk os fd ?w k \<noteq> []"
    by (auto simp flip: nth_chunk_Suc)
  then obtain w' where "drain_signal_pipe os fd ?w =
      Some (find_signal (concat (map (nth_chunk os fd ?w) [0..<n])), w')"
    using Suc.IH by blast
  with Suc.prems show ?case
    unfolding chunks
    by (subst drain_step) (auto simp: find_signal_append split: option.split)
qed

section \<open>Claims\<close>

text \<open>C39. When the pipe is empty after some chunks, \<open>drain_signal_pipe\<close> returns the first signal in
  the bytes it read that the main loop acts on; bytes after that signal in its chunk are lost.\<close>

theorem drain_signal_pipe_first:
  "nth_chunk os fd w n = [] \<Longrightarrow> \<forall>k < n. nth_chunk os fd w k \<noteq> [] \<Longrightarrow>
   \<exists>w'. drain_signal_pipe os fd w =
     Some (map_option of_char (find acted_on (concat (map (nth_chunk os fd w) [0..<n]))), w')"
  using drain_returns by (simp add: find_signal_find)

text \<open>A pipe with the bytes of \<open>SIGCHLD\<close>, \<open>SIGTERM\<close> and \<open>SIGHUP\<close>: the second one is seen.\<close>

definition os_signalled :: os where
  "os_signalled = os_idle\<lparr>os_read := \<lambda>tr fd n. RData (if tr = [] then [CHR 0x11, CHR 0x0F, CHR 0x01] else [])\<rparr>"

theorem drain_signal_pipe_first_witness:
  "\<exists>w'. drain_signal_pipe os_signalled 3 world_start = Some (Some 15, w')"
proof -
  have chunks: "nth_chunk os_signalled 3 world_start 0 = [CHR 0x11, CHR 0x0F, CHR 0x01]"
    "nth_chunk os_signalled 3 world_start 1 = []"
    by (simp_all add: nth_chunk_def after_reads_def sys_read_def os_signalled_def world_start_def emit_def)
  then have "\<forall>k < 1. nth_chunk os_signalled 3 world_start k \<noteq> []" by simp
  from drain_signal_pipe_first [OF chunks(2) this] show ?thesis
    by (simp add: chunks(1) acted_on_def)
qed

text \<open>A line of the supervisor log is the time, the tag and the message, cut at 256 bytes.\<close>

lemma supervisor_log_line:
  "log_line ts msg = take 256 (dec_string (u64_of_i64 ts) @ '' [svc-rs] '' @ msg)"
  by (rule log_line_eq)

end
