(* ===== verification/Service_Table.thy ===== *)
theory Service_Table
  imports Security User Status Sup_Log
begin

text \<open>
  The service table and the searches in it (first part of \<open>src/service.rs\<close>). The table is the
  static array \<open>SERVICES\<close> of \<open>src/main.rs\<close>, a list of records whose length never changes. The
  two searches share the locale \<open>service_lookup\<close>, interpreted on both.
\<close>

section \<open>Searching\<close>

fun find_name_loop :: "bytes \<Rightarrow> nat \<Rightarrow> service list \<Rightarrow> nat" where
  "find_name_loop nm i [] = usize_max"
| "find_name_loop nm i (s # ss) =
     (if active s \<and> bytes_eq (name_bytes s) nm then i else find_name_loop nm (i + 1) ss)"

definition find_service_by_name :: "service list \<Rightarrow> bytes \<Rightarrow> nat" where
  "find_service_by_name services nm = find_name_loop nm 0 services"

fun find_dir_loop :: "cstrbuf \<Rightarrow> nat \<Rightarrow> service list \<Rightarrow> nat" where
  "find_dir_loop d i [] = usize_max"
| "find_dir_loop d i (s # ss) =
     (if active s \<and> dir_bytes s = cs_bytes d then i else find_dir_loop d (i + 1) ss)"

definition find_service_by_dir :: "service list \<Rightarrow> cstrbuf \<Rightarrow> nat" where
  "find_service_by_dir services d = find_dir_loop d 0 services"

text \<open>The dependency loop of \<open>deps_satisfied\<close>, over the first \<open>deps_count\<close> entries.\<close>

fun deps_loop :: "service list \<Rightarrow> dependency list \<Rightarrow> bool" where
  "deps_loop services [] = True"
| "deps_loop services (d # ds) =
     (if soft d then deps_loop services ds
      else let idx = find_service_by_name services (dep_bytes d)
           in if idx = usize_max \<or> state (services ! idx) \<noteq> STATE_RUNNING then False
              else deps_loop services ds)"

definition deps_satisfied :: "service \<Rightarrow> service list \<Rightarrow> bool" where
  "deps_satisfied s services = deps_loop services (take (deps_count s) (deps s))"

section \<open>Small helpers\<close>

definition format_i64_buf :: "int \<Rightarrow> bytes" where
  "format_i64_buf v =
     (let buf = replicate 20 NUL;
          b = cs_bytes (cs_push_i64 v cs_new);
          n = min (length b) 19;
          buf = copy_slice 0 (take n b) buf
      in buf[n := NUL])"

unbundle bit_operations_syntax

definition decode_wait_status :: "int \<Rightarrow> nat \<times> int \<times> int" where
  "decode_wait_status status =
     (if status AND 0x7f = 0 then (STATE_EXITED, drop_bit 8 status AND 0xff, 0)
      else if status AND 0x7f = 0x7f then (STATE_DOWN, 0, 0)
      else (STATE_SIGNALED, 0, status AND 0x7f))"

section \<open>The contract of a search\<close>

locale service_lookup =
  fixes lookup :: "service list \<Rightarrow> 'k \<Rightarrow> nat"
    and matches :: "'k \<Rightarrow> service \<Rightarrow> bool"
  assumes lookup_law: "length ss < usize_max \<Longrightarrow>
    (if \<exists>s \<in> set ss. matches k s
     then lookup ss k < length ss \<and> matches k (ss ! lookup ss k) \<and>
          (\<forall>j < lookup ss k. \<not> matches k (ss ! j))
     else lookup ss k = usize_max)"
begin

lemma found_iff: "length ss < usize_max \<Longrightarrow>
  lookup ss k \<noteq> usize_max \<longleftrightarrow> (\<exists>s \<in> set ss. matches k s)"
  using lookup_law [of ss k] by (auto split: if_splits)

lemma found: "length ss < usize_max \<Longrightarrow> lookup ss k \<noteq> usize_max \<Longrightarrow>
  lookup ss k < length ss \<and> matches k (ss ! lookup ss k)"
  using lookup_law [of ss k] by (auto split: if_splits)

lemma first: "length ss < usize_max \<Longrightarrow> j < lookup ss k \<Longrightarrow> j < length ss \<Longrightarrow> \<not> matches k (ss ! j)"
  using lookup_law [of ss k] by (auto split: if_splits)

lemma eqI:
  assumes "length ss < usize_max" "i < length ss" "matches k (ss ! i)"
    "\<And>j. j < i \<Longrightarrow> \<not> matches k (ss ! j)"
  shows "lookup ss k = i"
proof -
  have ex: "\<exists>s \<in> set ss. matches k s" using assms(2,3) nth_mem by blast
  then have l: "lookup ss k < length ss" "matches k (ss ! lookup ss k)"
      "\<forall>j < lookup ss k. \<not> matches k (ss ! j)"
    using lookup_law [OF assms(1), of k] by simp_all
  then have "\<not> i < lookup ss k" "\<not> lookup ss k < i" using assms(3,4) by blast+
  then show ?thesis by simp
qed

text \<open>A search sees only which entries match: tables that agree on that give the same index.\<close>

lemma cong:
  assumes "length ss < usize_max" "length ts = length ss"
    "\<And>i. i < length ss \<Longrightarrow> matches k (ts ! i) = matches k (ss ! i)"
  shows "lookup ts k = lookup ss k"
proof (cases "lookup ss k = usize_max")
  case True
  then have "\<not> (\<exists>s \<in> set ss. matches k s)" using found_iff [OF assms(1), of k] by simp
  then have "\<not> (\<exists>t \<in> set ts. matches k t)" using assms(2,3) by (metis in_set_conv_nth)
  then show ?thesis using True found_iff [of ts k] assms by simp
next
  case False
  from found [OF assms(1) False]
  have "lookup ss k < length ts" "matches k (ts ! lookup ss k)"
    using assms(2,3) by simp_all
  moreover have "\<not> matches k (ts ! j)" if "j < lookup ss k" for j
    using first [OF assms(1) that] that assms calculation(1) by simp
  ultimately show ?thesis using eqI [of ts] assms by simp
qed

lemma update:
  "length ss < usize_max \<Longrightarrow> matches k s' = matches k (ss ! i) \<Longrightarrow>
   lookup (ss[i := s']) k = lookup ss k"
  by (rule cong) (simp_all, metis nth_list_update_eq nth_list_update_neq)

end

lemma find_name_loop_law:
  "(if \<exists>s \<in> set ss. active s \<and> name_bytes s = nm
    then \<exists>k < length ss. find_name_loop nm i ss = i + k \<and> active (ss ! k) \<and>
           name_bytes (ss ! k) = nm \<and> (\<forall>j < k. \<not> (active (ss ! j) \<and> name_bytes (ss ! j) = nm))
    else find_name_loop nm i ss = usize_max)"
proof (induction ss arbitrary: i)
  case (Cons s ss)
  show ?case
  proof (cases "active s \<and> name_bytes s = nm")
    case True
    then show ?thesis by auto
  next
    case False
    show ?thesis
    proof (cases "\<exists>s \<in> set ss. active s \<and> name_bytes s = nm")
      case True
      with Cons.IH [of "i + 1"] obtain k where
        "k < length ss" "find_name_loop nm (i + 1) ss = i + 1 + k" "active (ss ! k)"
        "name_bytes (ss ! k) = nm" "\<forall>j < k. \<not> (active (ss ! j) \<and> name_bytes (ss ! j) = nm)"
        by auto
      with False have "\<exists>k < length (s # ss). find_name_loop nm i (s # ss) = i + k \<and>
          active ((s # ss) ! k) \<and> name_bytes ((s # ss) ! k) = nm \<and>
          (\<forall>j < k. \<not> (active ((s # ss) ! j) \<and> name_bytes ((s # ss) ! j) = nm))"
        by (intro exI [of _ "Suc k"]) (auto simp: less_Suc_eq_0_disj)
      with True show ?thesis by auto
    next
      case none: False
      with Cons.IH [of "i + 1"] False show ?thesis by auto
    qed
  qed
qed simp

lemma find_dir_loop_law:
  "(if \<exists>s \<in> set ss. active s \<and> dir_bytes s = cs_bytes d
    then \<exists>k < length ss. find_dir_loop d i ss = i + k \<and> active (ss ! k) \<and>
           dir_bytes (ss ! k) = cs_bytes d \<and>
           (\<forall>j < k. \<not> (active (ss ! j) \<and> dir_bytes (ss ! j) = cs_bytes d))
    else find_dir_loop d i ss = usize_max)"
proof (induction ss arbitrary: i)
  case (Cons s ss)
  show ?case
  proof (cases "active s \<and> dir_bytes s = cs_bytes d")
    case True
    then show ?thesis by auto
  next
    case False
    show ?thesis
    proof (cases "\<exists>s \<in> set ss. active s \<and> dir_bytes s = cs_bytes d")
      case True
      with Cons.IH [of "i + 1"] obtain k where
        "k < length ss" "find_dir_loop d (i + 1) ss = i + 1 + k" "active (ss ! k)"
        "dir_bytes (ss ! k) = cs_bytes d"
        "\<forall>j < k. \<not> (active (ss ! j) \<and> dir_bytes (ss ! j) = cs_bytes d)"
        by auto
      with False have "\<exists>k < length (s # ss). find_dir_loop d i (s # ss) = i + k \<and>
          active ((s # ss) ! k) \<and> dir_bytes ((s # ss) ! k) = cs_bytes d \<and>
          (\<forall>j < k. \<not> (active ((s # ss) ! j) \<and> dir_bytes ((s # ss) ! j) = cs_bytes d))"
        by (intro exI [of _ "Suc k"]) (auto simp: less_Suc_eq_0_disj)
      with True show ?thesis by auto
    next
      case none: False
      with Cons.IH [of "i + 1"] False show ?thesis by auto
    qed
  qed
qed simp

interpretation by_name: service_lookup find_service_by_name
    "\<lambda>nm s. active s \<and> name_bytes s = nm"
proof unfold_locales
  fix ss :: "service list" and k
  show "if \<exists>s \<in> set ss. active s \<and> name_bytes s = k
     then find_service_by_name ss k < length ss \<and>
          (active (ss ! find_service_by_name ss k) \<and> name_bytes (ss ! find_service_by_name ss k) = k) \<and>
          (\<forall>j < find_service_by_name ss k. \<not> (active (ss ! j) \<and> name_bytes (ss ! j) = k))
     else find_service_by_name ss k = usize_max"
    using find_name_loop_law [of ss k 0] by (auto simp: find_service_by_name_def split: if_splits)
qed

interpretation by_dir: service_lookup find_service_by_dir
    "\<lambda>d s. active s \<and> dir_bytes s = cs_bytes d"
proof unfold_locales
  fix ss :: "service list" and k
  show "if \<exists>s \<in> set ss. active s \<and> dir_bytes s = cs_bytes k
     then find_service_by_dir ss k < length ss \<and>
          (active (ss ! find_service_by_dir ss k) \<and>
           dir_bytes (ss ! find_service_by_dir ss k) = cs_bytes k) \<and>
          (\<forall>j < find_service_by_dir ss k. \<not> (active (ss ! j) \<and> dir_bytes (ss ! j) = cs_bytes k))
     else find_service_by_dir ss k = usize_max"
    using find_dir_loop_law [of ss k 0] by (auto simp: find_service_by_dir_def split: if_splits)
qed

section \<open>Dependencies\<close>

text \<open>The hard dependencies of a service, by name.\<close>

definition hard_deps :: "service \<Rightarrow> bytes list" where
  "hard_deps s = map dep_bytes (filter (\<lambda>d. \<not> soft d) (take (deps_count s) (deps s)))"

definition is_up :: "service list \<Rightarrow> bytes \<Rightarrow> bool" where
  "is_up services nm \<longleftrightarrow>
     (let idx = find_service_by_name services nm
      in idx \<noteq> usize_max \<and> state (services ! idx) = STATE_RUNNING)"

lemma deps_loop_iff:
  "deps_loop services ds \<longleftrightarrow> (\<forall>d \<in> set ds. soft d \<or> is_up services (dep_bytes d))"
  by (induction ds) (auto simp: Let_def is_up_def)

lemma deps_satisfied_iff:
  "deps_satisfied s services \<longleftrightarrow> (\<forall>nm \<in> set (hard_deps s). is_up services nm)"
  by (auto simp: deps_satisfied_def deps_loop_iff hard_deps_def)

lemma is_up_iff: "length services < usize_max \<Longrightarrow> is_up services nm \<longleftrightarrow>
  (\<exists>i < length services. active (services ! i) \<and> name_bytes (services ! i) = nm \<and>
     state (services ! i) = STATE_RUNNING \<and>
     (\<forall>j < i. \<not> (active (services ! j) \<and> name_bytes (services ! j) = nm)))"
proof -
  assume len: "length services < usize_max"
  let ?i = "find_service_by_name services nm"
  let ?at = "\<lambda>i. i < length services \<and> active (services ! i) \<and> name_bytes (services ! i) = nm \<and>
     state (services ! i) = STATE_RUNNING \<and>
     (\<forall>j < i. \<not> (active (services ! j) \<and> name_bytes (services ! j) = nm))"
  have "?at ?i" if up: "is_up services nm"
  proof -
    from up have "?i \<noteq> usize_max" "state (services ! ?i) = STATE_RUNNING"
      by (simp_all add: is_up_def Let_def)
    with by_name.found [OF len, of nm] by_name.first [OF len, of _ nm] show ?thesis by auto
  qed
  moreover have "is_up services nm" if at: "?at i" for i
  proof -
    from at have "?i = i" using by_name.eqI [OF len, of i nm] by blast
    with at len show ?thesis by (simp add: is_up_def)
  qed
  ultimately show ?thesis by blast
qed

section \<open>The helpers compute what they should\<close>

lemma dec_string_i32_length: "in_i32 v \<Longrightarrow> length (dec_string_i v) \<le> 11"
proof -
  assume v: "in_i32 v"
  have "length (dec_string n) \<le> 10" if "n < 10 ^ 10" for n
    using u64_digits_length [OF that] that
    by (auto simp: dec_string_def)
  moreover have "nat v < 10 ^ 10" "nat (- v) < 10 ^ 10" using v by (auto simp: in_i32_def)
  ultimately have "length (dec_string (nat v)) \<le> 10" "length (dec_string (nat (- v))) \<le> 10"
    by blast+
  then show ?thesis by (simp add: dec_string_i_def)
qed

lemma format_i64_buf_cstr:
  "in_i32 v \<Longrightarrow> c_read (format_i64_buf v) = dec_string_i v \<and> length (format_i64_buf v) = 20"
proof -
  assume v: "in_i32 v"
  let ?d = "dec_string_i v"
  have len: "length ?d \<le> 11" using v by (rule dec_string_i32_length)
  have b: "cs_bytes (cs_push_i64 v cs_new) = ?d"
    using v len by (simp add: bytes_simps in_i32_i64)
  have "format_i64_buf v = (?d @ replicate (20 - length ?d) NUL)[length ?d := NUL]"
    unfolding format_i64_buf_def b Let_def using len
    by (simp add: copy_slice_def min.absorb1)
  moreover have "20 - length ?d = Suc (19 - length ?d)" using len by simp
  ultimately have eq: "format_i64_buf v = ?d @ NUL # replicate (19 - length ?d) NUL"
    by (simp only: replicate_Suc list_update_length)
  have "NUL \<notin> set ?d" using nz_dec_string_i [of v] unfolding filter_id_conv by blast
  then have "c_read (?d @ NUL # ys) = ?d" for ys
    by (subst c_read_def, subst takeWhile_append2) auto
  then show ?thesis unfolding eq using len by simp
qed

lemma decode_wait_status_eq:
  "decode_wait_status st =
     (if st mod 128 = 0 then (STATE_EXITED, st div 256 mod 256, 0)
      else if st mod 128 = 127 then (STATE_DOWN, 0, 0)
      else (STATE_SIGNALED, 0, st mod 128))"
proof -
  have "Bit_Operations.and x 127 = x mod 128" "Bit_Operations.and x 255 = x mod 256" for x :: int
    using take_bit_eq_mask [of 7 x] take_bit_eq_mask [of 8 x]
    by (simp_all add: take_bit_eq_mod mask_eq_exp_minus_1)
  then show ?thesis by (simp add: decode_wait_status_def drop_bit_eq_div)
qed

lemma decode_wait_status_range:
  assumes "decode_wait_status status = (st, code, sig)"
  shows "st \<in> {STATE_DOWN, STATE_EXITED, STATE_SIGNALED}" "0 \<le> code \<and> code < 256"
    "0 \<le> sig \<and> sig < 127"
proof -
  have "status mod 128 < 128" "0 \<le> status mod 128" "status div 256 mod 256 < 256"
    "0 \<le> status div 256 mod 256" by simp_all
  then show "st \<in> {STATE_DOWN, STATE_EXITED, STATE_SIGNALED}" "0 \<le> code \<and> code < 256"
    "0 \<le> sig \<and> sig < 127"
    using assms by (auto simp: decode_wait_status_eq split: if_splits)
qed

section \<open>The invariant of a service\<close>

text \<open>The processes the supervisor has created, and its own process id as it read it.\<close>

definition forked :: "world \<Rightarrow> int set" where
  "forked w = {p. p > 0 \<and> (\<exists>c. EFork p c \<in> set (trace w))}"

definition self_pids :: "world \<Rightarrow> int set" where
  "self_pids w = {p. EAsk (QGetpid p) \<in> set (trace w)}"

text \<open>State, pid and flags agree; a positive pid is one \<open>fork\<close> returned.\<close>

definition svc_inv :: "service \<Rightarrow> bool" where
  "svc_inv s \<longleftrightarrow> svc_wf s \<and> valid_state (state s) \<and>
     (state s = STATE_RUNNING \<longrightarrow> pid s > 0 \<and> \<not> stopping s) \<and>
     (pid s > 0 \<longrightarrow> state s = STATE_RUNNING \<or> state s = STATE_STOPPING) \<and>
     (log_pid s > 0 \<longleftrightarrow> log_state s = STATE_RUNNING) \<and>
     (log_stopping s \<longrightarrow> log_pid s > 0)"

definition tracked :: "world \<Rightarrow> service \<Rightarrow> bool" where
  "tracked w s \<longleftrightarrow> (pid s > 0 \<longrightarrow> pid s \<in> forked w) \<and> (log_pid s > 0 \<longrightarrow> log_pid s \<in> forked w)"

definition svc_ok :: "world \<Rightarrow> service \<Rightarrow> bool" where
  "svc_ok w s \<longleftrightarrow> svc_inv s \<and> tracked w s"

text \<open>Signals went to a child, to the process group of a child, or to the supervisor itself.\<close>

definition own_target :: "world \<Rightarrow> int \<Rightarrow> bool" where
  "own_target w p \<longleftrightarrow> p \<in> forked w \<or> - p \<in> forked w \<or> p \<in> self_pids w"

definition kills_ok :: "world \<Rightarrow> bool" where
  "kills_ok w \<longleftrightarrow> (\<forall>(p, sig) \<in> set (kill_log w). own_target w p)"

definition sys_ok :: "service list \<Rightarrow> world \<Rightarrow> bool" where
  "sys_ok services w \<longleftrightarrow> length services = MAX_SERVICES \<and> (\<forall>s \<in> set services. svc_ok w s) \<and>
     kills_ok w"

lemma forked_mono: "extends w w' \<Longrightarrow> forked w \<subseteq> forked w'"
  by (auto simp: forked_def extends_def)

lemma own_target_mono: "extends w w' \<Longrightarrow> own_target w p \<Longrightarrow> own_target w' p"
  by (auto simp: own_target_def self_pids_def extends_def forked_def)

lemma tracked_mono: "extends w w' \<Longrightarrow> tracked w s \<Longrightarrow> tracked w' s"
  using forked_mono by (auto simp: tracked_def)

lemma svc_ok_mono: "extends w w' \<Longrightarrow> svc_ok w s \<Longrightarrow> svc_ok w' s"
  using tracked_mono by (auto simp: svc_ok_def)

lemma svc_ok_wf: "svc_ok w s \<Longrightarrow> svc_wf s"
  by (simp add: svc_ok_def svc_inv_def)

lemma kills_ok_silent: "kills_ok w \<Longrightarrow> extends w w' \<Longrightarrow> kill_log w' = kill_log w \<Longrightarrow> kills_ok w'"
  using own_target_mono by (auto simp: kills_ok_def)

lemma kills_ok_kill: "kills_ok w \<Longrightarrow> own_target w p \<Longrightarrow> kills_ok (sys_kill p sig w)"
  using own_target_mono [of w "sys_kill p sig w"] by (auto simp: kills_ok_def)

lemma fork_forked: "fst (sys_fork os c w) > 0 \<Longrightarrow> fst (sys_fork os c w) \<in> forked (snd (sys_fork os c w))"
  by (auto simp: sys_fork_def forked_def Let_def split: option.splits)

lemma svc_ok_EMPTY: "svc_ok w SERVICE_EMPTY" and svc_ok_ZERO: "svc_ok w SERVICE_ZERO"
  using svc_wf_EMPTY svc_wf_ZERO
  by (simp_all add: svc_ok_def svc_inv_def tracked_def valid_state_def)
    (simp_all add: SERVICE_EMPTY_def SERVICE_ZERO_def)

lemma sys_ok_mono: "sys_ok services w \<Longrightarrow> extends w w' \<Longrightarrow> kill_log w' = kill_log w \<Longrightarrow>
  sys_ok services w'"
  using svc_ok_mono kills_ok_silent by (auto simp: sys_ok_def)

lemma sys_ok_nth: "sys_ok services w \<Longrightarrow> i < length services \<Longrightarrow> svc_ok w (services ! i)"
  by (simp add: sys_ok_def)

lemma sys_ok_update:
  "sys_ok services w \<Longrightarrow> extends w w' \<Longrightarrow> svc_ok w' s' \<Longrightarrow> kills_ok w' \<Longrightarrow>
   sys_ok (services[i := s']) w'"
  using set_update_subset_insert [of services i s'] svc_ok_mono by (auto simp: sys_ok_def)

section \<open>Operations on one service\<close>

text \<open>\<open>for s in services.iter_mut() { .. }\<close>\<close>

fun each :: "(service \<Rightarrow> world \<Rightarrow> service \<times> world) \<Rightarrow> service list \<Rightarrow> world \<Rightarrow>
    service list \<times> world" where
  "each f [] w = ([], w)"
| "each f (s # ss) w =
     (let (s, w) = f s w; (ss, w) = each f ss w in (s # ss, w))"

lemma each_spec:
  assumes "\<And>s w. fst (f s w) = g s \<and> kill_log (snd (f s w)) = kill_log w @ h s"
  shows "fst (each f ss w) = map g ss"
    and "kill_log (snd (each f ss w)) = kill_log w @ concat (map h ss)"
  using assms by (induction ss arbitrary: w) (simp_all add: Let_def split_def)

text \<open>The contract of an operation on one entry: it keeps the invariant and signals only own
  processes, and it leaves alone what the searches look at.\<close>

locale service_step =
  fixes step :: "os \<Rightarrow> service \<Rightarrow> world \<Rightarrow> service \<times> world"
  assumes step_ok: "svc_ok w s \<Longrightarrow> svc_ok (snd (step os s w)) (fst (step os s w))"
    and step_kills: "svc_ok w s \<Longrightarrow> kills_ok w \<Longrightarrow> kills_ok (snd (step os s w))"
    and step_extends: "svc_ok w s \<Longrightarrow> extends w (snd (step os s w))"
    and step_id: "svc_ok w s \<Longrightarrow> active (fst (step os s w)) = active s"
      "svc_ok w s \<Longrightarrow> name_bytes (fst (step os s w)) = name_bytes s"
      "svc_ok w s \<Longrightarrow> dir_bytes (fst (step os s w)) = dir_bytes s"
begin

lemma at_ok: "sys_ok services w \<Longrightarrow> i < length services \<Longrightarrow>
  sys_ok (services[i := fst (step os (services ! i) w)]) (snd (step os (services ! i) w))"
  using sys_ok_nth [of services w i] step_ok step_kills step_extends
  by (intro sys_ok_update) (auto simp: sys_ok_def)

lemma at_names:
  assumes "sys_ok services w" "i < length services"
  shows "find_service_by_name (services[i := fst (step os (services ! i) w)]) nm =
    find_service_by_name services nm"
proof -
  from assms have "svc_ok w (services ! i)" "length services < usize_max"
    using sys_ok_nth by (simp_all add: sys_ok_def)
  then show ?thesis using step_id [of w] by (intro by_name.update) simp_all
qed

lemma each_length: "length (fst (each (step os) ss w)) = length ss"
  by (induction ss arbitrary: w) (simp_all add: Let_def split_def)

lemma each_svc_ok: "\<forall>s \<in> set ss. svc_ok w s \<Longrightarrow> kills_ok w \<Longrightarrow>
  (\<forall>s \<in> set (fst (each (step os) ss w)). svc_ok (snd (each (step os) ss w)) s) \<and>
  kills_ok (snd (each (step os) ss w)) \<and> extends w (snd (each (step os) ss w))"
proof (induction ss arbitrary: w)
  case (Cons s ss)
  let ?s = "step os s w"
  have s: "svc_ok w s" using Cons.prems by simp
  note ext = step_extends [OF s, of os]
  have "\<forall>t \<in> set ss. svc_ok (snd ?s) t"
    using Cons.prems svc_ok_mono [OF ext] by auto
  moreover have "kills_ok (snd ?s)" using Cons.prems step_kills by simp
  ultimately have IH: "(\<forall>t \<in> set (fst (each (step os) ss (snd ?s))).
      svc_ok (snd (each (step os) ss (snd ?s))) t) \<and> kills_ok (snd (each (step os) ss (snd ?s))) \<and>
      extends (snd ?s) (snd (each (step os) ss (snd ?s)))"
    by (rule Cons.IH)
  then have "svc_ok (snd (each (step os) ss (snd ?s))) (fst ?s)"
    using svc_ok_mono step_ok [OF s, of os] by blast
  with IH show ?case using extends_trans [OF ext] by (auto simp: Let_def split_def)
qed simp

lemma each_ok: "sys_ok services w \<Longrightarrow>
  sys_ok (fst (each (step os) services w)) (snd (each (step os) services w))"
  using each_svc_ok [of services w os] each_length [of os services w] by (simp add: sys_ok_def)

end

section \<open>Examples and claims\<close>

text \<open>Small concrete services: a name, a process and a state; one hard dependency.\<close>

definition ex_service :: "bytes \<Rightarrow> int \<Rightarrow> nat \<Rightarrow> service" where
  "ex_service nm p st =
     (set_name nm SERVICE_EMPTY)\<lparr>active := True, present := True, pid := p, state := st\<rparr>"

definition ex_needs :: "bytes \<Rightarrow> service \<Rightarrow> service" where
  "ex_needs nm s = s\<lparr>deps := \<lparr>dep_name = nm @ replicate (64 - length nm) NUL,
     dep_name_len = length nm, soft = False\<rparr> # replicate 15 DEP_EMPTY, deps_count := 1\<rparr>"

lemma ex_service_sel [simp]:
  "active (ex_service nm p st)" "present (ex_service nm p st)" "\<not> stopping (ex_service nm p st)"
  "pid (ex_service nm p st) = p" "state (ex_service nm p st) = st"
  "hard_deps (ex_service nm p st) = []"
  "log_pid (ex_service nm p st) = -1" "log_state (ex_service nm p st) = STATE_DOWN"
  "\<not> log_stopping (ex_service nm p st)" "\<not> has_log (ex_service nm p st)"
  "restarts (ex_service nm p st) = 0" "\<not> once (ex_service nm p st)"
  "started_at (ex_service nm p st) = 0" "auto_start (ex_service nm p st)"
  "\<not> manual_start (ex_service nm p st)"
  by (simp_all add: ex_service_def SERVICE_EMPTY_def set_name_def Let_def hard_deps_def)

lemma ex_service_name [simp]: "name_bytes (ex_service nm p st) = take 63 nm"
proof -
  have "length (name SERVICE_EMPTY) = NAME_BUF" by (simp add: SERVICE_EMPTY_def)
  then show ?thesis by (simp add: ex_service_def set_name_bytes)
qed

lemma ex_needs_sel [simp]:
  "active (ex_needs nm s) = active s" "present (ex_needs nm s) = present s"
  "stopping (ex_needs nm s) = stopping s" "pid (ex_needs nm s) = pid s"
  "state (ex_needs nm s) = state s" "name_bytes (ex_needs nm s) = name_bytes s"
  "hard_deps (ex_needs nm s) = [nm]"
  "log_pid (ex_needs nm s) = log_pid s" "log_stopping (ex_needs nm s) = log_stopping s"
  by (simp_all add: ex_needs_def name_bytes_def hard_deps_def dep_bytes_def)

lemma ex_service_wf: "in_i32 p \<Longrightarrow> svc_wf (ex_service nm p st)"
  using svc_wf_set_name [OF svc_wf_EMPTY, of nm] by (simp add: ex_service_def)

text \<open>C26. A service may start exactly when, for each of its hard dependencies, the first active
  service of that name exists and is running; soft dependencies do not matter.\<close>

theorem deps_satisfied_spec:
  "length services < usize_max \<Longrightarrow>
   deps_satisfied s services \<longleftrightarrow>
     (\<forall>nm \<in> set (hard_deps s). \<exists>i < length services. active (services ! i) \<and>
        name_bytes (services ! i) = nm \<and> state (services ! i) = STATE_RUNNING \<and>
        (\<forall>j < i. \<not> (active (services ! j) \<and> name_bytes (services ! j) = nm)))"
  using deps_satisfied_iff is_up_iff by simp

theorem deps_satisfied_spec_witness:
  "deps_satisfied (ex_needs ''db'' (ex_service ''app'' (-1) 0)) [ex_service ''db'' 5 1] \<and>
   \<not> deps_satisfied (ex_needs ''db'' (ex_service ''app'' (-1) 0)) [ex_service ''db'' (-1) 4]"
  using deps_satisfied_spec [of "[ex_service ''db'' 5 1]" "ex_needs ''db'' (ex_service ''app'' (-1) 0)"]
    deps_satisfied_spec [of "[ex_service ''db'' (-1) 4]" "ex_needs ''db'' (ex_service ''app'' (-1) 0)"]
  by simp

text \<open>The two searches return the first active entry with the name or directory, and
  \<open>usize::MAX\<close> exactly when there is none.\<close>

lemma searches_find_first:
  assumes "length services < usize_max"
  shows "(if \<exists>s \<in> set services. active s \<and> name_bytes s = nm
     then (let i = find_service_by_name services nm in i < length services \<and>
       (active (services ! i) \<and> name_bytes (services ! i) = nm) \<and>
       (\<forall>j < i. \<not> (active (services ! j) \<and> name_bytes (services ! j) = nm)))
     else find_service_by_name services nm = usize_max) \<and>
   (if \<exists>s \<in> set services. active s \<and> dir_bytes s = cs_bytes d
     then (let i = find_service_by_dir services d in i < length services \<and>
       (active (services ! i) \<and> dir_bytes (services ! i) = cs_bytes d) \<and>
       (\<forall>j < i. \<not> (active (services ! j) \<and> dir_bytes (services ! j) = cs_bytes d)))
     else find_service_by_dir services d = usize_max)"
  unfolding Let_def
  by (rule conjI [OF by_name.lookup_law [OF assms, of nm] by_dir.lookup_law [OF assms, of d]])

text \<open>C33. A wait status is decoded as POSIX encodes it: an exit code, a signal with or without a
  core dump, or a stop, which does not count as an end.\<close>

theorem wait_status_decoded:
  "0 \<le> c \<Longrightarrow> c < 256 \<Longrightarrow> 0 < g \<Longrightarrow> g < 127 \<Longrightarrow> core \<in> {0, 128} \<Longrightarrow>
   decode_wait_status (c * 256) = (STATE_EXITED, c, 0) \<and>
   decode_wait_status (g + core) = (STATE_SIGNALED, 0, g) \<and>
   decode_wait_status (c * 256 + 127) = (STATE_DOWN, 0, 0)"
proof -
  assume a: "0 \<le> c" "c < 256" "0 < g" "g < 127" "core \<in> {0, 128}"
  have "128 * x mod 128 = 0" "(127 + 128 * x) mod 128 = 127" for x :: int by simp_all
  from this [of "2 * c"] have "c * 256 mod 128 = 0" "(c * 256 + 127) mod 128 = 127"
    by (simp_all add: algebra_simps)
  moreover have "(g + core) mod 128 = g" using a by auto
  ultimately show ?thesis using a by (simp add: decode_wait_status_eq)
qed

theorem wait_status_decoded_witness:
  "decode_wait_status (3 * 256) = (STATE_EXITED, 3, 0) \<and>
   decode_wait_status (9 + 128) = (STATE_SIGNALED, 0, 9)"
  using wait_status_decoded [of 3 9 128] by simp

end
