(* ===== verification/Service_Stop.thy ===== *)
theory Service_Stop
  imports Service_Table
begin

text \<open>
  Stopping services (\<open>stop_transitive_deps\<close>, \<open>stop_all_in_order\<close>, \<open>kill_main_on_log_death\<close>
  and the two small functions after them in \<open>src/service.rs\<close>), with what each of them stops
  and in which order.
\<close>

section \<open>Operations\<close>

text \<open>The inner loop of \<open>stop_transitive_deps\<close>: some hard dependency is missing or not running.\<close>

fun depends_loop :: "service list \<Rightarrow> dependency list \<Rightarrow> bool" where
  "depends_loop services [] = False"
| "depends_loop services (d # ds) =
     (if soft d then depends_loop services ds
      else let dep_idx = find_service_by_name services (dep_bytes d)
           in if dep_idx = usize_max \<or> state (services ! dep_idx) \<noteq> STATE_RUNNING then True
              else depends_loop services ds)"

definition std_step :: "os \<Rightarrow> nat \<Rightarrow> bool \<times> service list \<times> world \<Rightarrow> bool \<times> service list \<times> world" where
  "std_step os i st =
     (case st of (changed, services, w) \<Rightarrow>
        let s = services ! i
        in if \<not> active s \<or> stopping s \<or> pid s \<le> 0 \<or> state s \<noteq> STATE_RUNNING then st
           else if depends_loop services (take (deps_count s) (deps s))
           then let s = s\<lparr>stopping := True\<rparr>;
                    s = s\<lparr>state := STATE_STOPPING\<rparr>;
                    w = sys_kill (- pid s) SIGTERM w
                in (True, services[i := s], write_status_file os s w)
           else st)"

definition std_pass :: "os \<Rightarrow> service list \<Rightarrow> world \<Rightarrow> bool \<times> service list \<times> world" where
  "std_pass os services w = fold (std_step os) [0..<length services] (False, services, w)"

text \<open>Each pass that changes something takes a service out of the running state, so the outer
  loop ends.\<close>

definition running_count :: "service list \<Rightarrow> nat" where
  "running_count services = length (filter (\<lambda>s. state s = STATE_RUNNING) services)"

lemma running_count_update:
  "i < length ss \<Longrightarrow> state (ss ! i) = STATE_RUNNING \<Longrightarrow> state s \<noteq> STATE_RUNNING \<Longrightarrow>
   Suc (running_count (ss[i := s])) = running_count ss"
proof (induction ss arbitrary: i)
  case (Cons t ss)
  then show ?case by (cases i) (auto simp: running_count_def)
qed simp

lemma std_step_count:
  assumes "std_step os i (c, ss, w) = (c', ss', w')" "i < length ss"
  shows "length ss' = length ss \<and> running_count ss' + (if c' then 1 else 0)
    \<le> running_count ss + (if c then 1 else 0) \<and> running_count ss' \<le> running_count ss"
  using assms running_count_update [of i ss "(ss ! i)\<lparr>stopping := True, state := STATE_STOPPING\<rparr>"]
  by (auto simp: std_step_def Let_def split: if_splits)

lemma std_fold_count:
  assumes "fold (std_step os) is (c, ss, w) = (c', ss', w')" "\<forall>i \<in> set is. i < length ss"
  shows "length ss' = length ss \<and> running_count ss' + (if c' then 1 else 0)
    \<le> running_count ss + (if c then 1 else 0) \<and> running_count ss' \<le> running_count ss"
  using assms
proof (induction "is" arbitrary: c ss w)
  case (Cons i "is")
  obtain c1 ss1 w1 where step: "std_step os i (c, ss, w) = (c1, ss1, w1)"
    by (cases "std_step os i (c, ss, w)") auto
  note count = std_step_count [OF step]
  have "length ss' = length ss1 \<and> running_count ss' + (if c' then 1 else 0)
      \<le> running_count ss1 + (if c1 then 1 else 0) \<and> running_count ss' \<le> running_count ss1"
    using Cons.prems step count by (intro Cons.IH [of c1 ss1 w1]) auto
  with count Cons.prems show ?case by auto
qed simp

lemma std_pass_count: "std_pass os services w = (True, services', w') \<Longrightarrow>
  running_count services' < running_count services"
  unfolding std_pass_def by (drule std_fold_count) auto

function stop_transitive_deps :: "os \<Rightarrow> service list \<Rightarrow> world \<Rightarrow> service list \<times> world" where
  "stop_transitive_deps os services w =
     (case std_pass os services w of
        (changed, services', w') \<Rightarrow>
          if changed then stop_transitive_deps os services' w' else (services', w'))"
  by pat_completeness auto
termination
  by (relation "measure (\<lambda>(os, services, w). running_count services)")
    (auto dest!: std_pass_count [OF sym])

declare stop_transitive_deps.simps [simp del]

text \<open>\<open>stop_all_in_order\<close>: the arrays \<open>order\<close> and \<open>remaining\<close>, filled in passes over the table.\<close>

fun sao_waits :: "service list \<Rightarrow> bool list \<Rightarrow> dependency list \<Rightarrow> bool" where
  "sao_waits services remaining [] = False"
| "sao_waits services remaining (d # ds) =
     (if soft d then sao_waits services remaining ds
      else let dep_idx = find_service_by_name services (dep_bytes d)
           in if dep_idx \<noteq> usize_max \<and> remaining ! dep_idx then True
              else sao_waits services remaining ds)"

definition sao_init :: "nat \<Rightarrow> service \<Rightarrow> bool list \<times> nat \<Rightarrow> bool list \<times> nat" where
  "sao_init i s rc =
     (case rc of (remaining, count) \<Rightarrow>
        if active s \<and> (state s = STATE_RUNNING \<or> state s = STATE_STOPPING)
        then (remaining[i := True], count + 1) else rc)"

definition sao_step :: "service list \<Rightarrow> nat \<Rightarrow> nat list \<times> bool list \<times> nat \<times> bool \<Rightarrow>
    nat list \<times> bool list \<times> nat \<times> bool" where
  "sao_step services i st =
     (case st of (order, remaining, pos, found) \<Rightarrow>
        if \<not> remaining ! i then st
        else let s = services ! i
             in if \<not> sao_waits services remaining (take (deps_count s) (deps s))
                then (order[pos := i], remaining[i := False], pos + 1, True)
                else st)"

definition sao_pass :: "service list \<Rightarrow> nat list \<Rightarrow> bool list \<Rightarrow> nat \<Rightarrow>
    nat list \<times> bool list \<times> nat \<times> bool" where
  "sao_pass services order remaining pos =
     fold (sao_step services) [0..<length services] (order, remaining, pos, False)"

lemma sao_fold_pos:
  "fold (sao_step services) is (order, remaining, pos, found) = (order', remaining', pos', found')
   \<Longrightarrow> pos \<le> pos' \<and> (found' \<longrightarrow> found \<or> pos < pos')"
proof (induction "is" arbitrary: order remaining pos found)
  case (Cons i "is")
  obtain o1 r1 p1 f1 where step: "sao_step services i (order, remaining, pos, found) = (o1, r1, p1, f1)"
    by (cases "sao_step services i (order, remaining, pos, found)") auto
  then have "pos \<le> p1 \<and> (f1 \<longrightarrow> found \<or> pos < p1)"
    by (auto simp: sao_step_def Let_def split: if_splits)
  moreover have "p1 \<le> pos' \<and> (found' \<longrightarrow> f1 \<or> p1 < pos')"
    using Cons.prems step by (intro Cons.IH [of o1 r1 p1 f1]) simp
  ultimately show ?case by auto
qed simp

lemma sao_pass_pos: "sao_pass services order remaining pos = (order', remaining', pos', True) \<Longrightarrow>
  pos < pos'"
  unfolding sao_pass_def by (drule sao_fold_pos) auto

function sao_loop :: "service list \<Rightarrow> nat \<Rightarrow> nat list \<Rightarrow> bool list \<Rightarrow> nat \<Rightarrow>
    nat list \<times> bool list \<times> nat" where
  "sao_loop services count order remaining pos =
     (if pos < count
      then case sao_pass services order remaining pos of
             (order', remaining', pos', found) \<Rightarrow>
               if \<not> found then (order', remaining', pos')
               else sao_loop services count order' remaining' pos'
      else (order, remaining, pos))"
  by pat_completeness auto
termination
  by (relation "measure (\<lambda>(services, count, order, remaining, pos). count - pos)")
    (auto dest!: sao_pass_pos [OF sym])

declare sao_loop.simps [simp del]

definition sao_stop :: "os \<Rightarrow> nat \<Rightarrow> service list \<times> world \<Rightarrow> service list \<times> world" where
  "sao_stop os idx st =
     (case st of (services, w) \<Rightarrow>
        let s = services ! idx;
            (s, w) = (if active s \<and> pid s > 0
                      then let w = sys_kill (- pid s) SIGTERM w;
                               s = s\<lparr>stopping := True\<rparr>;
                               s = s\<lparr>state := STATE_STOPPING\<rparr>
                           in (s, write_status_file os s w)
                      else (s, w));
            (s, w) = (if log_pid s > 0 \<and> \<not> log_stopping s
                      then (s\<lparr>log_stopping := True\<rparr>, sys_kill (log_pid s) SIGTERM w)
                      else (s, w))
        in (services[idx := s], w))"

definition sao_rest :: "bool list \<Rightarrow> nat \<Rightarrow> service list \<times> world \<Rightarrow> service list \<times> world" where
  "sao_rest remaining i st =
     (case st of (services, w) \<Rightarrow>
        let s = services ! i;
            (s, w) = (if remaining ! i \<and> active s \<and> pid s > 0
                      then (s\<lparr>stopping := True, state := STATE_STOPPING\<rparr>,
                            sys_kill (- pid s) SIGTERM w)
                      else (s, w));
            (s, w) = (if remaining ! i \<and> active s \<and> log_pid s > 0 \<and> \<not> log_stopping s
                      then (s\<lparr>log_stopping := True\<rparr>, sys_kill (log_pid s) SIGTERM w)
                      else (s, w))
        in (services[i := s], w))"

definition stop_order :: "service list \<Rightarrow> nat list \<times> bool list" where
  "stop_order services =
     (let order = replicate MAX_SERVICES 0;
          remaining = replicate MAX_SERVICES False;
          (remaining, count) =
            fold (\<lambda>i. sao_init i (services ! i)) [0..<length services] (remaining, 0);
          (order, remaining, pos) = sao_loop services count order remaining 0
      in (take pos order, remaining))"

definition stop_all_in_order :: "os \<Rightarrow> service list \<Rightarrow> world \<Rightarrow> service list \<times> world" where
  "stop_all_in_order os services w =
     (let (order, remaining) = stop_order services;
          (services, w) = fold (sao_stop os) order (services, w)
      in fold (sao_rest remaining) [0..<length services] (services, w))"

definition kill_main_step :: "os \<Rightarrow> service \<Rightarrow> world \<Rightarrow> service \<times> world" where
  "kill_main_step os s w =
     (if active s \<and> has_log s \<and> log_pid s \<le> 0 \<and> pid s > 0 \<and> \<not> stopping s \<and> state s = STATE_RUNNING
      then let w = supervisor_log os ''log process died, stopping main service: '' w;
               w = supervisor_log os (name_bytes s) w;
               w = sys_kill (- pid s) SIGTERM w;
               s = s\<lparr>stopping := True\<rparr>;
               s = s\<lparr>state := STATE_STOPPING\<rparr>
           in (s, write_status_file os s w)
      else (s, w))"

definition kill_main_on_log_death :: "os \<Rightarrow> service list \<Rightarrow> world \<Rightarrow> service list \<times> world" where
  "kill_main_on_log_death os services w = each (kill_main_step os) services w"

definition any_open_services :: "service list \<Rightarrow> bool" where
  "any_open_services services \<longleftrightarrow>
     list_ex (\<lambda>s. active s \<and> (pid s > 0 \<or> read_fd (streams s ! 0) \<ge> 0 \<or>
        read_fd (streams s ! 1) \<ge> 0 \<or> log_pid s > 0)) services"

definition close_stream_fds :: "os \<Rightarrow> nat \<Rightarrow> service \<times> world \<Rightarrow> service \<times> world" where
  "close_stream_fds os i sw =
     (case sw of (s, w) \<Rightarrow>
        let w = close_fd os (read_fd (streams s ! i)) w;
            w = close_fd os (log_fd (streams s ! i)) w;
            s = upd_stream i (\<lambda>st. st\<lparr>read_fd := -1\<rparr>) s;
            s = upd_stream i (\<lambda>st. st\<lparr>log_fd := -1\<rparr>) s
        in (s, w))"

definition close_service_fds :: "os \<Rightarrow> service \<Rightarrow> world \<Rightarrow> service \<times> world" where
  "close_service_fds os s w = fold (close_stream_fds os) [0..<2] (s, w)"

section \<open>What \<open>stop_transitive_deps\<close> stops\<close>

definition eligible :: "service \<Rightarrow> bool" where
  "eligible s \<longleftrightarrow> active s \<and> \<not> stopping s \<and> pid s > 0 \<and> state s = STATE_RUNNING"

definition mark_stopping :: "service \<Rightarrow> service" where
  "mark_stopping s = s\<lparr>stopping := True, state := STATE_STOPPING\<rparr>"

text \<open>The services to stop: those that run and have a hard dependency that is not up, or that
  has to be stopped itself.\<close>

inductive must_stop :: "service list \<Rightarrow> nat \<Rightarrow> bool" for services where
  dep_down: "i < length services \<Longrightarrow> eligible (services ! i) \<Longrightarrow>
    nm \<in> set (hard_deps (services ! i)) \<Longrightarrow> \<not> is_up services nm \<Longrightarrow> must_stop services i"
| dep_stops: "i < length services \<Longrightarrow> eligible (services ! i) \<Longrightarrow>
    nm \<in> set (hard_deps (services ! i)) \<Longrightarrow>
    must_stop services (find_service_by_name services nm) \<Longrightarrow> must_stop services i"

inductive_cases must_stopE: "must_stop services i"

lemma must_stop_eligible: "must_stop services i \<Longrightarrow> i < length services \<and> eligible (services ! i)"
  by (erule must_stopE) simp_all

definition marked :: "service list \<Rightarrow> nat set \<Rightarrow> service list" where
  "marked services S =
     map (\<lambda>i. if i \<in> S then mark_stopping (services ! i) else services ! i) [0..<length services]"

lemma marked_simps [simp]:
  "length (marked services S) = length services"
  "i < length services \<Longrightarrow> marked services S ! i =
     (if i \<in> S then mark_stopping (services ! i) else services ! i)"
  "marked services {} = services"
  by (simp_all add: marked_def map_nth)

lemma marked_insert: "i < length services \<Longrightarrow>
  (marked services S)[i := mark_stopping (services ! i)] = marked services (insert i S)"
  by (rule nth_equalityI) (auto simp: nth_list_update)

lemma mark_stopping_sel [simp]:
  "active (mark_stopping s) = active s" "name_bytes (mark_stopping s) = name_bytes s"
  "dir_bytes (mark_stopping s) = dir_bytes s" "hard_deps (mark_stopping s) = hard_deps s"
  "pid (mark_stopping s) = pid s" "state (mark_stopping s) = STATE_STOPPING"
  "stopping (mark_stopping s)" "\<not> eligible (mark_stopping s)"
  by (simp_all add: mark_stopping_def name_bytes_def dir_bytes_def hard_deps_def eligible_def)

lemma find_marked: "length services < usize_max \<Longrightarrow>
  find_service_by_name (marked services S) nm = find_service_by_name services nm"
  by (rule by_name.cong) auto

lemma is_up_marked: "length services < usize_max \<Longrightarrow>
  is_up (marked services S) nm \<longleftrightarrow> is_up services nm \<and> find_service_by_name services nm \<notin> S"
  using by_name.found [of services nm] by (auto simp: is_up_def Let_def find_marked split: if_splits)

lemma depends_loop_eq: "depends_loop services ds = (\<not> deps_loop services ds)"
  by (induction ds) (simp_all add: Let_def)

lemma depends_loop_iff:
  "depends_loop services (take (deps_count s) (deps s)) \<longleftrightarrow>
   (\<exists>nm \<in> set (hard_deps s). \<not> is_up services nm)"
  using deps_satisfied_iff [of s services] by (auto simp: depends_loop_eq deps_satisfied_def)

definition newly :: "service list \<Rightarrow> nat set \<Rightarrow> nat \<Rightarrow> bool" where
  "newly services S i \<longleftrightarrow> i \<notin> S \<and> eligible (services ! i) \<and>
     (\<exists>nm \<in> set (hard_deps (services ! i)). \<not> is_up (marked services S) nm)"

definition term_group :: "service list \<Rightarrow> nat \<Rightarrow> int \<times> int" where
  "term_group services i = (- pid (services ! i), SIGTERM)"

lemma std_step_marked:
  assumes "i < length services"
  shows "\<exists>w'. std_step os i (c, marked services S, w) =
      (if newly services S i then (True, marked services (insert i S), w')
       else (c, marked services S, w)) \<and>
    kill_log w' = kill_log w @ [term_group services i]"
proof (cases "newly services S i")
  case True
  let ?w = "write_status_file os (mark_stopping (services ! i)) (sys_kill (- pid (services ! i)) SIGTERM w)"
  from True assms have "std_step os i (c, marked services S, w) = (True, marked services (insert i S), ?w)"
    by (auto simp: std_step_def Let_def newly_def eligible_def depends_loop_iff
        marked_insert [symmetric] mark_stopping_def)
  with True show ?thesis by (intro exI [of _ ?w]) (simp add: term_group_def)
next
  case False
  with assms have "std_step os i (c, marked services S, w) = (c, marked services S, w)"
    by (auto simp: std_step_def Let_def newly_def eligible_def depends_loop_iff)
  with False show ?thesis
    by (intro exI [of _ "sys_kill (- pid (services ! i)) SIGTERM w"]) (simp add: term_group_def)
qed

lemma newly_must_stop:
  assumes "length services < usize_max" "i < length services" "newly services S i"
    "\<forall>j \<in> S. must_stop services j"
  shows "must_stop services i"
proof -
  from assms(3) obtain nm where "nm \<in> set (hard_deps (services ! i))" "eligible (services ! i)"
    "\<not> is_up services nm \<or> find_service_by_name services nm \<in> S"
    by (auto simp: newly_def is_up_marked [OF assms(1)])
  with assms show ?thesis by (blast intro: must_stop.intros)
qed

lemma must_stop_closed:
  assumes "length services < usize_max" "\<forall>i < length services. \<not> newly services S i"
    "must_stop services i"
  shows "i \<in> S"
  using assms(3)
  by induction (use assms(1,2) in \<open>auto simp: newly_def is_up_marked\<close>)

lemma std_fold_marked:
  assumes "length services < usize_max"
  shows "\<forall>i \<in> set is. i < length services \<Longrightarrow> \<forall>j \<in> S. must_stop services j \<Longrightarrow>
   \<exists>ks w'. fold (std_step os) is (c, marked services S, w) =
       (c \<or> ks \<noteq> [], marked services (S \<union> set ks), w') \<and>
     distinct ks \<and> set ks \<inter> S = {} \<and> (\<forall>k \<in> set ks. must_stop services k) \<and>
     kill_log w' = kill_log w @ map (term_group services) ks \<and>
     (ks = [] \<longrightarrow> (\<forall>i \<in> set is. \<not> newly services S i))"
proof (induction "is" arbitrary: c S w)
  case Nil
  then show ?case by (intro exI [of _ "[]"] exI [of _ w]) simp
next
  case (Cons i "is")
  then have i: "i < length services" and is_lt: "\<forall>i \<in> set is. i < length services" by simp_all
  obtain w1 where step: "std_step os i (c, marked services S, w) =
      (if newly services S i then (True, marked services (insert i S), w1)
       else (c, marked services S, w))"
    and kl: "kill_log w1 = kill_log w @ [term_group services i]"
    using std_step_marked [OF i] by blast
  show ?case
  proof (cases "newly services S i")
    case False
    with step Cons.IH [OF is_lt Cons.prems(2), of c w] show ?thesis by auto
  next
    case True
    then have "\<forall>j \<in> insert i S. must_stop services j"
      using newly_must_stop [OF assms i] Cons.prems(2) by blast
    from Cons.IH [OF is_lt this, of True w1] obtain ks w' where
      ks: "fold (std_step os) is (True, marked services (insert i S), w1) =
        (True, marked services (insert i S \<union> set ks), w')" "distinct ks" "set ks \<inter> insert i S = {}"
        "\<forall>k \<in> set ks. must_stop services k"
        "kill_log w' = kill_log w1 @ map (term_group services) ks" by auto
    have "i \<notin> S" using True by (simp add: newly_def)
    then show ?thesis
      using ks kl step True \<open>\<forall>j \<in> insert i S. must_stop services j\<close>
      by (intro exI [of _ "i # ks"] exI [of _ w']) auto
  qed
qed

lemma stop_transitive_marked:
  assumes "length services < usize_max" "\<forall>j \<in> S. must_stop services j"
  shows "\<exists>ks w'. stop_transitive_deps os (marked services S) w =
      (marked services (Collect (must_stop services)), w') \<and>
    distinct ks \<and> set ks = Collect (must_stop services) - S \<and>
    kill_log w' = kill_log w @ map (term_group services) ks"
  using assms(2)
proof (induction "card (Collect (must_stop services) - S)" arbitrary: S w rule: less_induct)
  case less
  have fin: "finite (Collect (must_stop services))"
    by (rule finite_subset [of _ "{..<length services}"]) (auto dest: must_stop_eligible)
  obtain ks w1 where pass: "std_pass os (marked services S) w =
      (ks \<noteq> [], marked services (S \<union> set ks), w1)" "distinct ks" "set ks \<inter> S = {}"
      "\<forall>k \<in> set ks. must_stop services k" "kill_log w1 = kill_log w @ map (term_group services) ks"
      "ks = [] \<longrightarrow> (\<forall>i < length services. \<not> newly services S i)"
    using std_fold_marked [OF assms(1) _ less.prems, of "[0..<length services]" os False w]
    by (auto simp: std_pass_def)
  show ?case
  proof (cases "ks = []")
    case True
    with pass(6) must_stop_closed [OF assms(1)] less.prems have "S = Collect (must_stop services)"
      by blast
    with True pass show ?thesis
      by (intro exI [of _ "[]"] exI [of _ w1]) (simp add: stop_transitive_deps.simps [of os _ w])
  next
    case False
    let ?S = "S \<union> set ks"
    have S: "\<forall>j \<in> ?S. must_stop services j" using less.prems pass(4) by blast
    obtain k where "k \<in> set ks" using False by (cases ks) auto
    then have "Collect (must_stop services) - ?S \<subset> Collect (must_stop services) - S"
      using pass(3,4) by blast
    then have "card (Collect (must_stop services) - ?S) < card (Collect (must_stop services) - S)"
      using fin by (simp add: psubset_card_mono)
    from less.hyps [OF this S, of w1] obtain ks' w' where
      "stop_transitive_deps os (marked services ?S) w1 =
        (marked services (Collect (must_stop services)), w')" "distinct ks'"
      "set ks' = Collect (must_stop services) - ?S"
      "kill_log w' = kill_log w1 @ map (term_group services) ks'" by blast
    with pass False show ?thesis
      by (intro exI [of _ "ks @ ks'"] exI [of _ w'])
        (auto simp: stop_transitive_deps.simps [of os _ w])
  qed
qed

section \<open>The order of \<open>stop_all_in_order\<close>\<close>

text \<open>The services to stop at shutdown, and which of them the array \<open>remaining\<close> still holds.\<close>

definition to_stop :: "service list \<Rightarrow> nat set" where
  "to_stop services = {i. i < length services \<and> active (services ! i) \<and>
     (state (services ! i) = STATE_RUNNING \<or> state (services ! i) = STATE_STOPPING)}"

definition still :: "bool list \<Rightarrow> nat set" where
  "still remaining = {i. i < length remaining \<and> remaining ! i}"

text \<open>The indices of the hard dependencies of entry \<open>i\<close>.\<close>

definition dep_indices :: "service list \<Rightarrow> nat \<Rightarrow> nat set" where
  "dep_indices services i = find_service_by_name services ` set (hard_deps (services ! i))"

lemma sao_waits_iff:
  "length services < usize_max \<Longrightarrow> length services \<le> length remaining \<Longrightarrow>
   sao_waits services remaining (take (deps_count (services ! i)) (deps (services ! i))) \<longleftrightarrow>
   (\<exists>j \<in> dep_indices services i. j \<noteq> usize_max \<and> j \<in> still remaining)"
proof -
  assume len: "length services < usize_max" "length services \<le> length remaining"
  have "sao_waits services remaining ds \<longleftrightarrow> (\<exists>d \<in> set ds. \<not> soft d \<and>
      find_service_by_name services (dep_bytes d) \<noteq> usize_max \<and>
      remaining ! find_service_by_name services (dep_bytes d))" for ds
    by (induction ds) (simp_all add: Let_def)
  moreover have "find_service_by_name services nm < length remaining"
    if "find_service_by_name services nm \<noteq> usize_max" for nm
    using by_name.found [OF len(1) that] len(2) by simp
  ultimately show ?thesis by (auto simp: dep_indices_def hard_deps_def still_def)
qed

lemma sao_init_fold:
  assumes "length services \<le> MAX_SERVICES" "k \<le> length services"
  shows "fold (\<lambda>i. sao_init i (services ! i)) [0..<k] (replicate MAX_SERVICES False, 0) =
    (map (\<lambda>i. i \<in> to_stop services \<and> i < k) [0..<MAX_SERVICES],
     card (to_stop services \<inter> {..<k}))"
  using assms(2)
proof (induction k)
  case 0
  show ?case by (simp add: map_replicate_const)
next
  case (Suc k)
  let ?r = "\<lambda>k. map (\<lambda>i. i \<in> to_stop services \<and> i < k) [0..<MAX_SERVICES]"
  have stop: "k \<in> to_stop services \<longleftrightarrow> active (services ! k) \<and>
      (state (services ! k) = STATE_RUNNING \<or> state (services ! k) = STATE_STOPPING)"
    using Suc.prems by (simp add: to_stop_def)
  have arr: "(?r k)[k := True] = ?r (Suc k)" if "k \<in> to_stop services"
    using that Suc.prems assms(1) by (intro nth_equalityI) (auto simp: nth_list_update less_Suc_eq)
  have same: "?r (Suc k) = ?r k" if "k \<notin> to_stop services"
    using that by (auto simp: less_Suc_eq)
  have "to_stop services \<inter> {..<Suc k} = (if k \<in> to_stop services
      then insert k (to_stop services \<inter> {..<k}) else to_stop services \<inter> {..<k})"
    by (auto simp: less_Suc_eq)
  then have card: "card (to_stop services \<inter> {..<Suc k}) = card (to_stop services \<inter> {..<k}) +
      (if k \<in> to_stop services then 1 else 0)" by simp
  have "fold (\<lambda>i. sao_init i (services ! i)) [0..<Suc k] (replicate MAX_SERVICES False, 0) =
      sao_init k (services ! k) (?r k, card (to_stop services \<inter> {..<k}))"
    using Suc by simp
  also have "\<dots> = (?r (Suc k), card (to_stop services \<inter> {..<Suc k}))"
    using arr same unfolding card sao_init_def stop [symmetric] by simp
  finally show ?case .
qed

text \<open>What holds of \<open>order\<close>, \<open>remaining\<close> and \<open>pos\<close> throughout.\<close>

definition sao_inv :: "service list \<Rightarrow> nat list \<Rightarrow> bool list \<Rightarrow> nat \<Rightarrow> bool" where
  "sao_inv services order remaining pos \<longleftrightarrow>
     length order = MAX_SERVICES \<and> length remaining = MAX_SERVICES \<and> pos \<le> MAX_SERVICES \<and>
     distinct (take pos order) \<and> still remaining \<subseteq> to_stop services \<and>
     set (take pos order) = to_stop services - still remaining \<and>
     (\<forall>k < pos. \<forall>j \<in> dep_indices services (order ! k).
        j \<in> to_stop services \<longrightarrow> j \<in> set (take k order))"

lemma still_update: "still (remaining[i := False]) = still remaining - {i}"
proof -
  have "j \<in> still (remaining[i := False]) \<longleftrightarrow> j \<in> still remaining - {i}" for j
    by (cases "j = i") (auto simp: still_def)
  then show ?thesis by blast
qed

lemma finite_to_stop: "finite (to_stop services)" and card_to_stop: "card (to_stop services) \<le> length services"
proof -
  have "to_stop services \<subseteq> {..<length services}" by (auto simp: to_stop_def)
  then show "finite (to_stop services)" "card (to_stop services) \<le> length services"
    using finite_subset card_mono [of "{..<length services}" "to_stop services"] by auto
qed

lemma sao_inv_pos: "sao_inv services order remaining pos \<Longrightarrow>
  pos = card (to_stop services - still remaining)"
  using distinct_card [of "take pos order"] by (simp add: sao_inv_def)

lemma sao_step_inv:
  assumes inv: "sao_inv services order remaining pos" and i: "i < length services"
    and len: "length services \<le> MAX_SERVICES"
    and go: "i \<in> still remaining" "\<not> (\<exists>j \<in> dep_indices services i. j \<noteq> usize_max \<and> j \<in> still remaining)"
  shows "sao_inv services (order[pos := i]) (remaining[i := False]) (pos + 1)"
proof -
  have "i \<in> to_stop services" using inv go by (auto simp: sao_inv_def)
  then have "to_stop services - still remaining \<subset> to_stop services" using go by blast
  then have "card (to_stop services - still remaining) < card (to_stop services)"
    by (rule psubset_card_mono [OF finite_to_stop])
  then have pos: "pos < MAX_SERVICES" using sao_inv_pos [OF inv] card_to_stop len
    by (meson order.strict_trans2 order_trans)
  have take1: "take (pos + 1) (order[pos := i]) = take pos order @ [i]"
    using pos inv by (simp add: sao_inv_def take_Suc_conv_app_nth)
  have topo: "j \<in> set (take k (order[pos := i]))"
    if k: "k < pos + 1" and j: "j \<in> dep_indices services (order[pos := i] ! k)" "j \<in> to_stop services" for k j
  proof (cases "k < pos")
    case True
    with inv k j show ?thesis by (simp add: sao_inv_def)
  next
    case False
    then have "k = pos" using k by simp
    with j pos inv have "j \<in> dep_indices services i" by (simp add: sao_inv_def)
    moreover have "j \<noteq> usize_max" using j len by (auto simp: to_stop_def)
    ultimately have "j \<in> to_stop services - still remaining" using go j by blast
    with inv \<open>k = pos\<close> show ?thesis by (simp add: sao_inv_def)
  qed
  have "i \<notin> set (take pos order)" using inv go by (simp add: sao_inv_def)
  with inv pos topo \<open>i \<in> to_stop services\<close> go show ?thesis
    unfolding sao_inv_def take1 still_update by auto
qed

lemma sao_fold_inv:
  assumes len: "length services \<le> MAX_SERVICES"
  shows "sao_inv services order remaining pos \<Longrightarrow> \<forall>i \<in> set is. i < length services \<Longrightarrow>
   fold (sao_step services) is (order, remaining, pos, found) = (order', remaining', pos', found') \<Longrightarrow>
   sao_inv services order' remaining' pos' \<and>
   (\<not> found' \<longrightarrow> remaining' = remaining \<and> pos' = pos \<and>
     (\<forall>i \<in> set is. i \<in> still remaining \<longrightarrow>
        (\<exists>j \<in> dep_indices services i. j \<noteq> usize_max \<and> j \<in> still remaining)))"
proof (induction "is" arbitrary: order remaining pos found)
  case (Cons i "is")
  let ?waits = "\<exists>j \<in> dep_indices services i. j \<noteq> usize_max \<and> j \<in> still remaining"
  have i: "i < length services" and lr: "length remaining = MAX_SERVICES"
    using Cons.prems by (simp_all add: sao_inv_def)
  have "sao_waits services remaining (take (deps_count (services ! i)) (deps (services ! i))) = ?waits"
    using len lr by (intro sao_waits_iff) simp_all
  then have step: "sao_step services i (order, remaining, pos, found) =
      (if i \<in> still remaining \<and> \<not> ?waits then (order[pos := i], remaining[i := False], pos + 1, True)
       else (order, remaining, pos, found))"
    using i len lr by (simp add: sao_step_def Let_def still_def)
  show ?case
  proof (cases "i \<in> still remaining \<and> \<not> ?waits")
    case True
    have fold: "fold (sao_step services) is (order[pos := i], remaining[i := False], pos + 1, True) =
        (order', remaining', pos', found')" using Cons.prems(3) step True by simp
    have found': "found'"
    proof -
      have "snd (snd (snd (fold (sao_step services) is st)))" if "snd (snd (snd st))" for "is" st
        using that by (induction "is" arbitrary: st) (auto simp: sao_step_def Let_def split: prod.splits)
      from this [of "(order[pos := i], remaining[i := False], pos + 1, True)" "is"] fold
      show ?thesis by simp
    qed
    from Cons.IH [OF sao_step_inv [OF Cons.prems(1) i len] _ fold] True Cons.prems(2) found'
    show ?thesis by simp
  next
    case False
    then have "sao_step services i (order, remaining, pos, found) = (order, remaining, pos, found)"
      unfolding step by (rule if_not_P)
    then have "fold (sao_step services) is (order, remaining, pos, found) =
        (order', remaining', pos', found')" using Cons.prems(3) by simp
    from Cons.IH [OF Cons.prems(1) _ this] Cons.prems(2) False show ?thesis by simp
  qed
qed simp

lemma sao_loop_inv:
  "length services \<le> MAX_SERVICES \<Longrightarrow> count = card (to_stop services) \<Longrightarrow>
   sao_inv services order remaining pos \<Longrightarrow>
   sao_loop services count order remaining pos = (order', remaining', pos') \<Longrightarrow>
   sao_inv services order' remaining' pos' \<and>
   (\<forall>i \<in> still remaining'. \<exists>j \<in> dep_indices services i. j \<in> still remaining')"
proof (induction services count order remaining pos rule: sao_loop.induct)
  case (1 services count order remaining pos)
  show ?case
  proof (cases "pos < count")
    case False
    then have "sao_inv services order' remaining' pos'" "pos' = pos" "remaining' = remaining"
      using "1.prems" by (simp_all add: sao_loop.simps)
    moreover have "\<not> card (to_stop services - still remaining) < card (to_stop services)"
      using False sao_inv_pos [OF "1.prems"(3)] "1.prems"(2) by simp
    then have "\<not> (to_stop services - still remaining \<subset> to_stop services)"
      using psubset_card_mono [OF finite_to_stop] by blast
    then have "still remaining = {}" using "1.prems"(3) by (auto simp: sao_inv_def)
    ultimately show ?thesis by simp
  next
    case True
    obtain o1 r1 p1 f1 where pass: "sao_pass services order remaining pos = (o1, r1, p1, f1)"
      by (cases "sao_pass services order remaining pos") auto
    from sao_fold_inv [OF "1.prems"(1,3), of "[0..<length services]" False o1 r1 p1 f1] pass
    have inv1: "sao_inv services o1 r1 p1" and stuck: "\<not> f1 \<longrightarrow> r1 = remaining \<and> (\<forall>i < length services.
        i \<in> still remaining \<longrightarrow> (\<exists>j \<in> dep_indices services i. j \<noteq> usize_max \<and> j \<in> still remaining))"
      by (simp_all add: sao_pass_def)
    show ?thesis
    proof (cases f1)
      case False
      then have eq: "order' = o1" "remaining' = r1" "pos' = p1"
        using "1.prems"(4) True pass by (simp_all add: sao_loop.simps)
      have "i < length services" if "i \<in> still r1" for i
        using that inv1 by (auto simp: sao_inv_def to_stop_def)
      with stuck False inv1 show ?thesis unfolding eq by blast
    next
      case f1: True
      have "sao_loop services count o1 r1 p1 = (order', remaining', pos')"
        using "1.prems"(4) True pass f1 by (simp add: sao_loop.simps [of _ _ order])
      from "1.IH" [OF True pass [symmetric] refl refl _ "1.prems"(1,2) inv1 this] f1
      show ?thesis by simp
    qed
  qed
qed

text \<open>A service is signalled after the running services it depends on; what is left out of the
  order waits for something that is left out as well.\<close>

lemma stop_order_spec:
  assumes "length services \<le> MAX_SERVICES" "stop_order services = (ord, remaining)"
  shows "distinct ord" "set ord = to_stop services - still remaining"
    "still remaining \<subseteq> to_stop services"
    "\<And>k j. k < length ord \<Longrightarrow> j \<in> dep_indices services (ord ! k) \<Longrightarrow> j \<in> to_stop services \<Longrightarrow>
       j \<in> set (take k ord)"
    "\<And>i. i \<in> still remaining \<Longrightarrow> \<exists>j \<in> dep_indices services i. j \<in> still remaining"
proof -
  let ?r = "map (\<lambda>i. i \<in> to_stop services \<and> i < length services) [0..<MAX_SERVICES]"
  let ?c = "card (to_stop services)"
  have ts: "to_stop services \<inter> {..<length services} = to_stop services" by (auto simp: to_stop_def)
  have init: "fold (\<lambda>i. sao_init i (services ! i)) [0..<length services]
      (replicate MAX_SERVICES False, 0) = (?r, ?c)"
    using sao_init_fold [OF assms(1) order_refl] ts by simp
  have "still ?r = to_stop services" using assms(1) by (auto simp: still_def to_stop_def)
  then have inv0: "sao_inv services (replicate MAX_SERVICES 0) ?r 0" by (simp add: sao_inv_def)
  obtain order' remaining' pos where loop:
    "sao_loop services ?c (replicate MAX_SERVICES 0) ?r 0 = (order', remaining', pos)"
    by (cases "sao_loop services ?c (replicate MAX_SERVICES 0) ?r 0") auto
  have eq: "ord = take pos order'" "remaining = remaining'"
    using assms(2) init loop by (simp_all add: stop_order_def Let_def)
  from sao_loop_inv [OF assms(1) refl inv0 loop]
  have inv: "sao_inv services order' remaining' pos"
    and stuck: "\<forall>i \<in> still remaining'. \<exists>j \<in> dep_indices services i. j \<in> still remaining'" by blast+
  then have "length ord = pos" "\<And>k. k < pos \<Longrightarrow> ord ! k = order' ! k \<and> take k ord = take k order'"
    unfolding eq sao_inv_def by (auto simp: min_def)
  with inv stuck show "distinct ord" "set ord = to_stop services - still remaining"
    "still remaining \<subseteq> to_stop services"
    "\<And>k j. k < length ord \<Longrightarrow> j \<in> dep_indices services (ord ! k) \<Longrightarrow> j \<in> to_stop services \<Longrightarrow>
       j \<in> set (take k ord)"
    "\<And>i. i \<in> still remaining \<Longrightarrow> \<exists>j \<in> dep_indices services i. j \<in> still remaining"
    unfolding sao_inv_def eq by auto
qed

section \<open>What \<open>stop_all_in_order\<close> does\<close>

definition stopped :: "service \<Rightarrow> service" where
  "stopped s = (let s = (if active s \<and> pid s > 0 then mark_stopping s else s)
     in if log_pid s > 0 \<and> \<not> log_stopping s then s\<lparr>log_stopping := True\<rparr> else s)"

definition stop_signals :: "service \<Rightarrow> (int \<times> int) list" where
  "stop_signals s = (if active s \<and> pid s > 0 then [(- pid s, SIGTERM)] else []) @
     (if log_pid s > 0 \<and> \<not> log_stopping s then [(log_pid s, SIGTERM)] else [])"

lemma sao_stop_eq: "\<exists>w'. sao_stop os i (ss, w) = (ss[i := stopped (ss ! i)], w') \<and>
  kill_log w' = kill_log w @ stop_signals (ss ! i)"
  by (auto simp: sao_stop_def stopped_def stop_signals_def Let_def mark_stopping_def)

lemma sao_rest_eq:
  assumes "i < length ss" "remaining ! i \<longrightarrow> active (ss ! i)"
  shows "\<exists>w'. sao_rest remaining i (ss, w) =
      (ss[i := if remaining ! i then stopped (ss ! i) else ss ! i], w') \<and>
    kill_log w' = kill_log w @ (if remaining ! i then stop_signals (ss ! i) else [])"
  using assms by (auto simp: sao_rest_def stopped_def stop_signals_def Let_def mark_stopping_def)

text \<open>A step per index, each index at most once: every entry is changed on its own.\<close>

lemma fold_indices:
  assumes step: "\<And>i ss w. i \<in> set is \<Longrightarrow> i < length ss \<Longrightarrow> P i (ss ! i) \<Longrightarrow>
      \<exists>w'. step i (ss, w) = (ss[i := f i (ss ! i)], w') \<and> kill_log w' = kill_log w @ h i (ss ! i)"
  shows "distinct is \<Longrightarrow> \<forall>i \<in> set is. i < length ss \<and> P i (ss ! i) \<Longrightarrow>
    \<exists>w'. fold step is (ss, w) =
        (map (\<lambda>i. if i \<in> set is then f i (ss ! i) else ss ! i) [0..<length ss], w') \<and>
      kill_log w' = kill_log w @ concat (map (\<lambda>i. h i (ss ! i)) is)"
  using step
proof (induction "is" arbitrary: ss w)
  case Nil
  then show ?case by (simp add: map_nth)
next
  case (Cons i "is")
  obtain w1 where w1: "step i (ss, w) = (ss[i := f i (ss ! i)], w1)"
    "kill_log w1 = kill_log w @ h i (ss ! i)"
    using Cons.prems(1,2) Cons.prems(3) [of i ss w] by auto
  let ?t = "ss[i := f i (ss ! i)]"
  have ne: "?t ! j = ss ! j" if "j \<in> set is" for j
    using that Cons.prems(1) by (metis distinct.simps(2) nth_list_update_neq)
  have "\<forall>j \<in> set is. j < length ?t \<and> P j (?t ! j)" using Cons.prems(2) ne by simp
  then obtain w' where w': "fold step is (?t, w1) =
      (map (\<lambda>j. if j \<in> set is then f j (?t ! j) else ?t ! j) [0..<length ?t], w')"
    "kill_log w' = kill_log w1 @ concat (map (\<lambda>j. h j (?t ! j)) is)"
    using Cons.IH [of ?t w1] Cons.prems(1,3) by auto
  have "map (\<lambda>j. if j \<in> set is then f j (?t ! j) else ?t ! j) [0..<length ?t] =
      map (\<lambda>j. if j \<in> set (i # is) then f j (ss ! j) else ss ! j) [0..<length ss]"
    using Cons.prems(1,2) by (intro nth_equalityI) (auto simp: nth_list_update)
  moreover have "concat (map (\<lambda>j. h j (?t ! j)) is) = concat (map (\<lambda>j. h j (ss ! j)) is)"
    by (rule arg_cong [where f = concat], rule map_cong) (simp_all add: ne)
  ultimately show ?case using w1 w' by (intro exI [of _ w']) simp
qed

lemma stop_all_effect:
  assumes len: "length services \<le> MAX_SERVICES" and ord: "stop_order services = (ord, remaining)"
  shows "\<exists>w'. stop_all_in_order os services w =
      (map (\<lambda>i. if i \<in> to_stop services then stopped (services ! i) else services ! i)
         [0..<length services], w') \<and>
    kill_log w' = kill_log w @
      concat (map (\<lambda>i. stop_signals (services ! i))
        (ord @ filter (\<lambda>i. i \<in> still remaining) [0..<length services]))"
proof -
  note spec = stop_order_spec [OF len ord]
  have lt: "i < length services" if "i \<in> to_stop services" for i using that by (simp add: to_stop_def)
  let ?m = "map (\<lambda>i. if i \<in> set ord then stopped (services ! i) else services ! i) [0..<length services]"
  have "\<exists>w1. fold (sao_stop os) ord (services, w) = (?m, w1) \<and>
    kill_log w1 = kill_log w @ concat (map (\<lambda>i. stop_signals (services ! i)) ord)"
    by (rule fold_indices [where P = "\<lambda>_ _. True"])
      (use sao_stop_eq spec(1,2) lt in auto)
  then obtain w1 where w1: "fold (sao_stop os) ord (services, w) = (?m, w1)"
    "kill_log w1 = kill_log w @ concat (map (\<lambda>i. stop_signals (services ! i)) ord)" by blast
  have lenr: "length remaining = MAX_SERVICES"
  proof -
    obtain o0 r0 p0 where l: "sao_loop services (card (to_stop services)) (replicate MAX_SERVICES 0)
        (map (\<lambda>i. i \<in> to_stop services \<and> i < length services) [0..<MAX_SERVICES]) 0 = (o0, r0, p0)"
      by (cases "sao_loop services (card (to_stop services)) (replicate MAX_SERVICES 0)
        (map (\<lambda>i. i \<in> to_stop services \<and> i < length services) [0..<MAX_SERVICES]) 0") auto
    have ts: "to_stop services \<inter> {..<length services} = to_stop services" by (auto simp: to_stop_def)
    have "still (map (\<lambda>i. i \<in> to_stop services \<and> i < length services) [0..<MAX_SERVICES]) =
        to_stop services" using len by (auto simp: still_def to_stop_def)
    then have "sao_inv services (replicate MAX_SERVICES 0)
        (map (\<lambda>i. i \<in> to_stop services \<and> i < length services) [0..<MAX_SERVICES]) 0"
      by (simp add: sao_inv_def)
    from sao_loop_inv [OF len refl this l] have "length r0 = MAX_SERVICES" by (simp add: sao_inv_def)
    moreover have "remaining = r0"
      using ord l sao_init_fold [OF len order_refl] ts by (simp add: stop_order_def Let_def)
    ultimately show ?thesis by simp
  qed
  let ?f = "\<lambda>i s. if remaining ! i then stopped s else s"
  let ?h = "\<lambda>i s. if remaining ! i then stop_signals s else []"
  have rem: "remaining ! i \<longleftrightarrow> i \<in> still remaining" if "i < length services" for i
    using that lenr len by (simp add: still_def)
  have act: "remaining ! i \<longrightarrow> active (?m ! i)" if "i < length services" for i
    using that rem [OF that] spec(2,3) by (auto simp: to_stop_def)
  have "\<exists>w2. fold (sao_rest remaining) [0..<length services] (?m, w1) =
      (map (\<lambda>i. if i \<in> set [0..<length services] then ?f i (?m ! i) else ?m ! i) [0..<length ?m], w2) \<and>
    kill_log w2 = kill_log w1 @ concat (map (\<lambda>i. ?h i (?m ! i)) [0..<length services])"
    by (rule fold_indices [where P = "\<lambda>i s. remaining ! i \<longrightarrow> active s"])
      (use sao_rest_eq act in auto)
  then obtain w2 where w2: "fold (sao_rest remaining) [0..<length services] (?m, w1) =
      (map (\<lambda>i. if i \<in> set [0..<length services] then ?f i (?m ! i) else ?m ! i) [0..<length ?m], w2)"
    "kill_log w2 = kill_log w1 @ concat (map (\<lambda>i. ?h i (?m ! i)) [0..<length services])" by blast
  have tab: "map (\<lambda>i. if i \<in> set [0..<length services] then ?f i (?m ! i) else ?m ! i) [0..<length ?m] =
      map (\<lambda>i. if i \<in> to_stop services then stopped (services ! i) else services ! i) [0..<length services]"
    using spec(2,3) rem by (intro nth_equalityI) auto
  have "concat (map (\<lambda>i. ?h i (?m ! i)) [0..<length services]) =
      concat (map (\<lambda>i. if i \<in> still remaining then stop_signals (services ! i) else []) [0..<length services])"
    by (rule arg_cong [where f = concat], rule map_cong) (use spec(2) rem in auto)
  moreover have "concat (map (\<lambda>i. if P i then g i else []) xs) = concat (map g (filter P xs))"
    for P and g :: "nat \<Rightarrow> (int \<times> int) list" and xs by (induction xs) auto
  ultimately have "kill_log w2 = kill_log w @ concat (map (\<lambda>i. stop_signals (services ! i))
      (ord @ filter (\<lambda>i. i \<in> still remaining) [0..<length services]))"
    using w1 w2 by simp
  with w1 w2 tab show ?thesis by (simp add: stop_all_in_order_def ord Let_def)
qed

section \<open>The invariant is kept\<close>

text \<open>The single-entry operations the loops above are made of.\<close>

definition term_main :: "os \<Rightarrow> service \<Rightarrow> world \<Rightarrow> service \<times> world" where
  "term_main os s w = (if active s \<and> pid s > 0
     then (mark_stopping s, write_status_file os (mark_stopping s) (sys_kill (- pid s) SIGTERM w))
     else (s, w))"

definition term_log :: "os \<Rightarrow> service \<Rightarrow> world \<Rightarrow> service \<times> world" where
  "term_log os s w = (if log_pid s > 0 \<and> \<not> log_stopping s
     then (s\<lparr>log_stopping := True\<rparr>, sys_kill (log_pid s) SIGTERM w) else (s, w))"

lemma svc_ok_mark [simp]: "svc_ok w s \<Longrightarrow> pid s > 0 \<Longrightarrow> svc_ok w (mark_stopping s)"
  by (auto simp: svc_ok_def svc_inv_def tracked_def mark_stopping_def valid_state_def)

lemma svc_ok_log_stopping [simp]:
  "svc_ok w s \<Longrightarrow> log_pid s > 0 \<Longrightarrow> svc_ok w (s\<lparr>log_stopping := True\<rparr>)"
  by (simp add: svc_ok_def svc_inv_def tracked_def)

lemma kill_main_kills: "svc_ok w s \<Longrightarrow> pid s > 0 \<Longrightarrow> kills_ok w \<Longrightarrow> kills_ok (sys_kill (- pid s) sig w)"
  by (rule kills_ok_kill) (simp_all add: svc_ok_def tracked_def own_target_def)

lemma kill_log_kills: "svc_ok w s \<Longrightarrow> log_pid s > 0 \<Longrightarrow> kills_ok w \<Longrightarrow> kills_ok (sys_kill (log_pid s) sig w)"
  by (rule kills_ok_kill) (simp_all add: svc_ok_def tracked_def own_target_def)

lemma kills_ok_status: "kills_ok w \<Longrightarrow> kills_ok (write_status_file os s w)"
  by (rule kills_ok_silent) simp_all

lemma kills_ok_log: "kills_ok w \<Longrightarrow> kills_ok (supervisor_log os msg w)"
  by (rule kills_ok_silent) simp_all

lemma svc_ok_status: "svc_ok w s \<Longrightarrow> svc_ok (write_status_file os t w) s"
  "svc_ok w s \<Longrightarrow> svc_ok (sys_kill p sig w) s"
  "svc_ok w s \<Longrightarrow> svc_ok (supervisor_log os msg w) s"
  "svc_ok w s \<Longrightarrow> svc_ok (close_fd os fd w) s"
  by (erule svc_ok_mono [rotated], simp)+

lemmas svc_ok_intros = svc_ok_status kills_ok_status kills_ok_log kill_main_kills kill_log_kills

interpretation term_main: service_step term_main
  by unfold_locales (auto simp: term_main_def intro!: svc_ok_intros)

interpretation term_log: service_step term_log
  by unfold_locales (auto simp: term_log_def intro!: svc_ok_intros)

lemma kill_main_step_eq:
  "kill_main_step os s w =
     (if active s \<and> has_log s \<and> log_pid s \<le> 0 \<and> pid s > 0 \<and> \<not> stopping s \<and> state s = STATE_RUNNING
      then term_main os s (supervisor_log os (name_bytes s)
             (supervisor_log os ''log process died, stopping main service: '' w))
      else (s, w))"
  by (simp add: kill_main_step_def term_main_def mark_stopping_def Let_def)

interpretation kill_main: service_step kill_main_step
proof unfold_locales
  fix os s and w :: world
  assume ok: "svc_ok w s"
  show "svc_ok (snd (kill_main_step os s w)) (fst (kill_main_step os s w))"
    using ok by (auto simp: kill_main_step_eq intro!: term_main.step_ok svc_ok_intros)
  assume "kills_ok w"
  with ok show "kills_ok (snd (kill_main_step os s w))"
    by (auto simp: kill_main_step_eq intro!: term_main.step_kills svc_ok_intros)
next
  fix w os s
  show "extends w (snd (kill_main_step os s w))"
    by (simp add: kill_main_step_def Let_def)
qed (simp_all add: kill_main_step_def Let_def)

lemma svc_ok_upd_stream [simp]: "svc_ok w (upd_stream i f s) = svc_ok w s"
  by (simp add: svc_ok_def svc_inv_def tracked_def)

lemma close_fds_two: "close_service_fds os s w = close_stream_fds os 1 (close_stream_fds os 0 (s, w))"
  by (simp add: close_service_fds_def upt_rec)

interpretation closing: service_step close_service_fds
proof unfold_locales
  fix os s and w :: world
  let ?r = "close_service_fds os s w"
  have ext: "extends w (snd ?r)" by (simp add: close_fds_two close_stream_fds_def Let_def)
  then show "extends w (snd ?r)" .
  have keep: "svc_ok v (fst ?r) = svc_ok v s" for v
    by (simp add: close_fds_two close_stream_fds_def Let_def)
  show "svc_ok w s \<Longrightarrow> svc_ok (snd ?r) (fst ?r)"
    unfolding keep using svc_ok_mono [OF ext] .
  show "kills_ok w \<Longrightarrow> kills_ok (snd ?r)"
    by (erule kills_ok_silent [OF _ ext]) (simp add: close_fds_two close_stream_fds_def Let_def)
qed (simp_all add: close_fds_two close_stream_fds_def Let_def)

lemma std_step_term: "std_step os i (c, ss, w) =
  (if eligible (ss ! i) \<and> depends_loop ss (take (deps_count (ss ! i)) (deps (ss ! i)))
   then (True, ss[i := fst (term_main os (ss ! i) w)], snd (term_main os (ss ! i) w))
   else (c, ss, w))"
  by (auto simp: std_step_def term_main_def eligible_def mark_stopping_def Let_def)

lemma std_fold_ok:
  "\<forall>i \<in> set is. i < MAX_SERVICES \<Longrightarrow> sys_ok ss w \<Longrightarrow>
   fold (std_step os) is (c, ss, w) = (c', ss', w') \<Longrightarrow> sys_ok ss' w'"
proof (induction "is" arbitrary: c ss w)
  case (Cons i "is")
  obtain c1 ss1 w1 where step: "std_step os i (c, ss, w) = (c1, ss1, w1)"
    by (cases "std_step os i (c, ss, w)") auto
  have "i < length ss" using Cons.prems by (simp add: sys_ok_def)
  then have "sys_ok ss1 w1"
    using step term_main.at_ok [OF Cons.prems(2)] Cons.prems(2)
    by (auto simp: std_step_term split: if_splits)
  with Cons.IH [of ss1 w1 c1] Cons.prems step show ?case by simp
qed simp

lemma stop_transitive_ok: "sys_ok services w \<Longrightarrow>
  sys_ok (fst (stop_transitive_deps os services w)) (snd (stop_transitive_deps os services w))"
proof (induction os services w rule: stop_transitive_deps.induct)
  case (1 os services w)
  obtain c ss1 w1 where pass: "std_pass os services w = (c, ss1, w1)"
    by (cases "std_pass os services w") auto
  have "sys_ok ss1 w1"
    using std_fold_ok [OF _ "1.prems", of "[0..<length services]" os False c ss1 w1] pass "1.prems"
    by (simp add: std_pass_def sys_ok_def)
  with "1.IH" [OF pass [symmetric] refl] show ?case
    by (subst (1 2) stop_transitive_deps.simps) (simp add: pass)
qed

lemma extends_fold_snd:
  "(\<And>x st. extends u (snd st) \<Longrightarrow> extends u (snd (f x st))) \<Longrightarrow>
   extends u (snd st) \<Longrightarrow> extends u (snd (fold f xs st))"
  by (induction xs arbitrary: st) simp_all

lemma extends_sao:
  "extends u (snd st) \<Longrightarrow> extends u (snd (sao_stop os i st))"
  "extends u (snd st) \<Longrightarrow> extends u (snd (sao_rest remaining i st))"
  by (cases st; simp add: sao_stop_def sao_rest_def Let_def)+

lemma extends_stop_all: "extends w (snd (stop_all_in_order os services w))"
proof -
  have "extends w (snd (fold (sao_stop os) xs (services, w)))" for xs
    by (rule extends_fold_snd) (simp_all add: extends_sao)
  then have "extends w (snd (fold (sao_rest r) ys (fold (sao_stop os) xs (services, w))))" for r xs ys
    by (intro extends_fold_snd) (simp_all add: extends_sao)
  then show ?thesis by (simp add: stop_all_in_order_def split_def Let_def)
qed

lemma stop_signals_own: "svc_ok w s \<Longrightarrow> (p, sig) \<in> set (stop_signals s) \<Longrightarrow> own_target w p"
  by (auto simp: stop_signals_def svc_ok_def tracked_def own_target_def split: if_splits)

lemma svc_ok_stopped: "svc_ok w s \<Longrightarrow> svc_ok w (stopped s)"
proof -
  assume ok: "svc_ok w s"
  let ?s = "if active s \<and> pid s > 0 then mark_stopping s else s"
  have "svc_ok w ?s" using ok by simp
  then show ?thesis by (simp add: stopped_def Let_def)
qed

lemma stop_all_ok:
  assumes ok: "sys_ok services w"
  shows "sys_ok (fst (stop_all_in_order os services w)) (snd (stop_all_in_order os services w))"
proof -
  obtain ord remaining where so: "stop_order services = (ord, remaining)"
    by (cases "stop_order services")
  have len: "length services \<le> MAX_SERVICES" using ok by (simp add: sys_ok_def)
  let ?idx = "ord @ filter (\<lambda>i. i \<in> still remaining) [0..<length services]"
  obtain w' where eff: "stop_all_in_order os services w =
      (map (\<lambda>i. if i \<in> to_stop services then stopped (services ! i) else services ! i)
         [0..<length services], w')"
      "kill_log w' = kill_log w @ concat (map (\<lambda>i. stop_signals (services ! i)) ?idx)"
    using stop_all_effect [OF len so] by blast
  have ext: "extends w w'" using extends_stop_all [of w os services] eff by simp
  have idx: "i < length services" if "i \<in> set ?idx" for i
    using that stop_order_spec(2) [OF len so] by (auto simp: to_stop_def)
  have old: "own_target w p" if "(p, sig) \<in> set (kill_log w)" for p sig
    using that ok by (auto simp: sys_ok_def kills_ok_def)
  have new: "own_target w p" if "(p, sig) \<in> set (stop_signals (services ! i))" "i \<in> set ?idx" for p sig i
    by (rule stop_signals_own [OF sys_ok_nth [OF ok idx [OF that(2)]] that(1)])
  have "own_target w p" if kl: "(p, sig) \<in> set (kill_log w')" for p sig
  proof -
    have "(p, sig) \<in> set (kill_log w) \<or> (\<exists>i \<in> set ?idx. (p, sig) \<in> set (stop_signals (services ! i)))"
      using kl unfolding eff(2) set_append set_concat set_map by blast
    then show ?thesis using old new by blast
  qed
  then have "kills_ok w'" using own_target_mono [OF ext] by (auto simp: kills_ok_def)
  moreover have "svc_ok w' (services ! i)" "svc_ok w' (stopped (services ! i))"
    if "i < length services" for i
    using svc_ok_mono [OF ext] svc_ok_stopped sys_ok_nth [OF ok that] by simp_all
  ultimately show ?thesis using ok unfolding eff(1) sys_ok_def by auto
qed

section \<open>Claims\<close>

text \<open>C3. \<open>stop_transitive_deps\<close> terminates and stops exactly the running services that have a hard
  dependency which is missing, not running or itself stopped: they are marked, every other entry is
  untouched, and each of their process groups gets one \<open>SIGTERM\<close>.\<close>

theorem stop_transitive_deps_exact:
  assumes "length services < usize_max"
  shows "fst (stop_transitive_deps os services w) = marked services (Collect (must_stop services)) \<and>
    (\<exists>ks. distinct ks \<and> set ks = Collect (must_stop services) \<and>
       kill_log (snd (stop_transitive_deps os services w)) = kill_log w @ map (term_group services) ks)"
  using stop_transitive_marked [OF assms, of "{}" os w] by auto

theorem stop_transitive_deps_exact_witness:
  "\<forall>os w. fst (stop_transitive_deps os
      [ex_needs ''db'' (ex_service ''app'' 7 1), ex_service ''db'' (-1) 4] w) =
    [mark_stopping (ex_needs ''db'' (ex_service ''app'' 7 1)), ex_service ''db'' (-1) 4]"
proof (intro allI)
  fix os :: os and w :: world
  let ?a = "ex_needs ''db'' (ex_service ''app'' 7 1)" and ?b = "ex_service ''db'' (-1) 4"
  have down: "\<not> is_up [?a, ?b] ''db''" by (simp add: is_up_def find_service_by_name_def Let_def)
  have "must_stop [?a, ?b] 0" by (rule dep_down [OF _ _ _ down]) (simp_all add: eligible_def)
  moreover have "\<not> must_stop [?a, ?b] 1"
    by (auto dest: must_stop_eligible simp: eligible_def)
  ultimately show "fst (stop_transitive_deps os [?a, ?b] w) = [mark_stopping ?a, ?b]"
    using stop_transitive_deps_exact [of "[?a, ?b]" os w] by (simp add: marked_def)
qed

lemma marked_deps_ok:
  assumes "length services < usize_max" "i < length services"
    "eligible (marked services (Collect (must_stop services)) ! i)"
  shows "deps_satisfied (marked services (Collect (must_stop services)) ! i)
    (marked services (Collect (must_stop services)))"
proof -
  have i: "\<not> must_stop services i" "eligible (services ! i)" using assms(2,3) by (auto split: if_splits)
  have "is_up services nm \<and> \<not> must_stop services (find_service_by_name services nm)"
    if "nm \<in> set (hard_deps (services ! i))" for nm
    using that i assms(2) by (blast intro: must_stop.intros)
  then show ?thesis using i assms(2) by (simp add: deps_satisfied_iff is_up_marked [OF assms(1)])
qed

text \<open>C13. After \<open>stop_transitive_deps\<close> no service is left running above a hard dependency that is
  not running: what still runs satisfies the condition it was started under.\<close>

theorem no_orphans_after_stop:
  assumes "length services < usize_max" "i < length services"
    "eligible (fst (stop_transitive_deps os services w) ! i)"
  shows "deps_satisfied (fst (stop_transitive_deps os services w) ! i)
    (fst (stop_transitive_deps os services w))"
  using stop_transitive_marked [OF assms(1), of "{}" os w] marked_deps_ok [OF assms(1,2)] assms(3) by auto

theorem no_orphans_after_stop_witness:
  "\<forall>os w. deps_satisfied (fst (stop_transitive_deps os [ex_service ''db'' 7 1] w) ! 0)
    (fst (stop_transitive_deps os [ex_service ''db'' 7 1] w))"
proof (intro allI)
  fix os :: os and w :: world
  have "\<not> must_stop [ex_service ''db'' 7 1] 0" by (auto elim: must_stopE)
  moreover obtain w' where "stop_transitive_deps os (marked [ex_service ''db'' 7 1] {}) w =
      (marked [ex_service ''db'' 7 1] (Collect (must_stop [ex_service ''db'' 7 1])), w')"
    using stop_transitive_marked [of "[ex_service ''db'' 7 1]" "{}" os w] by auto
  ultimately have "eligible (fst (stop_transitive_deps os [ex_service ''db'' 7 1] w) ! 0)"
    by (simp add: eligible_def)
  with no_orphans_after_stop [of "[ex_service ''db'' 7 1]" 0 os w]
  show "deps_satisfied (fst (stop_transitive_deps os [ex_service ''db'' 7 1] w) ! 0)
    (fst (stop_transitive_deps os [ex_service ''db'' 7 1] w))" by simp
qed

text \<open>C32. The inner loop of \<open>stop_transitive_deps\<close> is the negation of \<open>deps_satisfied\<close>: the two
  copies of the dependency test agree.\<close>

theorem depends_loop_is_not_satisfied:
  "depends_loop services (take (deps_count s) (deps s)) \<longleftrightarrow> \<not> deps_satisfied s services"
  by (simp add: depends_loop_eq deps_satisfied_def)

text \<open>C4. The shutdown order lists running services without repetition, each after all the running
  services it hard-depends on; a service left out of the order depends on one that is left out too,
  so without a dependency cycle none is left out.\<close>

theorem stop_order_topological:
  assumes "length services \<le> MAX_SERVICES"
  shows "case stop_order services of (ord, remaining) \<Rightarrow>
    distinct ord \<and> set ord \<union> still remaining = to_stop services \<and> set ord \<inter> still remaining = {} \<and>
    (\<forall>k < length ord. \<forall>j \<in> dep_indices services (ord ! k) \<inter> to_stop services. j \<in> set (take k ord)) \<and>
    (\<forall>i \<in> still remaining. \<exists>j \<in> dep_indices services i. j \<in> still remaining)"
proof -
  obtain ord remaining where so: "stop_order services = (ord, remaining)"
    by (cases "stop_order services")
  note spec = stop_order_spec [OF assms so]
  have "set ord \<union> still remaining = to_stop services" "set ord \<inter> still remaining = {}"
    using spec(2,3) by blast+
  with spec(1,4,5) show ?thesis unfolding so by simp
qed

theorem stop_order_topological_witness:
  "distinct (fst (stop_order [ex_needs ''db'' (ex_service ''app'' 7 1), ex_service ''db'' 8 1]))"
  using stop_order_topological [of "[ex_needs ''db'' (ex_service ''app'' 7 1), ex_service ''db'' 8 1]"]
  by (simp add: split_def)

text \<open>C5. At shutdown every service that runs or stops gets exactly one \<open>SIGTERM\<close> for its process
  group and its logger one unless it is stopping already, in the shutdown order and then for what a
  cycle left over; all of them are marked, and no other entry changes.\<close>

theorem stop_all_in_order_effect:
  assumes "length services \<le> MAX_SERVICES"
  shows "fst (stop_all_in_order os services w) =
      map (\<lambda>i. if i \<in> to_stop services then stopped (services ! i) else services ! i)
        [0..<length services] \<and>
    kill_log (snd (stop_all_in_order os services w)) = kill_log w @
      concat (map (\<lambda>i. stop_signals (services ! i))
        (fst (stop_order services) @
         filter (\<lambda>i. i \<in> still (snd (stop_order services))) [0..<length services]))"
  using stop_all_effect [OF assms, of "fst (stop_order services)" "snd (stop_order services)" os w]
  by auto

theorem stop_all_in_order_effect_witness:
  "\<forall>os w. fst (stop_all_in_order os [ex_service ''db'' 8 1] w) = [mark_stopping (ex_service ''db'' 8 1)]"
proof (intro allI)
  fix os :: os and w :: world
  show "fst (stop_all_in_order os [ex_service ''db'' 8 1] w) = [mark_stopping (ex_service ''db'' 8 1)]"
    using stop_all_in_order_effect [of "[ex_service ''db'' 8 1]" os w]
    by (simp add: to_stop_def stopped_def Let_def) (simp add: mark_stopping_def)
qed

text \<open>A service whose logger has died.\<close>

definition lost_logger :: "service \<Rightarrow> bool" where
  "lost_logger s \<longleftrightarrow> active s \<and> has_log s \<and> log_pid s \<le> 0 \<and> pid s > 0 \<and> \<not> stopping s \<and>
     state s = STATE_RUNNING"

text \<open>C31. When the logger of a running service has died, the service gets a \<open>SIGTERM\<close> and is marked;
  services with a living logger, without one or already stopping are left alone.\<close>

theorem kill_main_effect:
  "fst (kill_main_on_log_death os services w) =
     map (\<lambda>s. if lost_logger s then mark_stopping s else s) services \<and>
   kill_log (snd (kill_main_on_log_death os services w)) = kill_log w @
     map (\<lambda>s. (- pid s, SIGTERM)) (filter lost_logger services)"
proof -
  let ?g = "\<lambda>s. if lost_logger s then mark_stopping s else s"
  let ?h = "\<lambda>s. if lost_logger s then [(- pid s, SIGTERM)] else []"
  have "fst (kill_main_step os s w) = ?g s \<and> kill_log (snd (kill_main_step os s w)) = kill_log w @ ?h s"
    for s w by (simp add: kill_main_step_eq term_main_def lost_logger_def)
  from each_spec [of "kill_main_step os" ?g ?h, OF this]
  have "fst (kill_main_on_log_death os services w) = map ?g services"
    "kill_log (snd (kill_main_on_log_death os services w)) = kill_log w @ concat (map ?h services)"
    by (simp_all add: kill_main_on_log_death_def)
  moreover have "concat (map ?h ss) = map (\<lambda>s. (- pid s, SIGTERM)) (filter lost_logger ss)" for ss
    by (induction ss) auto
  ultimately show ?thesis by simp
qed

end
