(* ===== verification/Service_Logs.thy ===== *)
theory Service_Logs
  imports Service_Stop
begin

text \<open>
  The log files of a service and the pipes that feed them (last part of \<open>src/service.rs\<close>).
  The loop of \<open>drain_stream\<close> ends when the kernel has no full buffer left, which nothing in the
  code bounds: it is a partial function, and \<open>drain_stream_returns\<close> says when it returns.
\<close>

declare cs_push.simps [simp del]

section \<open>Operations\<close>

definition log_suffix :: "nat \<Rightarrow> bytes" where
  "log_suffix stream = (if stream = 0 then ''/current.out'' else ''/current.err'')"

definition open_log :: "os \<Rightarrow> nat \<Rightarrow> service \<Rightarrow> world \<Rightarrow> service \<times> world" where
  "open_log os stream s w =
     (let dir_path = cs_from_bytes (dir_bytes s);
          w = close_fd os (log_fd (streams s ! stream)) w;
          s = upd_stream stream (\<lambda>st. st\<lparr>log_fd := -1\<rparr>) s;
          logdir = cs_push ''/log'' (cs_from_bytes (cs_bytes dir_path));
          w = emit (EMkdir (cs_cstr logdir)) w;
          path = cs_push (log_suffix stream) (cs_from_bytes (cs_bytes logdir));
          (fd, w) = sys_open os (cs_cstr path) O_WR_CREAT_APPEND w;
          s = upd_stream stream (\<lambda>st. st\<lparr>log_fd := fd\<rparr>) s;
          (len, w) = (if fd \<ge> 0 then sys_lseek_end os fd w else (0, w))
      in (upd_stream stream (\<lambda>st. st\<lparr>log_len := len\<rparr>) s, w))"

definition rotate_log :: "os \<Rightarrow> nat \<Rightarrow> service \<Rightarrow> world \<Rightarrow> service \<times> world" where
  "rotate_log os stream s w =
     (let dir_path = cs_from_bytes (dir_bytes s);
          w = close_fd os (log_fd (streams s ! stream)) w;
          s = upd_stream stream (\<lambda>st. st\<lparr>log_fd := -1\<rparr>) s;
          s = upd_stream stream (\<lambda>st. st\<lparr>rotations := wrap_u32 (rotations st + 1)\<rparr>) s;
          (ts, w) = wall_now os w;
          src = cs_push (log_suffix stream) (cs_from_bytes (cs_bytes dir_path));
          arch = cs_push (log_suffix stream) (cs_from_bytes (cs_bytes dir_path));
          arch = cs_push_byte (CHR ''.'') arch;
          arch = cs_push_u64 (u64_of_i64 ts) arch;
          arch = cs_push_byte (CHR ''.'') arch;
          arch = cs_push_u64 (rotations (streams s ! stream)) arch;
          w = emit (ERename (cs_cstr src) (cs_cstr arch)) w
      in open_log os stream s w)"

text \<open>\<open>write_log\<close>: the write itself, and the checks before it.\<close>

definition write_log_fd :: "os \<Rightarrow> nat \<Rightarrow> bytes \<Rightarrow> service \<Rightarrow> world \<Rightarrow> service \<times> world" where
  "write_log_fd os stream data s w =
     (let fd = log_fd (streams s ! stream);
          (ok, w) = write_all os fd data w
      in if ok
         then (upd_stream stream
                 (\<lambda>st. st\<lparr>log_len := wrap_i64 (log_len st + int (length data))\<rparr>) s, w)
         else (upd_stream stream (\<lambda>st. st\<lparr>log_fd := -1\<rparr>) s, close_fd os fd w))"

definition write_log :: "os \<Rightarrow> nat \<Rightarrow> bytes \<Rightarrow> service \<Rightarrow> world \<Rightarrow> service \<times> world" where
  "write_log os stream data s w =
     (let (s, w) = (if log_fd (streams s ! stream) < 0 then open_log os stream s w else (s, w))
      in if log_fd (streams s ! stream) < 0 then (s, w)
         else let current_len = log_len (streams s ! stream);
                  add_len = int (length data)
              in if wrap_i64 (current_len + add_len) > LOG_LIMIT
                 then let (s, w) = rotate_log os stream s w
                      in if log_fd (streams s ! stream) < 0 then (s, w)
                         else write_log_fd os stream data s w
                 else write_log_fd os stream data s w)"

text \<open>One turn of the loop of \<open>drain_stream\<close>: whether it goes on, and the new state.\<close>

definition drain_turn :: "os \<Rightarrow> nat \<Rightarrow> service \<Rightarrow> world \<Rightarrow> bool \<times> service \<times> world" where
  "drain_turn os stream s w =
     (let fd = read_fd (streams s ! stream)
      in if fd < 0 then (False, s, w)
         else let (r, w) = read_all_nonblock os fd IO_BUF w;
                  eof = upd_stream stream (\<lambda>st. st\<lparr>read_fd := -1\<rparr>) s
              in case r of
                   RData b \<Rightarrow>
                     if b = [] then (False, eof, close_fd os fd w)
                     else let (s, w) = (if has_log s then (s, w) else write_log os stream b s w)
                          in (\<not> length b < IO_BUF, s, w)
                 | RAgain \<Rightarrow> (False, s, w)
                 | RFail \<Rightarrow> (False, eof, close_fd os fd w))"

partial_function (option) drain_stream ::
    "os \<Rightarrow> nat \<Rightarrow> service \<Rightarrow> world \<Rightarrow> (service \<times> world) option" where
  "drain_stream os stream s w =
     (case drain_turn os stream s w of
        (go, s', w') \<Rightarrow> if go then drain_stream os stream s' w' else Some (s', w'))"

definition drain_one :: "os \<Rightarrow> nat \<Rightarrow> service \<Rightarrow> world \<Rightarrow> (service \<times> world) option" where
  "drain_one os stream s w =
     (if read_fd (streams s ! stream) \<ge> 0 then drain_stream os stream s w else Some (s, w))"

fun drain_all_once :: "os \<Rightarrow> service list \<Rightarrow> world \<Rightarrow> (service list \<times> world) option" where
  "drain_all_once os [] w = Some ([], w)"
| "drain_all_once os (s # ss) w =
     Option.bind
       (if active s
        then Option.bind (drain_one os 0 s w) (\<lambda>(s, w). drain_one os 1 s w)
        else Some (s, w))
       (\<lambda>(s, w). Option.bind (drain_all_once os ss w) (\<lambda>(ss, w). Some (s # ss, w)))"

section \<open>Frames\<close>

text \<open>Everything here changes one stream of the service and nothing else of it.\<close>

definition stream_only :: "nat \<Rightarrow> service \<Rightarrow> service \<Rightarrow> bool" where
  "stream_only i s s' \<longleftrightarrow> (\<exists>st. s' = upd_stream i (\<lambda>_. st) s)"

lemma upd_stream_twice: "length (streams s) = 2 \<Longrightarrow> i < 2 \<Longrightarrow>
  upd_stream i g (upd_stream i f s) = upd_stream i (g \<circ> f) s"
  by (simp add: upd_stream_def)

lemma stream_only_upd [simp]: "stream_only i s (upd_stream i f s)"
  by (auto simp: stream_only_def upd_stream_def)

lemma stream_only_refl [simp]: "stream_only i s s"
  unfolding stream_only_def by (rule exI [of _ "streams s ! i"]) (simp add: upd_stream_def)

lemma stream_only_trans [trans]: "stream_only i s t \<Longrightarrow> stream_only i t u \<Longrightarrow> stream_only i s u"
  by (auto simp: stream_only_def upd_stream_def)

lemma stream_only_step [simp]: "stream_only i s t \<Longrightarrow> stream_only i s (upd_stream i f t)"
  using stream_only_trans stream_only_upd by blast

lemma stream_only_keeps:
  assumes "stream_only i s s'"
  shows "svc_ok w s' = svc_ok w s" "svc_wf s' = svc_wf s" "active s' = active s"
    "name_bytes s' = name_bytes s" "dir_bytes s' = dir_bytes s" "has_log s' = has_log s"
    "pid s' = pid s" "log_pid s' = log_pid s" "state s' = state s" "stopping s' = stopping s"
    "length (streams s') = length (streams s)" "restart_at s' = restart_at s"
    "manual_start s' = manual_start s"
    "\<And>j. j \<noteq> i \<Longrightarrow> streams s' ! j = streams s ! j" "started_at s' = started_at s"
proof -
  obtain st where "s' = upd_stream i (\<lambda>_. st) s" using assms by (auto simp: stream_only_def)
  then show "svc_ok w s' = svc_ok w s" "svc_wf s' = svc_wf s" "active s' = active s"
    "name_bytes s' = name_bytes s" "dir_bytes s' = dir_bytes s" "has_log s' = has_log s"
    "pid s' = pid s" "log_pid s' = log_pid s" "state s' = state s" "stopping s' = stopping s"
    "length (streams s') = length (streams s)" "restart_at s' = restart_at s"
    "manual_start s' = manual_start s"
    "\<And>j. j \<noteq> i \<Longrightarrow> streams s' ! j = streams s ! j" "started_at s' = started_at s"
    by simp_all (simp_all add: upd_stream_def)
qed

lemma open_log_frame [simp]: "stream_only i s t \<Longrightarrow> stream_only i s (fst (open_log os i t w))"
  by (simp add: open_log_def Let_def split_def)

lemma rotate_log_frame [simp]: "stream_only i s t \<Longrightarrow> stream_only i s (fst (rotate_log os i t w))"
  by (simp add: rotate_log_def Let_def split_def)

lemma write_log_fd_frame [simp]:
  "stream_only i s t \<Longrightarrow> stream_only i s (fst (write_log_fd os i b t w))"
  by (simp add: write_log_fd_def Let_def split_def)

lemma write_log_frame [simp]: "stream_only i s t \<Longrightarrow> stream_only i s (fst (write_log os i b t w))"
  by (simp add: write_log_def Let_def split_def)

lemma drain_turn_frame: "stream_only i s (fst (snd (drain_turn os i s w)))"
  by (simp add: drain_turn_def Let_def split_def split: rd_result.split)

lemma log_extends [simp]:
  assumes "extends u w"
  shows "extends u (snd (open_log os i s w))" "extends u (snd (rotate_log os i s w))"
    "extends u (snd (write_log_fd os i b s w))"
  using assms by (simp_all add: open_log_def rotate_log_def write_log_fd_def Let_def split_def)

lemma write_log_extends [simp]: "extends u w \<Longrightarrow> extends u (snd (write_log os i b s w))"
  by (simp add: write_log_def Let_def split_def)

lemma drain_turn_extends [simp]: "extends u w \<Longrightarrow> extends u (snd (snd (drain_turn os i s w)))"
  by (simp add: drain_turn_def Let_def split_def split: rd_result.split)

lemma kill_log_logs [simp]:
  "kill_log (snd (open_log os i s w)) = kill_log w"
  "kill_log (snd (rotate_log os i s w)) = kill_log w"
  "kill_log (snd (write_log_fd os i b s w)) = kill_log w"
  by (simp_all add: open_log_def rotate_log_def write_log_fd_def Let_def split_def)

lemma kill_log_write_log [simp]: "kill_log (snd (write_log os i b s w)) = kill_log w"
  by (simp add: write_log_def Let_def split_def)

lemma kill_log_drain_turn [simp]: "kill_log (snd (snd (drain_turn os i s w))) = kill_log w"
  by (simp add: drain_turn_def Let_def split_def split: rd_result.split)

section \<open>When \<open>drain_stream\<close> returns\<close>

text \<open>The state after \<open>n\<close> turns of the loop, and whether turn number \<open>n\<close> wants another one.\<close>

definition after_turns :: "os \<Rightarrow> nat \<Rightarrow> nat \<Rightarrow> service \<times> world \<Rightarrow> service \<times> world" where
  "after_turns os i n sw = ((\<lambda>(s, w). snd (drain_turn os i s w)) ^^ n) sw"

definition goes_on :: "os \<Rightarrow> nat \<Rightarrow> service \<times> world \<Rightarrow> nat \<Rightarrow> bool" where
  "goes_on os i sw n = (case after_turns os i n sw of (s, w) \<Rightarrow> fst (drain_turn os i s w))"

lemma after_turns_0 [simp]: "after_turns os i 0 sw = sw"
  by (simp add: after_turns_def)

lemma goes_on_0 [simp]: "goes_on os i (s, w) 0 = fst (drain_turn os i s w)"
  by (simp add: goes_on_def)

lemma after_turns_Suc: "after_turns os i (Suc n) (s, w) = after_turns os i n (snd (drain_turn os i s w))"
  by (simp add: after_turns_def funpow_swap1)

lemma goes_on_Suc: "goes_on os i (s, w) (Suc n) = goes_on os i (snd (drain_turn os i s w)) n"
  by (simp add: goes_on_def after_turns_Suc)

lemma drain_stream_turns:
  "\<forall>k < n. goes_on os i (s, w) k \<Longrightarrow> \<not> goes_on os i (s, w) n \<Longrightarrow>
   drain_stream os i s w = Some (after_turns os i (Suc n) (s, w))"
proof (induction n arbitrary: s w)
  case 0
  then show ?case
    by (subst drain_stream.simps) (simp add: after_turns_Suc split_def)
next
  case (Suc n)
  obtain s1 w1 where turn: "drain_turn os i s w = (True, s1, w1)"
    using Suc.prems(1) by (cases "drain_turn os i s w") force
  have "drain_stream os i s1 w1 = Some (after_turns os i (Suc n) (s1, w1))"
    using Suc.prems turn goes_on_Suc [of os i s w] by (intro Suc.IH) auto
  then show ?case
    by (subst drain_stream.simps) (simp add: turn after_turns_Suc [of os i "Suc n"])
qed

definition returns_after :: "os \<Rightarrow> nat \<Rightarrow> service \<Rightarrow> world \<Rightarrow> service \<times> world \<Rightarrow> bool" where
  "returns_after os i s w r \<longleftrightarrow> (\<exists>n. (\<forall>k < n. goes_on os i (s, w) k) \<and>
     \<not> goes_on os i (s, w) n \<and> r = after_turns os i (Suc n) (s, w))"

lemma returns_after_turn:
  "returns_after os i s w r \<longleftrightarrow> (case drain_turn os i s w of
     (go, s1, w1) \<Rightarrow> if go then returns_after os i s1 w1 r else r = (s1, w1))"
proof -
  obtain go s1 w1 where turn: "drain_turn os i s w = (go, s1, w1)"
    by (cases "drain_turn os i s w")
  have suc: "goes_on os i (s, w) (Suc k) = goes_on os i (s1, w1) k"
    "after_turns os i (Suc k) (s, w) = after_turns os i k (s1, w1)" for k
    using turn by (simp_all add: goes_on_Suc after_turns_Suc)
  have zero: "goes_on os i (s, w) 0 = go" using turn by simp
  show ?thesis
  proof (cases go)
    case False
    have "n = 0" if "\<forall>k < n. goes_on os i (s, w) k" for n
      using that zero False by (cases n) auto
    moreover have "after_turns os i (Suc 0) (s, w) = (s1, w1)" by (simp add: suc)
    ultimately have "returns_after os i s w r \<longleftrightarrow> r = (s1, w1)"
      using zero False unfolding returns_after_def by (metis not_less_zero)
    with turn False show ?thesis by simp
  next
    case True
    have "returns_after os i s1 w1 r" if "returns_after os i s w r"
    proof -
      from that obtain n where n: "\<forall>k < n. goes_on os i (s, w) k" "\<not> goes_on os i (s, w) n"
        "r = after_turns os i (Suc n) (s, w)" unfolding returns_after_def by blast
      then obtain m where m: "n = Suc m" using zero True by (cases n) auto
      have "\<forall>k < m. goes_on os i (s1, w1) k" unfolding suc(1) [symmetric] using n(1) m by simp
      then show ?thesis using n m
        unfolding returns_after_def by (intro exI [of _ m]) (simp add: suc)
    qed
    moreover have "returns_after os i s w r" if "returns_after os i s1 w1 r"
    proof -
      from that obtain m where m: "\<forall>k < m. goes_on os i (s1, w1) k" "\<not> goes_on os i (s1, w1) m"
        "r = after_turns os i (Suc m) (s1, w1)" unfolding returns_after_def by blast
      have "goes_on os i (s, w) k" if "k < Suc m" for k
        using that m(1) suc(1) zero True by (cases k) auto
      then show ?thesis using m
        unfolding returns_after_def by (intro exI [of _ "Suc m"]) (simp add: suc)
    qed
    ultimately show ?thesis using turn True by auto
  qed
qed

lemma drain_stream_Some:
  assumes "drain_stream os i s w = Some r"
  shows "returns_after os i s w r"
proof (rule drain_stream.raw_induct [where P = returns_after, OF _ assms])
  fix drain os i s w r
  assume IH: "\<And>os i s w r. drain os i s w = Some r \<Longrightarrow> returns_after os i s w r"
    and eq: "(case drain_turn os i s w of
        (go, s', w') \<Rightarrow> if go then drain os i s' w' else Some (s', w')) = Some r"
  show "returns_after os i s w r"
    unfolding returns_after_turn [of os i s w] using eq
    by (cases "drain_turn os i s w") (auto split: if_splits intro: IH)
qed

lemma drain_stream_iff: "drain_stream os i s w = Some r \<longleftrightarrow> returns_after os i s w r"
  by (rule iffI, erule drain_stream_Some) (auto simp: returns_after_def intro: drain_stream_turns)

lemma after_turns_frame:
  "stream_only i s (fst (after_turns os i n (s, w))) \<and>
   extends w (snd (after_turns os i n (s, w))) \<and>
   kill_log (snd (after_turns os i n (s, w))) = kill_log w"
proof (induction n arbitrary: s w)
  case 0
  show ?case by (simp add: after_turns_def)
next
  case (Suc n)
  let ?t = "snd (drain_turn os i s w)"
  have "stream_only i (fst ?t) (fst (after_turns os i n ?t))" "extends (snd ?t) (snd (after_turns os i n ?t))"
    "kill_log (snd (after_turns os i n ?t)) = kill_log (snd ?t)"
    using Suc.IH [of "fst ?t" "snd ?t"] by simp_all
  then show ?case
    using stream_only_trans [OF drain_turn_frame] extends_trans [OF drain_turn_extends [OF extends_refl]]
    by (simp add: after_turns_Suc)
qed

lemma drain_stream_frame:
  assumes "drain_stream os i s w = Some (s', w')"
  shows "stream_only i s s'" "extends w w'" "kill_log w' = kill_log w"
proof -
  obtain n where "(s', w') = after_turns os i (Suc n) (s, w)"
    using drain_stream_Some [OF assms] by (auto simp: returns_after_def)
  with after_turns_frame [of i s os "Suc n" w]
  show "stream_only i s s'" "extends w w'" "kill_log w' = kill_log w"
    by (metis fst_conv, metis snd_conv, metis snd_conv)
qed

lemma drain_one_frame:
  assumes "drain_one os i s w = Some (s', w')"
  shows "stream_only i s s'" "extends w w'" "kill_log w' = kill_log w"
  using assms drain_stream_frame by (auto simp: drain_one_def split: if_splits)

lemma drain_all_frame:
  "drain_all_once os ss w = Some (ss', w') \<Longrightarrow>
   length ss' = length ss \<and> extends w w' \<and> kill_log w' = kill_log w \<and>
   (\<forall>i < length ss. active (ss' ! i) = active (ss ! i) \<and> name_bytes (ss' ! i) = name_bytes (ss ! i) \<and>
      dir_bytes (ss' ! i) = dir_bytes (ss ! i) \<and> pid (ss' ! i) = pid (ss ! i) \<and>
      log_pid (ss' ! i) = log_pid (ss ! i) \<and> (\<forall>v. svc_ok v (ss' ! i) = svc_ok v (ss ! i)))"
proof (induction os ss w arbitrary: ss' w' rule: drain_all_once.induct)
  case (2 os s ss w)
  obtain s1 w1 ss1 where one: "(if active s
        then Option.bind (drain_one os 0 s w) (\<lambda>(s, w). drain_one os 1 s w) else Some (s, w)) = Some (s1, w1)"
    and rest: "drain_all_once os ss w1 = Some (ss1, w')" and ss': "ss' = s1 # ss1"
    using "2.prems" by (auto simp: bind_eq_Some_conv simp del: drain_all_once.simps(1) split: if_splits)
  have s1: "active s1 = active s \<and> name_bytes s1 = name_bytes s \<and> dir_bytes s1 = dir_bytes s \<and>
      pid s1 = pid s \<and> log_pid s1 = log_pid s \<and> (\<forall>v. svc_ok v s1 = svc_ok v s) \<and>
      extends w w1 \<and> kill_log w1 = kill_log w"
  proof (cases "active s")
    case True
    with one obtain s0 w0 where "drain_one os 0 s w = Some (s0, w0)" "drain_one os 1 s0 w0 = Some (s1, w1)"
      by (auto simp: bind_eq_Some_conv)
    note f = drain_one_frame [OF this(1)] drain_one_frame [OF this(2)]
    show ?thesis
      using stream_only_keeps [OF f(1)] stream_only_keeps [OF f(4)] f extends_trans [OF f(2) f(5)]
      by simp
  qed (use one in simp)
  have rest': "length ss1 = length ss \<and> extends w1 w' \<and> kill_log w' = kill_log w1 \<and>
     (\<forall>i < length ss. active (ss1 ! i) = active (ss ! i) \<and> name_bytes (ss1 ! i) = name_bytes (ss ! i) \<and>
      dir_bytes (ss1 ! i) = dir_bytes (ss ! i) \<and> pid (ss1 ! i) = pid (ss ! i) \<and>
      log_pid (ss1 ! i) = log_pid (ss ! i) \<and> (\<forall>v. svc_ok v (ss1 ! i) = svc_ok v (ss ! i)))"
    using "2.IH" [OF one refl rest] by simp
  show ?case
    using s1 rest' ss' extends_trans [of w w1 w'] by (auto simp: nth_Cons' less_Suc_eq_0_disj)
qed simp

lemma frame_service_step:
  assumes "\<And>os s w. stream_only i s (fst (f os s w))" "\<And>os s w. extends w (snd (f os s w))"
    "\<And>os s w. kill_log (snd (f os s w)) = kill_log w"
  shows "service_step f"
proof
  fix os s and w :: world
  note keep = stream_only_keeps [OF assms(1) [of s os w]]
  show "svc_ok (snd (f os s w)) (fst (f os s w))" if "svc_ok w s"
    unfolding keep(1) using svc_ok_mono [OF assms(2) that] .
  show "kills_ok (snd (f os s w))" if "kills_ok w"
    using kills_ok_silent [OF that assms(2,3)] .
  show "extends w (snd (f os s w))" by (rule assms(2))
  show "active (fst (f os s w)) = active s" "name_bytes (fst (f os s w)) = name_bytes s"
    "dir_bytes (fst (f os s w)) = dir_bytes s" by (rule keep)+
qed

interpretation logopen: service_step "\<lambda>os. open_log os i" for i
  by (rule frame_service_step [of i]) simp_all

interpretation logwrite: service_step "\<lambda>os. write_log os i b" for i b
  by (rule frame_service_step [of i]) simp_all

section \<open>Draining ends\<close>

text \<open>How often a descriptor has been read, and a descriptor that runs dry: after \<open>n\<close> more reads the
  kernel has no full buffer for it any more, it answers with less, with nothing or with an error.\<close>

fun reads :: "int \<Rightarrow> event list \<Rightarrow> nat" where
  "reads fd [] = 0"
| "reads fd (e # es) = (case e of ERead fd' k \<Rightarrow> if fd' = fd then 1 else 0 | _ \<Rightarrow> 0) + reads fd es"

definition runs_dry :: "os \<Rightarrow> int \<Rightarrow> nat \<Rightarrow> world \<Rightarrow> bool" where
  "runs_dry os fd n w \<longleftrightarrow> (\<forall>tr. reads fd (trace w) + n \<le> reads fd tr \<longrightarrow>
     (case os_read os tr fd IO_BUF of RData b \<Rightarrow> length b < IO_BUF | _ \<Rightarrow> True))"

text \<open>The last read, and what is left of the descriptor after it.\<close>

definition after_read :: "int \<Rightarrow> rd_result \<Rightarrow> int \<Rightarrow> bool" where
  "after_read fd r fd' \<longleftrightarrow> (case r of
       RData b \<Rightarrow> length b < IO_BUF \<and> fd' = (if b = [] then -1 else fd)
     | RAgain \<Rightarrow> fd' = fd
     | RFail \<Rightarrow> fd' = -1)"

lemma reads_append: "reads fd (es @ fs) = reads fd es + reads fd fs"
  by (induction es) simp_all

lemma reads_mono: "extends w w' \<Longrightarrow> reads fd (trace w) \<le> reads fd (trace w')"
  by (auto simp: extends_def reads_append)

lemma runs_dry_Suc:
  "runs_dry os fd (Suc n) w \<Longrightarrow> reads fd (trace w) < reads fd (trace w') \<Longrightarrow> runs_dry os fd n w'"
  unfolding runs_dry_def by (intro allI impI, erule allE, erule mp) linarith

lemma read_counts: "reads fd (trace w) < reads fd (trace (snd (read_all_nonblock os fd k w)))"
proof -
  have "reads fd (trace w) \<le> reads fd (trace (retried os (ERead fd k) w))"
    by (rule reads_mono) simp
  then show ?thesis by (simp add: read_all_nonblock_def sys_read_def)
qed

lemma read_dry:
  assumes "runs_dry os fd 0 w" "fst (read_all_nonblock os fd IO_BUF w) = RData b"
  shows "length b < IO_BUF"
proof -
  have "reads fd (trace w) \<le> reads fd (trace (retried os (ERead fd IO_BUF) w))" by (rule reads_mono) simp
  with assms show ?thesis
    by (auto simp: runs_dry_def read_all_nonblock_def sys_read_def split: rd_result.splits)
qed

lemma read_fd_upd [simp]:
  "(\<And>st. read_fd (f st) = read_fd st) \<Longrightarrow> read_fd (streams (upd_stream i f s) ! i) = read_fd (streams s ! i)"
  by (cases "i < length (streams s)") (simp_all add: upd_stream_def list_update_beyond)

lemma write_log_read_fd [simp]: "read_fd (streams (fst (write_log os i b s w)) ! i) = read_fd (streams s ! i)"
proof -
  have o: "read_fd (streams (fst (open_log os i s w)) ! i) = read_fd (streams s ! i)" for s w
    by (simp add: open_log_def Let_def split_def)
  have r: "read_fd (streams (fst (rotate_log os i s w)) ! i) = read_fd (streams s ! i)" for s w
    by (simp add: rotate_log_def Let_def split_def o)
  have f: "read_fd (streams (fst (write_log_fd os i b s w)) ! i) = read_fd (streams s ! i)" for s w
    by (simp add: write_log_fd_def Let_def split_def)
  show ?thesis by (simp add: write_log_def Let_def split_def o r f)
qed

text \<open>One turn: it is the last one, or it has read a full buffer and the descriptor is the same.\<close>

lemma drain_turn_read:
  assumes "read_fd (streams s ! i) = fd" "fd \<ge> 0" "i < length (streams s)"
    "drain_turn os i s w = (go, s', w')"
  shows "extends (snd (read_all_nonblock os fd IO_BUF w)) w' \<and>
    (if go then read_fd (streams s' ! i) = fd \<and> i < length (streams s') \<and>
        (\<exists>b. fst (read_all_nonblock os fd IO_BUF w) = RData b \<and> \<not> length b < IO_BUF)
     else after_read fd (fst (read_all_nonblock os fd IO_BUF w)) (read_fd (streams s' ! i)))"
proof -
  obtain r v where rv: "read_all_nonblock os fd IO_BUF w = (r, v)" by (cases "read_all_nonblock os fd IO_BUF w")
  have log: "read_fd (streams s1 ! i) = fd \<and> length (streams s1) = length (streams s) \<and> extends v w1"
    if "write_log os i b s v = (s1, w1)" for b s1 w1
    using stream_only_keeps(11) [of i s "fst (write_log os i b s v)"] write_log_read_fd [of os i b s v]
      extends_refl [of v] assms(1) that by (metis write_log_extends fst_conv snd_conv write_log_frame stream_only_refl)
  have eof: "read_fd (streams (upd_stream i (\<lambda>st. st\<lparr>read_fd := -1\<rparr>) s) ! i) = -1"
    using assms(3) by (simp add: upd_stream_def)
  show ?thesis
    using assms rv eof
    by (cases r) (auto dest: log simp: drain_turn_def after_read_def Let_def split_def split: if_splits)
qed

lemma drain_stream_dry:
  "runs_dry os fd n w \<Longrightarrow> read_fd (streams s ! i) = fd \<Longrightarrow> fd \<ge> 0 \<Longrightarrow> i < length (streams s) \<Longrightarrow>
   \<exists>s' w' v. drain_stream os i s w = Some (s', w') \<and> extends w v \<and>
     extends (snd (read_all_nonblock os fd IO_BUF v)) w' \<and>
     after_read fd (fst (read_all_nonblock os fd IO_BUF v)) (read_fd (streams s' ! i))"
proof (induction n arbitrary: s w)
  case (Suc n)
  obtain go s1 w1 where turn: "drain_turn os i s w = (go, s1, w1)" by (cases "drain_turn os i s w")
  note t = drain_turn_read [OF Suc.prems(2-4) turn]
  show ?case
  proof (cases go)
    case True
    then have s1: "read_fd (streams s1 ! i) = fd" "i < length (streams s1)" using t by simp_all
    have "reads fd (trace w) < reads fd (trace w1)"
      using read_counts [of fd w os IO_BUF] reads_mono [of _ w1 fd] t less_le_trans by blast
    from Suc.IH [OF runs_dry_Suc [OF Suc.prems(1) this] s1(1) Suc.prems(3) s1(2)]
    obtain s' w' v where r: "drain_stream os i s1 w1 = Some (s', w')" "extends w1 v"
      "extends (snd (read_all_nonblock os fd IO_BUF v)) w'"
      "after_read fd (fst (read_all_nonblock os fd IO_BUF v)) (read_fd (streams s' ! i))" by blast
    have "drain_stream os i s w = Some (s', w')"
      using turn True r(1) by (subst drain_stream.simps) simp
    moreover have "extends w (snd (read_all_nonblock os fd IO_BUF w))" by simp
    then have "extends w v" using t r(2) extends_trans by blast
    ultimately show ?thesis using r(3,4) by blast
  next
    case False
    then have "drain_stream os i s w = Some (s1, w1)" using turn by (subst drain_stream.simps) simp
    with t False show ?thesis by auto
  qed
next
  case 0
  obtain go s1 w1 where turn: "drain_turn os i s w = (go, s1, w1)" by (cases "drain_turn os i s w")
  note t = drain_turn_read [OF "0.prems"(2-4) turn]
  have "\<not> go" using t read_dry [OF "0.prems"(1)] by auto
  then have "drain_stream os i s w = Some (s1, w1)" using turn by (subst drain_stream.simps) simp
  with t \<open>\<not> go\<close> show ?case by auto
qed


text \<open>A pipe with one full buffer and a few bytes after it.\<close>

definition os_pipeful :: os where
  "os_pipeful = os_idle\<lparr>os_read := \<lambda>tr fd n. RData (if reads fd tr = 0 then replicate IO_BUF (CHR ''x'') else ''end'')\<rparr>"


section \<open>What \<open>write_log\<close> writes\<close>

text \<open>A stretch of a run that writes to no descriptor.\<close>

definition no_writes :: "world \<Rightarrow> world \<Rightarrow> bool" where
  "no_writes u v \<longleftrightarrow> extends u v \<and> (\<forall>fd. written fd (new_events u v) = [])"

lemma no_writes_refl [simp]: "no_writes w w"
  by (simp add: no_writes_def)

lemma no_writes_emit [simp]:
  "no_writes u v \<Longrightarrow> (\<And>fd b. e \<noteq> EWrite fd b) \<Longrightarrow> no_writes u (emit e v)"
  by (auto simp: no_writes_def written_append split: event.split)

lemma no_writes_retried [simp]:
  assumes "no_writes u v" "\<And>fd b. e \<noteq> EWrite fd b"
  shows "no_writes u (retried os e v)"
proof -
  have "no_writes u (eintr_loop k e v)" for k
    using assms by (induction k arbitrary: v) auto
  then show ?thesis by (simp add: retried_def)
qed

lemma no_writes_calls [simp]:
  assumes "no_writes u v"
  shows "no_writes u (close_fd os fd v)" "no_writes u (snd (sys_open os p m v))"
    "no_writes u (snd (sys_lseek_end os fd v))" "no_writes u (snd (wall_now os v))"
  using assms by (simp_all add: close_fd_def sys_open_def sys_lseek_end_def wall_now_def Let_def)

lemma no_writes_logs [simp]:
  assumes "no_writes u w"
  shows "no_writes u (snd (open_log os i s w))" "no_writes u (snd (rotate_log os i s w))"
  using assms by (simp_all add: open_log_def rotate_log_def Let_def split_def)

lemma written_after: "no_writes u v \<Longrightarrow> extends v w \<Longrightarrow>
  written fd (new_events u w) = written fd (new_events v w)"
  by (simp add: no_writes_def written_trans [of u v w])

lemma write_log_fd_written:
  assumes len: "length (streams s) = 2" "i < 2" and fd: "log_fd (streams s ! i) \<ge> 0"
    and res: "write_log_fd os i b s w = (s', w')"
  shows "if log_fd (streams s' ! i) \<ge> 0
     then log_fd (streams s' ! i) = log_fd (streams s ! i) \<and>
          written (log_fd (streams s' ! i)) (new_events w w') = b
     else \<exists>c rest. b = c @ rest \<and> rest \<noteq> [] \<and>
          written (log_fd (streams s ! i)) (new_events w w') = c"
proof -
  let ?fd = "log_fd (streams s ! i)"
  let ?wa = "write_all os ?fd b w"
  obtain rest where rest: "b = written ?fd (new_events w (snd ?wa)) @ rest" "fst ?wa = (rest = [])"
    using write_all_spec [of b ?fd w os] by blast
  show ?thesis
  proof (cases "fst ?wa")
    case True
    with res len fd have "w' = snd ?wa" "log_fd (streams s' ! i) = ?fd"
      by (auto simp: write_log_fd_def Let_def split_def upd_stream_def)
    with True rest fd show ?thesis by simp
  next
    case False
    with res len fd have w': "w' = close_fd os ?fd (snd ?wa)" and s': "log_fd (streams s' ! i) = -1"
      by (auto simp: write_log_fd_def Let_def split_def upd_stream_def)
    have "no_writes (snd ?wa) w'" by (simp add: w')
    then have "written ?fd (new_events w w') = written ?fd (new_events w (snd ?wa))"
      unfolding no_writes_def using written_trans [of w "snd ?wa" w'] by simp
    with False rest s' show ?thesis by auto
  qed
qed

lemma write_all_other:
  "fd' \<noteq> fd \<Longrightarrow> written fd' (new_events w (snd (write_all os fd data w))) = []"
proof (induction os fd data w rule: write_all.induct)
  case (1 os fd data w)
  let ?r = "retried os (EWrite fd []) w"
  let ?rw = "sys_write os fd data ?r"
  obtain k where "trace ?r = replicate k (EWrite fd []) @ trace w" using retried_trace by blast
  moreover have "written fd' (replicate k (EWrite fd [])) = []" by (induction k) simp_all
  ultimately have "written fd' (new_events w ?r) = []" by (simp add: new_events_eq)
  moreover have "written fd' (new_events ?r (snd ?rw)) = []"
    using "1.prems" by (auto simp: sys_write_def Let_def split: option.split)
  ultimately have step: "written fd' (new_events w (snd ?rw)) = []"
    by (subst written_trans [of w ?r]) simp_all
  show ?case
  proof (cases "data \<noteq> [] \<and> fst ?rw > 0")
    case True
    then have eq: "write_all os fd data w = write_all os fd (drop (nat (fst ?rw)) data) (snd ?rw)"
      by (simp add: write_all.simps [of os fd data w] Let_def)
    have "written fd' (new_events (snd ?rw) (snd (write_all os fd data w))) = []"
      unfolding eq using "1.IH" [OF _ refl] True "1.prems" by simp
    then show ?thesis using step by (subst written_trans [of w "snd ?rw"]) (simp_all add: eq)
  next
    case False
    with step show ?thesis by (auto simp: write_all.simps [of os fd data w] Let_def)
  qed
qed

lemma write_log_fd_other:
  assumes "fd \<noteq> log_fd (streams s ! i)" "write_log_fd os i b s w = (s', w')"
  shows "written fd (new_events w w') = []"
proof -
  let ?wa = "write_all os (log_fd (streams s ! i)) b w"
  have "w' = (if fst ?wa then snd ?wa else close_fd os (log_fd (streams s ! i)) (snd ?wa))"
    using assms(2) by (auto simp: write_log_fd_def Let_def split_def split: if_splits)
  then have "no_writes (snd ?wa) w'" by simp
  moreover have "written fd (new_events w (snd ?wa)) = []" using assms(1) by (rule write_all_other)
  ultimately show ?thesis
    unfolding no_writes_def using written_trans [of w "snd ?wa" w'] by simp
qed

text \<open>How \<open>write_log\<close> proceeds: it may open the log, it may rotate it, and it writes last.\<close>

definition log_opened :: "os \<Rightarrow> nat \<Rightarrow> service \<Rightarrow> world \<Rightarrow> service \<times> world" where
  "log_opened os i s w = (if log_fd (streams s ! i) < 0 then open_log os i s w else (s, w))"

definition must_rotate :: "nat \<Rightarrow> bytes \<Rightarrow> service \<Rightarrow> bool" where
  "must_rotate i b s \<longleftrightarrow> wrap_i64 (log_len (streams s ! i) + int (length b)) > LOG_LIMIT"

definition log_ready :: "os \<Rightarrow> nat \<Rightarrow> bytes \<Rightarrow> service \<Rightarrow> world \<Rightarrow> service \<times> world" where
  "log_ready os i b s w = (case log_opened os i s w of (s, w) \<Rightarrow>
     if log_fd (streams s ! i) \<ge> 0 \<and> must_rotate i b s then rotate_log os i s w else (s, w))"

lemma write_log_ready:
  "write_log os i b s w = (case log_ready os i b s w of (s, w) \<Rightarrow>
     if log_fd (streams s ! i) < 0 then (s, w) else write_log_fd os i b s w)"
  by (auto simp: write_log_def log_ready_def log_opened_def must_rotate_def Let_def split_def)

lemma log_ready_frame:
  "no_writes w (snd (log_ready os i b s w))" "stream_only i s (fst (log_ready os i b s w))"
  by (auto simp: log_ready_def log_opened_def split_def)

text \<open>C14. Writing to a service log loses nothing silently: when the log is open afterwards, every
  byte of the data has been written to it, in order and once; when it is closed, the data has
  not been written in full.\<close>

theorem write_log_all_or_closed:
  assumes "length (streams s) = 2" "i < 2" "b \<noteq> []" "write_log os i b s w = (s', w')"
  shows "if log_fd (streams s' ! i) \<ge> 0
     then written (log_fd (streams s' ! i)) (new_events w w') = b
     else \<forall>fd. written fd (new_events w w') \<noteq> b"
proof -
  obtain s1 w1 where ready: "log_ready os i b s w = (s1, w1)" by (cases "log_ready os i b s w")
  have nw: "no_writes w w1" and so: "stream_only i s s1"
    using log_ready_frame(1) [of w os i b s] log_ready_frame(2) [of i s os b w] ready by simp_all
  have len: "length (streams s1) = 2" using stream_only_keeps(11) [OF so] assms(1) by simp
  show ?thesis
  proof (cases "log_fd (streams s1 ! i) < 0")
    case True
    with assms(4) ready have "s' = s1" "w' = w1" by (simp_all add: write_log_ready)
    with True nw assms(3) show ?thesis by (simp add: no_writes_def)
  next
    case False
    with assms(4) ready have res: "write_log_fd os i b s1 w1 = (s', w')"
      by (simp add: write_log_ready)
    have "extends w1 (snd (write_log_fd os i b s1 w1))" by simp
    then have "extends w1 w'" using res by simp
    then have eq: "written fd (new_events w w') = written fd (new_events w1 w')" for fd
      using written_after [OF nw] by simp
    have "log_fd (streams s1 ! i) \<ge> 0" using False by simp
    note spec = write_log_fd_written [OF len assms(2) this res]
    have other: "written fd (new_events w1 w') = []" if "fd \<noteq> log_fd (streams s1 ! i)" for fd
      by (rule write_log_fd_other [OF that res])
    show ?thesis
    proof (cases "log_fd (streams s' ! i) \<ge> 0")
      case True
      have "written (log_fd (streams s' ! i)) (new_events w1 w') = b"
        using spec unfolding if_P [OF True] by (rule conjunct2)
      with True show ?thesis unfolding eq by simp
    next
      case closed: False
      with spec obtain rest where "b = written (log_fd (streams s1 ! i)) (new_events w1 w') @ rest"
        "rest \<noteq> []" by auto
      then have "written fd (new_events w1 w') \<noteq> b" for fd
        using other [of fd] assms(3) by (cases "fd = log_fd (streams s1 ! i)") auto
      with closed show ?thesis unfolding eq by simp
    qed
  qed
qed

theorem write_log_all_or_closed_witness:
  "\<forall>w. if log_fd (streams (fst (write_log os_idle 0 ''x'' SERVICE_EMPTY w)) ! 0) \<ge> 0
     then written (log_fd (streams (fst (write_log os_idle 0 ''x'' SERVICE_EMPTY w)) ! 0))
       (new_events w (snd (write_log os_idle 0 ''x'' SERVICE_EMPTY w))) = ''x''
     else \<forall>fd. written fd (new_events w (snd (write_log os_idle 0 ''x'' SERVICE_EMPTY w))) \<noteq> ''x''"
proof (intro allI)
  fix w :: world
  have len: "length (streams SERVICE_EMPTY) = 2" by (simp add: SERVICE_EMPTY_def)
  show "if log_fd (streams (fst (write_log os_idle 0 ''x'' SERVICE_EMPTY w)) ! 0) \<ge> 0
     then written (log_fd (streams (fst (write_log os_idle 0 ''x'' SERVICE_EMPTY w)) ! 0))
       (new_events w (snd (write_log os_idle 0 ''x'' SERVICE_EMPTY w))) = ''x''
     else \<forall>fd. written fd (new_events w (snd (write_log os_idle 0 ''x'' SERVICE_EMPTY w))) \<noteq> ''x''"
    by (rule write_log_all_or_closed [OF len _ _ surjective_pairing]) simp_all
qed

text \<open>The path names a run touched, in order.\<close>

fun file_ops :: "event list \<Rightarrow> event list" where
  "file_ops [] = []"
| "file_ops (e # es) = (case e of EMkdir p \<Rightarrow> [e] | ERename p q \<Rightarrow> [e] | EOpen p m r \<Rightarrow> [e]
     | EUnlink p \<Rightarrow> [e] | EAccess p m r \<Rightarrow> [e] | _ \<Rightarrow> []) @ file_ops es"

lemma file_ops_append: "file_ops (es @ fs) = file_ops es @ file_ops fs"
  by (induction es) simp_all

lemma file_ops_close: "file_ops (new_events w (close_fd os fd w)) = []"
proof -
  obtain k where "trace (retried os (EClose fd) w) = replicate k (EClose fd) @ trace w"
    using retried_trace by blast
  then have "new_events w (retried os (EClose fd) w) = replicate k (EClose fd)"
    by (simp add: new_events_eq)
  moreover have "file_ops (replicate k (EClose fd)) = []" by (induction k) simp_all
  ultimately show ?thesis by (simp add: close_fd_def file_ops_append)
qed

lemma svc_path_of: "svc_wf s \<Longrightarrow> NUL \<notin> set x \<Longrightarrow> length (dir_bytes s) + length x \<le> 1023 \<Longrightarrow>
  cs_bytes (cs_push x (cs_from_bytes (cs_bytes (cs_from_bytes (dir_bytes s))))) = dir_bytes s @ x"
proof -
  assume wf: "svc_wf s" and x: "NUL \<notin> set x" "length (dir_bytes s) + length x \<le> 1023"
  have "nz x = x" using x by (auto simp: filter_id_conv)
  then show ?thesis using wf x by (simp add: bytes_simps nz_dir)
qed

lemma open_log_files:
  assumes "svc_wf s" "length (dir_bytes s) \<le> 1000"
  shows "\<exists>fd. file_ops (new_events w (snd (open_log os i s w))) =
    [EMkdir (dir_bytes s @ ''/log''), EOpen (dir_bytes s @ ''/log'' @ log_suffix i) O_WR_CREAT_APPEND fd]"
proof -
  let ?d = "dir_bytes s"
  have nz: "nz ?d = ?d" "nz ''/log'' = ''/log''" "nz (log_suffix i) = log_suffix i"
    using assms(1) by (simp_all add: nz_dir log_suffix_def)
  have len: "length (log_suffix i) = 12" by (simp add: log_suffix_def)
  let ?l = "cs_push ''/log'' (cs_from_bytes (cs_bytes (cs_from_bytes ?d)))"
  have l: "cs_bytes ?l = ?d @ ''/log''" by (rule svc_path_of) (use assms in simp_all)
  have p: "cs_bytes (cs_push (log_suffix i) (cs_from_bytes (?d @ ''/log''))) = ?d @ ''/log'' @ log_suffix i"
    using assms(2) by (simp add: bytes_simps nz len)
  let ?w = "close_fd os (log_fd (streams s ! i)) w"
  have "new_events w (snd (open_log os i s w)) = new_events w ?w @
      new_events ?w (snd (open_log os i s w))"
    by (rule new_events_trans) (simp_all add: open_log_def Let_def split_def)
  moreover have "\<exists>fd. file_ops (new_events ?w (snd (open_log os i s w))) =
    [EMkdir (?d @ ''/log''), EOpen (?d @ ''/log'' @ log_suffix i) O_WR_CREAT_APPEND fd]"
    unfolding open_log_def Let_def split_def
    by (simp add: cs_cstr_bytes l p sys_open_def sys_lseek_end_def Let_def)
  ultimately show ?thesis by (simp add: file_ops_append file_ops_close)
qed

text \<open>C16. Rotation renames \<open><dir>/current.out\<close> (or \<open>.err\<close>), but the log that is reopened, and that
  had grown too long, is \<open><dir>/log/current.out\<close>: the file that is full is not moved away.\<close>

theorem rotate_log_misses_the_log:
  assumes "svc_wf s" "length (dir_bytes s) \<le> 900"
  shows "\<exists>arch fd. file_ops (new_events w (snd (rotate_log os i s w))) =
    [ERename (dir_bytes s @ log_suffix i) arch,
     EMkdir (dir_bytes s @ ''/log''),
     EOpen (dir_bytes s @ ''/log'' @ log_suffix i) O_WR_CREAT_APPEND fd] \<and>
    dir_bytes s @ log_suffix i \<noteq> dir_bytes s @ ''/log'' @ log_suffix i"
proof -
  let ?d = "dir_bytes s"
  have len: "length (log_suffix i) = 12" "NUL \<notin> set (log_suffix i)" by (simp_all add: log_suffix_def)
  have src: "cs_cstr (cs_push (log_suffix i) (cs_from_bytes (cs_bytes (cs_from_bytes ?d)))) = ?d @ log_suffix i"
    using svc_path_of [OF assms(1) len(2)] assms(2) len(1) by (simp add: cs_cstr_bytes)
  obtain arch s1 where rot: "snd (rotate_log os i s w) = snd (open_log os i s1
      (emit (ERename (?d @ log_suffix i) arch) (emit (EAsk QTime)
         (close_fd os (log_fd (streams s ! i)) w))))"
    and s1: "svc_wf s1" "dir_bytes s1 = ?d"
    using assms(1) by (simp add: rotate_log_def Let_def split_def wall_now_def src)
  let ?c = "close_fd os (log_fd (streams s ! i)) w"
  let ?r = "emit (ERename (?d @ log_suffix i) arch) (emit (EAsk QTime) ?c)"
  obtain fd where op: "file_ops (new_events ?r (snd (open_log os i s1 ?r))) =
    [EMkdir (?d @ ''/log''), EOpen (?d @ ''/log'' @ log_suffix i) O_WR_CREAT_APPEND fd]"
    using open_log_files [OF s1(1), of ?r os i] assms(2) s1(2) by auto
  have "file_ops (new_events w ?r) = [ERename (?d @ log_suffix i) arch]"
    by (simp add: file_ops_append file_ops_close)
  moreover have "new_events w (snd (open_log os i s1 ?r)) = new_events w ?r @
      new_events ?r (snd (open_log os i s1 ?r))"
    by (rule new_events_trans) simp_all
  ultimately have "file_ops (new_events w (snd (rotate_log os i s w))) =
    [ERename (?d @ log_suffix i) arch, EMkdir (?d @ ''/log''),
     EOpen (?d @ ''/log'' @ log_suffix i) O_WR_CREAT_APPEND fd]"
    using op by (simp add: rot file_ops_append)
  moreover have "log_suffix i \<noteq> ''/log'' @ log_suffix i" by (simp add: log_suffix_def)
  ultimately show ?thesis by blast
qed

theorem rotate_log_misses_the_log_witness:
  "\<forall>w os. \<exists>arch fd. file_ops (new_events w (snd (rotate_log os 0 SERVICE_EMPTY w))) =
    [ERename ''/current.out'' arch, EMkdir ''/log'', EOpen ''/log/current.out'' O_WR_CREAT_APPEND fd]"
proof (intro allI)
  fix w :: world and os :: os
  have d: "dir_bytes SERVICE_EMPTY = []" by (simp add: SERVICE_EMPTY_def dir_bytes_def)
  show "\<exists>arch fd. file_ops (new_events w (snd (rotate_log os 0 SERVICE_EMPTY w))) =
    [ERename ''/current.out'' arch, EMkdir ''/log'', EOpen ''/log/current.out'' O_WR_CREAT_APPEND fd]"
    using rotate_log_misses_the_log [OF svc_wf_EMPTY, of w os 0] by (simp add: d log_suffix_def)
qed

end
