(* ===== verification/Service_Start.thy ===== *)
theory Service_Start
  imports Service_Logs
begin

text \<open>
  Starting a service and running its \<open>finish\<close> script (middle part of \<open>src/service.rs\<close>). The
  code of a forked child is a function of its world, run inside \<open>sys_fork\<close>; a call that ends the
  child (\<open>_exit\<close>, a successful \<open>execve\<close>) is the last event of its list. Blocks the code repeats
  in each child are one definition each (\<open>child_enter\<close>, \<open>child_drop\<close>, \<open>child_exec\<close>).
\<close>

section \<open>Children\<close>

definition proc :: "proc_call \<Rightarrow> world \<Rightarrow> world" where
  "proc c w = emit (EProc c) w"

text \<open>\<open>chroot\<close> and \<open>chdir\<close>: \<open>False\<close> when the child has exited.\<close>

definition child_enter :: "os \<Rightarrow> service \<Rightarrow> world \<Rightarrow> bool \<times> world" where
  "child_enter os s w =
     (if chroot_enabled s
      then let r = os_chroot os (trace w) (dir_cstr s);
               w = proc (PChroot (dir_cstr s) r) w
           in if r \<noteq> 0 then (False, proc (PExit 126) w)
              else (True, proc (PChdir ''/'') w)
      else (True, proc (PChdir (dir_cstr s)) w))"

definition child_drop :: "os \<Rightarrow> service \<Rightarrow> world \<Rightarrow> bool \<times> world" where
  "child_drop os s w =
     (if has_uid s
      then let w = (if gid s \<noteq> 0 then proc (PSetgroups (gid s)) (proc (PSetgid (gid s)) w) else w);
               w = proc (PSetuid (uid s)) w;
               u = os_getuid os (trace w);
               w = proc (PGetuid u) w
           in if u \<noteq> uid s then (False, proc (PExit 125) w) else (True, w)
      else (True, w))"

text \<open>\<open>execve\<close> returns only when it fails; then the child exits.\<close>

definition child_exec :: "os \<Rightarrow> service \<Rightarrow> bytes \<Rightarrow> bytes list \<Rightarrow> int \<Rightarrow> world \<Rightarrow> world" where
  "child_exec os s path argv code w =
     (let failed = os_execve_fails os (trace w) path;
          w = proc (PExecve path argv (exec_env s)) w
      in if failed then proc (PExit code) w else w)"

definition logger_child :: "os \<Rightarrow> service \<Rightarrow> cstrbuf \<Rightarrow> int \<Rightarrow> int \<Rightarrow> world \<Rightarrow> world" where
  "logger_child os s log_run pipe_read pipe_write w =
     (let w = proc PSetsid w;
          w = emit (EDup2 pipe_read 0) w;
          w = close_fd os pipe_read w;
          w = close_fd os pipe_write w;
          w = close_from os 3 w;
          w = apply_security_restrictions os s w;
          (go, w) = child_enter os s w
      in if \<not> go then w
         else let path = (if chroot_enabled s then ''/log/run'' else cs_cstr log_run)
              in child_exec os s path [path] 126 w)"

definition child_stdin :: "os \<Rightarrow> world \<Rightarrow> world" where
  "child_stdin os w =
     (let (null, w) = sys_open os (c_read DEV_NULL) O_RDONLY w
      in if null \<ge> 0
         then let w = emit (EDup2 null 0) w
              in if null \<noteq> 0 then libc_close null w else w
         else w)"

definition child_output :: "service \<Rightarrow> int \<times> int \<Rightarrow> int \<times> int \<Rightarrow> world \<Rightarrow> world" where
  "child_output s out_fds err_fds w =
     (if has_log s
      then let w = emit (EDup2 (fst out_fds) 1) w;
               w = emit (EDup2 (fst out_fds) 2) w
           in libc_close (fst out_fds) w
      else let w = emit (EDup2 (snd out_fds) 1) w;
               w = emit (EDup2 (snd err_fds) 2) w;
               w = libc_close (fst out_fds) w;
               w = libc_close (fst err_fds) w;
               w = libc_close (snd out_fds) w
           in libc_close (snd err_fds) w)"

definition main_child :: "os \<Rightarrow> service \<Rightarrow> int \<times> int \<Rightarrow> int \<times> int \<Rightarrow> world \<Rightarrow> world" where
  "main_child os s out_fds err_fds w =
     (let w = proc PSetsid w;
          w = apply_security_restrictions os s w;
          (go, w) = child_enter os s w
      in if \<not> go then w
         else let (go, w) = child_drop os s w
              in if \<not> go then w
                 else let w = child_stdin os w;
                          w = child_output s out_fds err_fds w;
                          w = close_from os 3 w;
                          path = (if chroot_enabled s then ''/run'' else cs_cstr (svc_path s ''/run''))
                      in child_exec os s path [path] 127 w)"

definition finish_child :: "os \<Rightarrow> service \<Rightarrow> world \<Rightarrow> world" where
  "finish_child os s w =
     (let w = apply_security_restrictions os s w;
          (go, w) = child_enter os s w
      in if \<not> go then w
         else let (go, w) = child_drop os s w
              in if \<not> go then w
                 else let exit_str = format_i64_buf (exit_code s);
                          sig_str = format_i64_buf (term_signal s);
                          path = (if chroot_enabled s then ''/finish''
                                  else cs_cstr (svc_path s ''/finish''))
                      in child_exec os s path [path, c_read exit_str, c_read sig_str] 127 w)"

section \<open>\<open>start_service\<close>\<close>

text \<open>The logger: its pipe, its process, and the write end for the service (\<open>-1\<close> without one).\<close>

definition start_logger :: "os \<Rightarrow> service \<Rightarrow> world \<Rightarrow> service \<times> int \<times> world" where
  "start_logger os s w =
     (if has_log s
      then let log_run = svc_path s ''/log/run'';
               (r, w) = sys_access os (cs_cstr log_run) X_OK w
           in if r = 0
              then case pipe_new os w of
                     (Some (pipe_read, pipe_write), w) \<Rightarrow>
                       let (p, w) = sys_fork os (logger_child os s log_run pipe_read pipe_write) w
                       in if p > 0
                          then let s = s\<lparr>log_pid := p\<rparr>;
                                   s = s\<lparr>log_state := STATE_RUNNING\<rparr>;
                                   (t, w) = mono_now os w;
                                   s = s\<lparr>log_started_at := t\<rparr>;
                                   s = s\<lparr>log_stopping := False\<rparr>
                               in (s, pipe_write, close_fd os pipe_read w)
                          else (s\<lparr>has_log := False\<rparr>, -1,
                                close_fd os pipe_read (close_fd os pipe_write w))
                   | (None, w) \<Rightarrow> (s\<lparr>has_log := False\<rparr>, -1, w)
              else (s\<lparr>has_log := False\<rparr>, -1, w)
      else (s, -1, w))"

text \<open>The pipes for output and errors of a service without a logger.\<close>

definition start_pipes :: "os \<Rightarrow> world \<Rightarrow> ((int \<times> int) \<times> (int \<times> int)) option \<times> world" where
  "start_pipes os w =
     (case pipe_new os w of
        (None, w) \<Rightarrow> (None, w)
      | (Some out_fds, w) \<Rightarrow>
          (case pipe_new os w of
             (None, w) \<Rightarrow> (None, close_fd os (snd out_fds) (close_fd os (fst out_fds) w))
           | (Some err_fds, w) \<Rightarrow> (Some (out_fds, err_fds), w)))"

definition start_failed :: "os \<Rightarrow> service \<Rightarrow> world \<Rightarrow> service \<times> world" where
  "start_failed os s w =
     (let s = s\<lparr>state := STATE_FAILED\<rparr>;
          (t, w) = mono_now os w;
          s = s\<lparr>restart_at := wrap_i64 (t + BACKOFF_SHORT)\<rparr>
      in (s, write_status_file os s w))"

text \<open>The parent after the fork of the main process.\<close>

definition start_parent :: "os \<Rightarrow> int \<Rightarrow> service \<Rightarrow> int \<times> int \<Rightarrow> int \<times> int \<Rightarrow> world \<Rightarrow>
    service \<times> world" where
  "start_parent os p s out_fds err_fds w =
     (let w = (if has_log s then close_fd os (fst out_fds) w
               else close_fd os (snd err_fds) (close_fd os (snd out_fds) w))
      in if p > 0
         then let s = s\<lparr>pid := p, state := STATE_RUNNING, exit_code := 0, term_signal := 0\<rparr>;
                  (t, w) = mono_now os w;
                  s = s\<lparr>started_at := t, manual_start := False\<rparr>;
                  (s, w) =
                    (if has_log s
                     then (upd_stream 1 (\<lambda>st. st\<lparr>read_fd := -1\<rparr>)
                             (upd_stream 0 (\<lambda>st. st\<lparr>read_fd := -1\<rparr>) s), w)
                     else let s = upd_stream 0 (\<lambda>st. st\<lparr>read_fd := fst out_fds\<rparr>) s;
                              s = upd_stream 1 (\<lambda>st. st\<lparr>read_fd := fst err_fds\<rparr>) s;
                              (s, w) = open_log os 0 s w
                          in open_log os 1 s w);
                  w = write_status_file os s w;
                  w = supervisor_log os ''service started: '' w
              in (s, supervisor_log os (name_bytes s) w)
         else let w = (if \<not> has_log s
                       then close_fd os (fst err_fds) (close_fd os (fst out_fds) w) else w);
                  s = s\<lparr>pid := -1\<rparr>;
                  (s, w) = start_failed os s w;
                  w = supervisor_log os ''fork failed for service: '' w
              in (s, supervisor_log os (name_bytes s) w))"

definition start_main :: "os \<Rightarrow> service \<Rightarrow> int \<times> int \<Rightarrow> int \<times> int \<Rightarrow> world \<Rightarrow> service \<times> world" where
  "start_main os s out_fds err_fds w =
     (let (p, w) = sys_fork os (main_child os s out_fds err_fds) w
      in start_parent os p s out_fds err_fds w)"

definition start_service :: "os \<Rightarrow> service \<Rightarrow> world \<Rightarrow> service \<times> world" where
  "start_service os s w =
     (if \<not> active s \<or> \<not> present s \<or> stopping s \<or> pid s > 0 then (s, w)
      else let (s, w) = prepare_service_env os s w;
               w = close_fd os (read_fd (streams s ! 0)) w;
               w = close_fd os (read_fd (streams s ! 1)) w;
               s = upd_stream 0 (\<lambda>st. st\<lparr>read_fd := -1\<rparr>) s;
               s = upd_stream 1 (\<lambda>st. st\<lparr>read_fd := -1\<rparr>) s;
               (s, log_w, w) = start_logger os s w
           in if has_log s then start_main os s (log_w, -1) (-1, -1) w
              else case start_pipes os w of
                     (None, w) \<Rightarrow> start_failed os s w
                   | (Some (out_fds, err_fds), w) \<Rightarrow> start_main os s out_fds err_fds w)"

definition run_finish :: "os \<Rightarrow> service \<Rightarrow> world \<Rightarrow> world" where
  "run_finish os s w =
     (let (r, w) = sys_access os (cs_cstr (svc_path s ''/finish'')) X_OK w
      in if r \<noteq> 0 then w
         else let (s_clone, w) = prepare_service_env os s w
              in snd (sys_fork os (finish_child os s_clone) w))"

section \<open>The invariant is kept\<close>

lemma extends_proc [simp]: "extends u w \<Longrightarrow> extends u (proc c w)"
  and kill_log_proc [simp]: "kill_log (proc c w) = kill_log w"
  by (simp_all add: proc_def)

text \<open>The part of a service that starting leaves alone.\<close>

definition same_id :: "service \<Rightarrow> service \<Rightarrow> bool" where
  "same_id s s' \<longleftrightarrow> active s' = active s \<and> present s' = present s \<and> name_bytes s' = name_bytes s \<and>
     dir_bytes s' = dir_bytes s \<and> auto_start s' = auto_start s \<and> once s' = once s \<and>
     restarts s' = restarts s \<and> deps s' = deps s \<and> deps_count s' = deps_count s"

lemma same_id_refl [simp]: "same_id s s"
  by (simp add: same_id_def)

lemma same_id_trans [trans]: "same_id s t \<Longrightarrow> same_id t u \<Longrightarrow> same_id s u"
  by (simp add: same_id_def)

lemma stream_only_same_id: "stream_only i s t \<Longrightarrow> same_id s t"
  by (auto simp: stream_only_def same_id_def upd_stream_def name_bytes_def dir_bytes_def)

lemma prepare_same_id: "same_id s (fst (prepare_service_env os s w))"
  by (simp add: same_id_def name_bytes_def dir_bytes_def)

lemma svc_ok_prepare:
  "svc_ok w s \<Longrightarrow> svc_ok (snd (prepare_service_env os s w)) (fst (prepare_service_env os s w))"
  using tracked_mono [of w "snd (prepare_service_env os s w)" s]
  by (auto simp: svc_ok_def svc_inv_def tracked_def)

text \<open>One step of starting: the invariant, the identity and the trace.\<close>

definition start_step :: "service \<Rightarrow> world \<Rightarrow> service \<Rightarrow> world \<Rightarrow> bool" where
  "start_step s w s' w' \<longleftrightarrow> svc_ok w' s' \<and> same_id s s' \<and> extends w w' \<and> kill_log w' = kill_log w"

lemma start_step_trans: "start_step s w s1 w1 \<Longrightarrow> start_step s1 w1 s2 w2 \<Longrightarrow> start_step s w s2 w2"
  unfolding start_step_def using same_id_trans extends_trans by auto

lemma start_failed_ok:
  assumes "svc_ok w s" "pid s \<le> 0"
  shows "start_step s w (fst (start_failed os s w)) (snd (start_failed os s w))"
proof -
  have "svc_ok (snd (mono_now os w)) s" by (rule svc_ok_mono [OF _ assms(1)]) simp
  then have "svc_ok (snd (mono_now os w))
      (s\<lparr>state := STATE_FAILED, restart_at := wrap_i64 (fst (mono_now os w) + BACKOFF_SHORT)\<rparr>)"
    using assms(2) by (auto simp: svc_ok_def svc_inv_def tracked_def valid_state_def wrap_i64_in)
  then show ?thesis
    by (auto simp: start_step_def start_failed_def Let_def split_def same_id_def intro!: svc_ok_status)
qed

lemma start_logger_ok:
  assumes "svc_ok w s" and res: "start_logger os s w = (s', fd, w')"
  shows "start_step s w s' w' \<and> pid s' = pid s \<and> stopping s' = stopping s \<and>
    (has_log s' \<longrightarrow> has_log s \<and> log_pid s' > 0)"
proof (cases "has_log s \<and> log_pid s' > 0 \<and> has_log s'")
  case False
  have ext: "extends w w'" "kill_log w' = kill_log w"
    using res by (auto simp: start_logger_def Let_def split_def split: if_splits option.splits)
  have "s' = s \<and> \<not> has_log s \<or> s' = s\<lparr>has_log := False\<rparr>"
    using res False by (auto simp: start_logger_def Let_def split_def split: if_splits option.splits)
  then have "svc_ok w' s' \<and> same_id s s' \<and> pid s' = pid s \<and> stopping s' = stopping s \<and> \<not> has_log s'"
    using svc_ok_mono [OF ext(1) assms(1)]
    by (auto simp: svc_ok_def svc_inv_def tracked_def same_id_def)
  with ext show ?thesis by (simp add: start_step_def)
next
  case True
  define w1 where "w1 = snd (sys_access os (cs_cstr (svc_path s ''/log/run'')) X_OK w)"
  from res True obtain rd wr w2 where pipe: "pipe_new os w1 = (Some (rd, wr), w2)"
    unfolding w1_def
    by (auto simp: start_logger_def Let_def split_def split: if_splits option.splits)
      (metis prod.collapse)
  define child where "child = logger_child os s (svc_path s ''/log/run'') rd wr"
  define p where "p = fst (sys_fork os child w2)"
  define w3 where "w3 = snd (sys_fork os child w2)"
  define t where "t = fst (mono_now os w3)"
  define w4 where "w4 = snd (mono_now os w3)"
  have eq: "p > 0 \<and> s' = s\<lparr>log_pid := p, log_state := STATE_RUNNING, log_started_at := t,
      log_stopping := False\<rparr> \<and> w' = close_fd os rd w4"
    using res True pipe unfolding w1_def p_def w3_def t_def w4_def child_def
    by (auto simp: start_logger_def Let_def split_def split: if_splits)
  have w1: "extends w w1" "kill_log w1 = kill_log w" by (simp_all add: w1_def)
  have w2: "extends w w2" "kill_log w2 = kill_log w"
    using extends_pipe_new [OF w1(1), of os] kill_log_pipe_new [of os w1] pipe w1 by simp_all
  have ext: "extends w3 w'" "extends w w'" "kill_log w' = kill_log w"
    using eq w2 by (simp_all add: w3_def w4_def)
  have "p \<in> forked w3" using eq fork_forked [of os child w2] by (simp add: p_def w3_def)
  then have "p \<in> forked w'" using forked_mono [OF ext(1)] by blast
  moreover have "in_i32 p" "in_i64 t" using sys_fork_range(1) mono_now_in by (simp_all add: p_def t_def)
  moreover have "svc_ok w' s" by (rule svc_ok_mono [OF ext(2) assms(1)])
  ultimately have "svc_ok w' s'"
    using eq by (auto simp: svc_ok_def svc_inv_def tracked_def)
  with ext eq True show ?thesis by (simp add: start_step_def same_id_def)
qed

lemma start_pipes_ok: "extends w (snd (start_pipes os w)) \<and> kill_log (snd (start_pipes os w)) = kill_log w"
proof -
  obtain r1 w1 where p1: "pipe_new os w = (r1, w1)" by (cases "pipe_new os w")
  obtain r2 w2 where p2: "pipe_new os w1 = (r2, w2)" by (cases "pipe_new os w1")
  have "extends w w1" "kill_log w1 = kill_log w" "extends w w2" "kill_log w2 = kill_log w1"
    using extends_pipe_new [of w w os] kill_log_pipe_new [of os w] p1
      extends_pipe_new [of w w1 os] kill_log_pipe_new [of os w1] p2 by simp_all
  then show ?thesis by (simp add: start_pipes_def p1 p2 split: option.split)
qed

text \<open>The record of the parent right after a successful fork.\<close>

lemma started_ok:
  assumes "svc_ok w s" "p \<in> forked w" "p > 0" "in_i32 p" "\<not> stopping s" "in_i64 t"
  shows "svc_ok w (s\<lparr>pid := p, state := STATE_RUNNING, exit_code := 0, term_signal := 0,
    started_at := t, manual_start := False\<rparr>)"
  using assms by (auto simp: svc_ok_def svc_inv_def tracked_def valid_state_def in_i32_def)

definition start_streams :: "os \<Rightarrow> service \<Rightarrow> int \<Rightarrow> int \<Rightarrow> world \<Rightarrow> service \<times> world" where
  "start_streams os s out_fd err_fd w =
     (if has_log s
      then (upd_stream 1 (\<lambda>st. st\<lparr>read_fd := -1\<rparr>) (upd_stream 0 (\<lambda>st. st\<lparr>read_fd := -1\<rparr>) s), w)
      else let s = upd_stream 0 (\<lambda>st. st\<lparr>read_fd := out_fd\<rparr>) s;
               s = upd_stream 1 (\<lambda>st. st\<lparr>read_fd := err_fd\<rparr>) s;
               (s, w) = open_log os 0 s w
           in open_log os 1 s w)"

lemma start_streams_frame:
  "(\<forall>v. svc_ok v (fst (start_streams os s a b w)) = svc_ok v s) \<and>
   same_id s (fst (start_streams os s a b w)) \<and>
   extends w (snd (start_streams os s a b w)) \<and>
   kill_log (snd (start_streams os s a b w)) = kill_log w \<and>
   pid (fst (start_streams os s a b w)) = pid s \<and> state (fst (start_streams os s a b w)) = state s \<and>
   manual_start (fst (start_streams os s a b w)) = manual_start s \<and>
   started_at (fst (start_streams os s a b w)) = started_at s"
proof (cases "has_log s")
  case True
  then show ?thesis
    by (simp add: start_streams_def) (simp add: same_id_def upd_stream_def)
next
  case False
  let ?s0 = "upd_stream 1 (\<lambda>st. st\<lparr>read_fd := b\<rparr>) (upd_stream 0 (\<lambda>st. st\<lparr>read_fd := a\<rparr>) s)"
  let ?o0 = "open_log os 0 ?s0 w"
  let ?o1 = "open_log os 1 (fst ?o0) (snd ?o0)"
  have "start_streams os s a b w = ?o1"
    using False by (simp add: start_streams_def Let_def split_def)
  moreover have o: "stream_only 0 ?s0 (fst ?o0)" "stream_only 1 (fst ?o0) (fst ?o1)" by simp_all
  moreover have "same_id s ?s0" by (simp add: same_id_def upd_stream_def name_bytes_def dir_bytes_def)
  moreover have "started_at ?s0 = started_at s" by (simp add: upd_stream_def)
  moreover have "same_id ?s0 (fst ?o1)"
    using same_id_trans [OF stream_only_same_id stream_only_same_id] o by blast
  ultimately show ?thesis
    using stream_only_keeps(1,7,9,13,15) [OF o(1)] stream_only_keeps(1,7,9,13,15) [OF o(2)] same_id_trans
    by auto
qed

lemma start_parent_ok:
  assumes ok: "svc_ok w s" "pid s \<le> 0" "\<not> stopping s" and p: "p > 0 \<longrightarrow> p \<in> forked w" "in_i32 p"
    and res: "start_parent os p s out_fds err_fds w = (s', w')"
  shows "start_step s w s' w'"
proof (cases "p > 0")
  case True
  let ?w1 = "if has_log s then close_fd os (fst out_fds) w
     else close_fd os (snd err_fds) (close_fd os (snd out_fds) w)"
  let ?t = "fst (mono_now os ?w1)" and ?w2 = "snd (mono_now os ?w1)"
  let ?s = "s\<lparr>pid := p, state := STATE_RUNNING, exit_code := 0, term_signal := 0,
    started_at := ?t, manual_start := False\<rparr>"
  let ?sw = "start_streams os ?s (fst out_fds) (fst err_fds) ?w2"
  have ext: "extends w ?w2" "kill_log ?w2 = kill_log w" by simp_all
  have "svc_ok ?w2 ?s"
    using started_ok [OF svc_ok_mono [OF ext(1) ok(1)] _ True p(2) ok(3) mono_now_in]
      forked_mono [OF ext(1)] p(1) True by auto
  moreover have "same_id s ?s" by (simp add: same_id_def)
  ultimately have one: "start_step s w ?s ?w2" using ext by (simp add: start_step_def)
  have sw: "svc_ok v (fst ?sw) = svc_ok v ?s" "same_id ?s (fst ?sw)"
    "extends ?w2 (snd ?sw)" "kill_log (snd ?sw) = kill_log ?w2" for v
    using start_streams_frame [of os ?s "fst out_fds" "fst err_fds" ?w2] by blast+
  have "svc_ok (snd ?sw) (fst ?sw)"
    unfolding sw(1) by (rule svc_ok_mono [OF sw(3)]) (use one in \<open>simp only: start_step_def\<close>)
  then have "start_step ?s ?w2 (fst ?sw) (snd ?sw)" unfolding start_step_def using sw by blast
  from start_step_trans [OF one this] have "start_step s w (fst ?sw) (snd ?sw)" .
  moreover have "s' = fst ?sw" "w' = supervisor_log os (name_bytes s') (supervisor_log os
      ''service started: '' (write_status_file os s' (snd ?sw)))"
    using res True by (auto simp: start_parent_def start_streams_def Let_def split_def)
  ultimately show ?thesis by (auto simp: start_step_def intro!: svc_ok_status)
next
  case False
  let ?w1 = "if has_log s then close_fd os (fst out_fds) w
     else close_fd os (snd err_fds) (close_fd os (snd out_fds) w)"
  let ?w2 = "if \<not> has_log s then close_fd os (fst err_fds) (close_fd os (fst out_fds) ?w1) else ?w1"
  let ?s = "s\<lparr>pid := -1\<rparr>"
  have ext: "extends w ?w2" "kill_log ?w2 = kill_log w" by simp_all
  have "svc_ok ?w2 ?s"
    using svc_ok_mono [OF ext(1) ok(1)] ok(2)
    by (auto simp: svc_ok_def svc_inv_def tracked_def in_i32_def)
  then have "start_step ?s ?w2 (fst (start_failed os ?s ?w2)) (snd (start_failed os ?s ?w2))"
    by (rule start_failed_ok) simp
  moreover have "start_step s w ?s ?w2"
    using ext \<open>svc_ok ?w2 ?s\<close> by (simp add: start_step_def same_id_def)
  ultimately have "start_step s w (fst (start_failed os ?s ?w2)) (snd (start_failed os ?s ?w2))"
    by (rule start_step_trans [rotated])
  moreover have "s' = fst (start_failed os ?s ?w2)"
    "w' = supervisor_log os (name_bytes s') (supervisor_log os ''fork failed for service: ''
       (snd (start_failed os ?s ?w2)))"
    using res False by (auto simp: start_parent_def Let_def split_def)
  ultimately show ?thesis by (auto simp: start_step_def intro!: svc_ok_status)
qed

lemma start_main_ok:
  assumes ok: "svc_ok w s" "pid s \<le> 0" "\<not> stopping s"
  shows "start_step s w (fst (start_main os s o2 e2 w)) (snd (start_main os s o2 e2 w))"
proof -
  let ?f = "sys_fork os (main_child os s o2 e2) w"
  have ext: "extends w (snd ?f)" "kill_log (snd ?f) = kill_log w" by simp_all
  have s: "svc_ok (snd ?f) s" by (rule svc_ok_mono [OF ext(1) ok(1)])
  obtain s' w' where res: "start_parent os (fst ?f) s o2 e2 (snd ?f) = (s', w')"
    by (cases "start_parent os (fst ?f) s o2 e2 (snd ?f)")
  have "start_step s (snd ?f) s' w'"
    by (rule start_parent_ok [OF s ok(2,3) _ _ res]) (simp_all add: fork_forked sys_fork_range(1))
  moreover have "start_step s w s (snd ?f)" using ext s by (simp add: start_step_def)
  ultimately show ?thesis using start_step_trans res by (auto simp: start_main_def split_def)
qed

section \<open>What starting leaves behind\<close>

text \<open>A call made between two points of a run: the clock was read as \<open>t\<close>, and a child with the code of
  the main process of \<open>s\<close> was created as \<open>p\<close>.\<close>

definition clock_read :: "os \<Rightarrow> world \<Rightarrow> world \<Rightarrow> int \<Rightarrow> bool" where
  "clock_read os w w' t \<longleftrightarrow> (\<exists>v. extends w v \<and> extends (snd (mono_now os v)) w' \<and> t = fst (mono_now os v))"

definition main_forked :: "os \<Rightarrow> service \<Rightarrow> world \<Rightarrow> world \<Rightarrow> int \<Rightarrow> bool" where
  "main_forked os s w w' p \<longleftrightarrow> (\<exists>s' out_fds err_fds v. dir_bytes s' = dir_bytes s \<and> extends w v \<and>
     fst (sys_fork os (main_child os s' out_fds err_fds) v) = p \<and>
     extends (snd (sys_fork os (main_child os s' out_fds err_fds) v)) w')"

lemma main_forked_mono: "main_forked os s w v p \<Longrightarrow> extends v w' \<Longrightarrow> main_forked os s w w' p"
  unfolding main_forked_def using extends_trans by blast

lemma clock_readI: "extends w v \<Longrightarrow> extends (snd (mono_now os v)) w' \<Longrightarrow> clock_read os w w' (fst (mono_now os v))"
  unfolding clock_read_def by blast

text \<open>Running under the child just created, or failed with a retry two seconds after the clock was
  read.\<close>

definition start_outcome :: "os \<Rightarrow> service \<Rightarrow> world \<Rightarrow> service \<Rightarrow> world \<Rightarrow> bool" where
  "start_outcome os s w s' w' \<longleftrightarrow>
     (state s' = STATE_RUNNING \<and> pid s' > 0 \<and> main_forked os s w w' (pid s') \<and>
        clock_read os w w' (started_at s') \<and> \<not> manual_start s') \<or>
     (state s' = STATE_FAILED \<and> pid s' \<le> 0 \<and>
        (\<exists>t. clock_read os w w' t \<and> restart_at s' = wrap_i64 (t + 2)))"

lemma start_failed_outcome:
  assumes "pid s \<le> 0" "extends u w" "extends (snd (start_failed os s w)) w'"
  shows "start_outcome os s0 u (fst (start_failed os s w)) w'"
proof -
  have "extends (snd (mono_now os w)) (snd (start_failed os s w))"
    by (simp add: start_failed_def Let_def split_def)
  then have "clock_read os u w' (fst (mono_now os w))"
    using clock_readI [OF assms(2)] extends_trans assms(3) by blast
  with assms(1) show ?thesis by (auto simp: start_outcome_def start_failed_def Let_def split_def)
qed

lemma start_parent_outcome:
  assumes "p > 0 \<longrightarrow> main_forked os s0 u w p" "extends u w"
  shows "start_outcome os s0 u (fst (start_parent os p s o2 e2 w)) (snd (start_parent os p s o2 e2 w))"
proof (cases "p > 0")
  case True
  let ?w1 = "if has_log s then close_fd os (fst o2) w
     else close_fd os (snd e2) (close_fd os (snd o2) w)"
  let ?s = "s\<lparr>pid := p, state := STATE_RUNNING, exit_code := 0, term_signal := 0,
    started_at := fst (mono_now os ?w1), manual_start := False\<rparr>"
  let ?sw = "start_streams os ?s (fst o2) (fst e2) (snd (mono_now os ?w1))"
  let ?r = "start_parent os p s o2 e2 w"
  have eq: "?r = (fst ?sw, supervisor_log os (name_bytes (fst ?sw)) (supervisor_log os
      ''service started: '' (write_status_file os (fst ?sw) (snd ?sw))))"
    using True by (simp add: start_parent_def start_streams_def Let_def split_def)
  note f = start_streams_frame [of os ?s "fst o2" "fst e2" "snd (mono_now os ?w1)"]
  have ext: "extends (snd (mono_now os ?w1)) (snd ?r)" unfolding eq using f by simp
  have "extends u ?w1" "extends w (snd (mono_now os ?w1))" using assms(2) by simp_all
  then have "clock_read os u (snd ?r) (fst (mono_now os ?w1))" "main_forked os s0 u (snd ?r) p"
    using clock_readI [OF _ ext] main_forked_mono assms(1) True extends_trans [OF _ ext] by blast+
  moreover have "pid (fst ?r) = p" "state (fst ?r) = STATE_RUNNING" "\<not> manual_start (fst ?r)"
    "started_at (fst ?r) = fst (mono_now os ?w1)" unfolding eq using f by simp_all
  ultimately show ?thesis using True by (simp add: start_outcome_def)
next
  case False
  then show ?thesis using assms(2)
    by (auto simp: start_parent_def Let_def split_def intro!: start_failed_outcome)
qed

lemma start_main_outcome:
  assumes "dir_bytes s = dir_bytes s0" "extends u w"
  shows "start_outcome os s0 u (fst (start_main os s o2 e2 w)) (snd (start_main os s o2 e2 w))"
proof -
  let ?f = "sys_fork os (main_child os s o2 e2) w"
  have "main_forked os s0 u (snd ?f) (fst ?f)" using assms unfolding main_forked_def by blast
  moreover have "extends u (snd ?f)" using assms(2) by simp
  ultimately show ?thesis
    using start_parent_outcome [of "fst ?f" os s0 u "snd ?f" s o2 e2]
    by (simp add: start_main_def split_def Let_def)
qed

definition refuses :: "service \<Rightarrow> bool" where
  "refuses s \<longleftrightarrow> \<not> active s \<or> \<not> present s \<or> stopping s \<or> pid s > 0"

lemma start_service_both:
  assumes ok: "svc_ok w s" and go: "\<not> refuses s"
  shows "start_step s w (fst (start_service os s w)) (snd (start_service os s w)) \<and>
    start_outcome os s w (fst (start_service os s w)) (snd (start_service os s w))"
proof -
  have False: "\<not> (\<not> active s \<or> \<not> present s \<or> stopping s \<or> pid s > 0)"
    using go by (simp add: refuses_def)
  let ?p = "prepare_service_env os s w"
  let ?w1 = "close_fd os (read_fd (streams (fst ?p) ! 1)) (close_fd os (read_fd (streams (fst ?p) ! 0)) (snd ?p))"
  let ?s1 = "upd_stream 1 (\<lambda>st. st\<lparr>read_fd := -1\<rparr>) (upd_stream 0 (\<lambda>st. st\<lparr>read_fd := -1\<rparr>) (fst ?p))"
  have "svc_ok ?w1 (fst ?p)" by (rule svc_ok_mono [OF _ svc_ok_prepare [OF ok]]) simp
  then have s1: "start_step s w ?s1 ?w1"
    using prepare_same_id [of s os w] by (simp add: start_step_def) (simp add: same_id_def upd_stream_def)
  have p1: "pid ?s1 \<le> 0" "\<not> stopping ?s1" using False by simp_all
  obtain s2 lw w2 where log: "start_logger os ?s1 ?w1 = (s2, lw, w2)"
    by (cases "start_logger os ?s1 ?w1") auto
  have s2: "start_step ?s1 ?w1 s2 w2" and p2: "pid s2 \<le> 0" "\<not> stopping s2"
    using start_logger_ok [OF _ log] s1 p1 by (auto simp: start_step_def)
  have s02: "start_step s w s2 w2" by (rule start_step_trans [OF s1 s2])
  then have since: "dir_bytes s2 = dir_bytes s" "extends w w2" by (simp_all add: start_step_def same_id_def)
  show ?thesis
  proof (cases "has_log s2")
    case True
    have ok2: "svc_ok w2 s2" using s2 by (simp add: start_step_def)
    from start_step_trans [OF s02 start_main_ok [OF ok2 p2]] start_main_outcome [OF since, of os]
    show ?thesis using False True log by (simp add: start_service_def Let_def split_def)
  next
    case nolog: False
    obtain r w3 where pipes: "start_pipes os w2 = (r, w3)" by (cases "start_pipes os w2")
    have ext: "extends w2 w3" "kill_log w3 = kill_log w2"
      using start_pipes_ok [of w2 os] pipes by simp_all
    have ok3: "svc_ok w3 s2" by (rule svc_ok_mono [OF ext(1)]) (use s2 in \<open>simp add: start_step_def\<close>)
    then have s3: "start_step s2 w2 s2 w3" using ext by (simp add: start_step_def)
    have since3: "extends w w3" by (rule extends_trans [OF since(2) ext(1)])
    have "start_step s2 w3 (fst (start_service os s w)) (snd (start_service os s w)) \<and>
      start_outcome os s w (fst (start_service os s w)) (snd (start_service os s w))"
    proof (cases r)
      case None
      with False nolog log pipes start_failed_ok [OF ok3 p2(1)]
        start_failed_outcome [OF p2(1) since3 extends_refl, of os s] show ?thesis
        by (simp add: start_service_def Let_def split_def)
    next
      case (Some oe)
      with False nolog log pipes start_main_ok [OF ok3 p2, of os "fst oe" "snd oe"]
        start_main_outcome [OF since(1) since3, of os "fst oe" "snd oe"] show ?thesis
        by (simp add: start_service_def Let_def split_def)
    qed
    with start_step_trans [OF start_step_trans [OF s02 s3]] show ?thesis by blast
  qed
qed

lemma start_service_step:
  assumes ok: "svc_ok w s"
  shows "start_step s w (fst (start_service os s w)) (snd (start_service os s w))"
proof (cases "refuses s")
  case True
  with ok show ?thesis by (auto simp: start_service_def start_step_def refuses_def)
qed (use start_service_both [OF ok] in blast)

interpretation start: service_step start_service
proof unfold_locales
  fix os s and w :: world
  assume ok: "svc_ok w s"
  note step = start_service_step [OF ok, of os]
  show "svc_ok (snd (start_service os s w)) (fst (start_service os s w))"
    "active (fst (start_service os s w)) = active s"
    "name_bytes (fst (start_service os s w)) = name_bytes s"
    "dir_bytes (fst (start_service os s w)) = dir_bytes s"
    using step by (simp_all add: start_step_def same_id_def)
  show "extends w (snd (start_service os s w))" using step by (simp add: start_step_def)
  assume "kills_ok w"
  with step show "kills_ok (snd (start_service os s w))"
    by (auto simp: start_step_def intro: kills_ok_silent)
qed

section \<open>What a child does to itself\<close>

fun procs :: "event list \<Rightarrow> proc_call list" where
  "procs [] = []"
| "procs (e # es) = (case e of EProc c \<Rightarrow> [c] | _ \<Rightarrow> []) @ procs es"

lemma procs_append: "procs (es @ fs) = procs es @ procs fs"
  by (induction es) simp_all

text \<open>The calls of the process so far, oldest first.\<close>

definition proc_log :: "world \<Rightarrow> proc_call list" where
  "proc_log w = procs (rev (trace w))"

lemma proc_log_emit [simp]:
  "proc_log (emit e w) = proc_log w @ (case e of EProc c \<Rightarrow> [c] | _ \<Rightarrow> [])"
  by (simp add: proc_log_def procs_append)

lemma proc_log_proc [simp]: "proc_log (proc c w) = proc_log w @ [c]"
  by (simp add: proc_def)

lemma proc_log_new: "extends w w' \<Longrightarrow> proc_log w' = proc_log w @ procs (new_events w w')"
  by (auto simp: extends_def proc_log_def new_events_def procs_append)

lemma proc_log_retried [simp]: "(\<And>c. e \<noteq> EProc c) \<Longrightarrow> proc_log (retried os e w) = proc_log w"
proof -
  assume e: "\<And>c. e \<noteq> EProc c"
  have "proc_log (eintr_loop k e w) = proc_log w" for k
    using e by (induction k arbitrary: w) (auto split: event.split)
  then show ?thesis by (simp add: retried_def)
qed

lemma proc_log_calls [simp]:
  "proc_log (close_fd os fd w) = proc_log w"
  "proc_log (libc_close fd w) = proc_log w"
  "proc_log (snd (sys_open os p m w)) = proc_log w"
  "proc_log (snd (read_all_nonblock os fd n w)) = proc_log w"
  by (simp_all add: close_fd_def libc_close_def sys_open_def read_all_nonblock_def sys_read_def
      Let_def split: option.split)

lemma proc_log_read_file [simp]: "proc_log (snd (read_file_to_buf os p n w)) = proc_log w"
  by (simp add: read_file_to_buf_def split_def Let_def)

lemma proc_log_fold [simp]: "(\<And>x w. proc_log (f x w) = proc_log w) \<Longrightarrow>
  proc_log (fold f xs w) = proc_log w"
  by (induction xs arbitrary: w) simp_all

lemma proc_log_close_from [simp]: "proc_log (close_from os n w) = proc_log w"
  by (simp add: close_from_def Let_def)

lemma proc_log_stdio [simp]:
  "proc_log (child_stdin os w) = proc_log w" "proc_log (child_output s o2 e2 w) = proc_log w"
  by (simp_all add: child_stdin_def child_output_def Let_def split_def)

text \<open>The limits: only \<open>setrlimit\<close> and \<open>nice\<close>.\<close>

definition is_limit :: "proc_call \<Rightarrow> bool" where
  "is_limit c \<longleftrightarrow> (\<exists>k v. c = PSetrlimit k v) \<or> (\<exists>n. c = PNice n)"

lemma set_rlimit_procs: "\<exists>ls. proc_log (set_rlimit os s rf w) = proc_log w @ ls \<and> (\<forall>c \<in> set ls. is_limit c)"
proof -
  have "proc_log (snd (read_rlimit_value os s (snd rf) w)) = proc_log w"
    by (simp add: read_rlimit_value_def Let_def split_def)
  then show ?thesis
    by (simp add: set_rlimit_def Let_def split_def is_limit_def split: option.split)
qed

lemma fold_rlimit_procs:
  "\<exists>ls. proc_log (fold (set_rlimit os s) fs w) = proc_log w @ ls \<and> (\<forall>c \<in> set ls. is_limit c)"
proof (induction fs arbitrary: w)
  case (Cons f fs)
  obtain l1 where l1: "proc_log (set_rlimit os s f w) = proc_log w @ l1" "\<forall>c \<in> set l1. is_limit c"
    using set_rlimit_procs by blast
  obtain l2 where "proc_log (fold (set_rlimit os s) fs (set_rlimit os s f w)) =
      proc_log (set_rlimit os s f w) @ l2" "\<forall>c \<in> set l2. is_limit c" using Cons.IH by blast
  with l1 show ?case by (intro exI [of _ "l1 @ l2"]) auto
qed simp

lemma security_procs:
  "\<exists>ls. proc_log (apply_security_restrictions os s w) = proc_log w @ ls \<and> (\<forall>c \<in> set ls. is_limit c)"
proof -
  let ?w = "fold (set_rlimit os s) rlimit_files w"
  obtain ls where ls: "proc_log ?w = proc_log w @ ls" "\<forall>c \<in> set ls. is_limit c"
    using fold_rlimit_procs by blast
  have "proc_log (snd (read_nice_value os s ?w)) = proc_log w @ ls"
    using ls by (simp add: read_nice_value_def Let_def split_def)
  then have "proc_log (apply_security_restrictions os s w) = proc_log w @ ls @
      (case fst (read_nice_value os s ?w) of Some n \<Rightarrow> [PNice n] | None \<Rightarrow> [])"
    by (simp add: apply_security_restrictions_def Let_def split_def split: option.split)
  with ls show ?thesis
    by (intro exI [of _ "ls @ (case fst (read_nice_value os s ?w) of Some n \<Rightarrow> [PNice n] | None \<Rightarrow> [])"])
      (auto simp: is_limit_def split: option.splits)
qed

text \<open>The ways a child may go on: it cannot change its root and exits, it cannot become the user
  and exits, or it runs the program (and exits only if that fails).\<close>

definition root_calls :: "service \<Rightarrow> proc_call list" where
  "root_calls s = (if chroot_enabled s then [PChroot (dir_cstr s) 0, PChdir ''/'']
     else [PChdir (dir_cstr s)])"

definition set_ids :: "service \<Rightarrow> proc_call list" where
  "set_ids s = (if gid s \<noteq> 0 then [PSetgid (gid s), PSetgroups (gid s)] else []) @ [PSetuid (uid s)]"

definition id_calls :: "service \<Rightarrow> proc_call list" where
  "id_calls s = (if has_uid s then set_ids s @ [PGetuid (uid s)] else [])"

definition run_calls :: "service \<Rightarrow> bytes \<Rightarrow> bytes list \<Rightarrow> int \<Rightarrow> proc_call list \<Rightarrow> bool" where
  "run_calls s path argv code cs \<longleftrightarrow> cs = [PExecve path argv (exec_env s)] \<or>
     cs = [PExecve path argv (exec_env s), PExit code]"

definition child_calls :: "service \<Rightarrow> bytes \<Rightarrow> bytes list \<Rightarrow> int \<Rightarrow> proc_call list \<Rightarrow> bool" where
  "child_calls s path argv code cs \<longleftrightarrow>
     (chroot_enabled s \<and> (\<exists>r. r \<noteq> 0 \<and> cs = [PChroot (dir_cstr s) r, PExit 126])) \<or>
     (has_uid s \<and> (\<exists>u. u \<noteq> uid s \<and> cs = root_calls s @ set_ids s @ [PGetuid u, PExit 125])) \<or>
     (\<exists>rs. run_calls s path argv code rs \<and> cs = root_calls s @ id_calls s @ rs)"

lemma child_enter_procs:
  "child_enter os s w = (go, w') \<Longrightarrow>
   (if go then proc_log w' = proc_log w @ root_calls s
    else chroot_enabled s \<and> (\<exists>r. r \<noteq> 0 \<and> proc_log w' = proc_log w @ [PChroot (dir_cstr s) r, PExit 126]))"
  by (auto simp: child_enter_def root_calls_def Let_def split: if_splits)

lemma child_drop_procs:
  "child_drop os s w = (go, w') \<Longrightarrow>
   (if go then proc_log w' = proc_log w @ id_calls s
    else has_uid s \<and> (\<exists>u. u \<noteq> uid s \<and> proc_log w' = proc_log w @ set_ids s @ [PGetuid u, PExit 125]))"
  by (auto simp: child_drop_def id_calls_def set_ids_def Let_def split: if_splits)

lemma child_exec_procs: "\<exists>rs. proc_log (child_exec os s path argv code w) = proc_log w @ rs \<and>
  run_calls s path argv code rs"
  by (simp add: child_exec_def run_calls_def Let_def)

text \<open>The part the three children that change their identity have in common.\<close>

lemma child_tail_procs:
  assumes "\<And>w. proc_log (mid w) = proc_log w"
  shows "\<exists>cs. proc_log (let (go, w) = child_enter os s w
      in if \<not> go then w
         else let (go, w) = child_drop os s w
              in if \<not> go then w else child_exec os s path argv code (mid w)) = proc_log w @ cs \<and>
    child_calls s path argv code cs"
proof -
  obtain g1 w1 where enter: "child_enter os s w = (g1, w1)" by (cases "child_enter os s w")
  obtain g2 w2 where drop: "child_drop os s w1 = (g2, w2)" by (cases "child_drop os s w1")
  obtain rs where rs: "proc_log (child_exec os s path argv code (mid w2)) = proc_log w2 @ rs"
    "run_calls s path argv code rs" using child_exec_procs [of os s path argv code "mid w2"] assms by auto
  show ?thesis
    using child_enter_procs [OF enter] child_drop_procs [OF drop] rs
    by (cases g1; cases g2) (auto simp: enter drop child_calls_def)
qed

definition run_path :: "service \<Rightarrow> bytes \<Rightarrow> bytes" where
  "run_path s x = (if chroot_enabled s then x else cs_cstr (svc_path s x))"

text \<open>The limits: every file that holds a value gives one call, made with that value. The files are read
  one after the other, at successive points of the run.\<close>

definition limit_calls :: "os \<Rightarrow> service \<Rightarrow> rlimit_kind \<times> bytes \<Rightarrow> world \<Rightarrow> proc_call list" where
  "limit_calls os s kf v = (case fst (read_rlimit_value os s (snd kf) v) of
     Some n \<Rightarrow> [PSetrlimit (fst kf) n] | None \<Rightarrow> [])"

definition nice_calls :: "os \<Rightarrow> service \<Rightarrow> world \<Rightarrow> proc_call list" where
  "nice_calls os s v = (case fst (read_nice_value os s v) of Some n \<Rightarrow> [PNice n] | None \<Rightarrow> [])"

definition limits_from :: "os \<Rightarrow> service \<Rightarrow> world \<Rightarrow> world \<Rightarrow> proc_call list \<Rightarrow> bool" where
  "limits_from os s w w' ls \<longleftrightarrow> (\<exists>vs v. length vs = 6 \<and> sorted_wrt extends (w # vs @ [v, w']) \<and>
     ls = concat (map2 (limit_calls os s)
       [(RLIMIT_CPU, ''/rlimit_cpu''), (RLIMIT_AS, ''/rlimit_as''), (RLIMIT_NOFILE, ''/rlimit_nofile''),
        (RLIMIT_FSIZE, ''/rlimit_fsize''), (RLIMIT_NPROC, ''/rlimit_nproc''), (RLIMIT_CORE, ''/rlimit_core'')]
       vs) @ nice_calls os s v)"

lemma fold_rlimit_from:
  "\<exists>vs. length vs = length fs \<and> sorted_wrt extends (w # vs @ [fold (set_rlimit os s) fs w]) \<and>
     proc_log (fold (set_rlimit os s) fs w) = proc_log w @ concat (map2 (limit_calls os s) fs vs)"
proof (induction fs arbitrary: w)
  case Nil
  show ?case by simp
next
  case (Cons f fs)
  let ?w = "set_rlimit os s f w"
  obtain vs where vs: "length vs = length fs" "sorted_wrt extends (?w # vs @ [fold (set_rlimit os s) fs ?w])"
    "proc_log (fold (set_rlimit os s) fs ?w) = proc_log ?w @ concat (map2 (limit_calls os s) fs vs)"
    using Cons.IH [of ?w] by blast
  have read: "proc_log (snd (read_rlimit_value os s (snd f) w)) = proc_log w"
    by (simp add: read_rlimit_value_def Let_def split_def)
  have "proc_log ?w = proc_log w @ limit_calls os s f w"
    by (simp add: set_rlimit_def limit_calls_def read Let_def split_def split: option.split)
  moreover have "extends w ?w" by simp
  then have "\<forall>v \<in> set (vs @ [fold (set_rlimit os s) fs ?w]). extends w v"
    using vs(2) extends_trans [of w ?w] by (simp only: sorted_wrt.simps) blast
  then have "sorted_wrt extends (w # (w # vs) @ [fold (set_rlimit os s) (f # fs) w])"
    using vs(2) by simp
  ultimately show ?case using vs(1,3) by (intro exI [of _ "w # vs"]) simp
qed

lemma security_limits:
  assumes "extends (apply_security_restrictions os s w) w'"
  shows "\<exists>ls. proc_log (apply_security_restrictions os s w) = proc_log w @ ls \<and> limits_from os s w w' ls"
proof -
  let ?w = "fold (set_rlimit os s) rlimit_files w"
  obtain vs where vs: "length vs = length rlimit_files" "sorted_wrt extends (w # vs @ [?w])"
    "proc_log ?w = proc_log w @ concat (map2 (limit_calls os s) rlimit_files vs)"
    using fold_rlimit_from by blast
  have "extends ?w (apply_security_restrictions os s w)"
    by (simp add: apply_security_restrictions_def Let_def split_def split: option.split)
  then have up: "extends ?w w'" using extends_trans assms by blast
  moreover have "\<forall>v \<in> set (w # vs). extends v ?w" using vs(2) by (simp add: sorted_wrt_append)
  ultimately have "\<forall>v \<in> set (w # vs). extends v w'" using extends_trans by blast
  then have "sorted_wrt extends (w # vs @ [?w, w'])"
    using vs(2) up by (simp add: sorted_wrt_append)
  moreover have "proc_log (snd (read_nice_value os s ?w)) = proc_log ?w"
    by (simp add: read_nice_value_def Let_def split_def)
  then have "proc_log (apply_security_restrictions os s w) = proc_log ?w @ nice_calls os s ?w"
    by (simp add: apply_security_restrictions_def nice_calls_def Let_def split_def split: option.split)
  ultimately show ?thesis
    using vs(1,3) unfolding limits_from_def rlimit_files_def
    by (intro exI [of _ "concat (map2 (limit_calls os s) rlimit_files vs) @ nice_calls os s ?w"] conjI
        exI [of _ vs] exI [of _ ?w]) (simp_all add: rlimit_files_def)
qed

lemma main_child_extends:
  "extends (apply_security_restrictions os s (proc PSetsid w)) (main_child os s out_fds err_fds w)"
proof -
  have enter: "extends u (snd (child_enter os s v))" "extends u (snd (child_drop os s v))"
    "extends u (child_stdin os v)" "extends u (child_output s out_fds err_fds v)"
    "extends u (child_exec os s path argv code v)" if "extends u v" for u v path argv code
    using that by (simp_all add: child_enter_def child_drop_def child_stdin_def child_output_def
        child_exec_def Let_def split_def)
  show ?thesis by (simp add: main_child_def Let_def split_def enter)
qed

text \<open>C12. The child that becomes a service makes these calls in this order: a new session, a call for
  every limit and nice file that holds a value, with that value, then the root directory, group and
  user, the check of the user, and only then the program. When the root cannot be changed or the
  user is not the one asked for, it exits instead. A service without a user changes no group
  either. (The README lists the limits after the user, and a change of group for a group alone.)\<close>

theorem main_child_calls:
  "\<exists>ls cs. proc_log (main_child os s out_fds err_fds w) = proc_log w @ PSetsid # ls @ cs \<and>
     limits_from os s (proc PSetsid w) (main_child os s out_fds err_fds w) ls \<and>
     child_calls s (run_path s ''/run'') [run_path s ''/run''] 127 cs"
proof -
  let ?w = "apply_security_restrictions os s (proc PSetsid w)"
  let ?mid = "\<lambda>w. close_from os 3 (child_output s out_fds err_fds (child_stdin os w))"
  obtain ls where ls: "proc_log ?w = proc_log w @ PSetsid # ls"
    "limits_from os s (proc PSetsid w) (main_child os s out_fds err_fds w) ls"
    using security_limits [OF main_child_extends, of os s w out_fds err_fds] by auto
  have child: "main_child os s out_fds err_fds w = (let (go, w) = child_enter os s ?w
      in if \<not> go then w
         else let (go, w) = child_drop os s w
              in if \<not> go then w else child_exec os s (run_path s ''/run'') [run_path s ''/run''] 127 (?mid w))"
    by (simp only: main_child_def Let_def run_path_def)
  obtain cs where cs: "proc_log (main_child os s out_fds err_fds w) = proc_log ?w @ cs"
    "child_calls s (run_path s ''/run'') [run_path s ''/run''] 127 cs"
    using child_tail_procs [of ?mid os s ?w "run_path s ''/run''" "[run_path s ''/run'']" 127]
    unfolding child by auto
  with ls show ?thesis by (intro exI [of _ ls] exI [of _ cs]) simp
qed

text \<open>C29. The \<open>finish\<close> script gets the exit code and the signal number of the service as decimal
  arguments and runs under the same limits, root and user as the service.\<close>

theorem finish_child_calls:
  assumes "svc_wf s"
  shows "\<exists>ls cs. proc_log (finish_child os s w) = proc_log w @ ls @ cs \<and> list_all is_limit ls \<and>
     child_calls s (run_path s ''/finish'')
       [run_path s ''/finish'', dec_string_i (exit_code s), dec_string_i (term_signal s)] 127 cs"
proof -
  let ?w = "apply_security_restrictions os s w"
  let ?argv = "[run_path s ''/finish'', dec_string_i (exit_code s), dec_string_i (term_signal s)]"
  have arg: "c_read (format_i64_buf (exit_code s)) = dec_string_i (exit_code s)"
    "c_read (format_i64_buf (term_signal s)) = dec_string_i (term_signal s)"
    using assms format_i64_buf_cstr by (simp_all add: svc_wf_def)
  obtain ls where ls: "proc_log ?w = proc_log w @ ls" "\<forall>c \<in> set ls. is_limit c"
    using security_procs by blast
  have child: "finish_child os s w = (let (go, w) = child_enter os s ?w
      in if \<not> go then w
         else let (go, w) = child_drop os s w
              in if \<not> go then w else child_exec os s (run_path s ''/finish'') ?argv 127 (w))"
    by (simp only: finish_child_def Let_def run_path_def arg [symmetric])
  obtain cs where cs: "proc_log (finish_child os s w) = proc_log ?w @ cs"
    "child_calls s (run_path s ''/finish'') ?argv 127 cs"
    using child_tail_procs [of "\<lambda>w. w" os s ?w "run_path s ''/finish''" ?argv 127]
    unfolding child by auto
  with ls show ?thesis by (intro exI [of _ ls] exI [of _ cs]) (simp add: list_all_iff)
qed

theorem finish_child_calls_witness:
  "\<forall>os w. \<exists>ls cs. proc_log (finish_child os SERVICE_EMPTY w) = proc_log w @ ls @ cs \<and>
     list_all is_limit ls \<and> child_calls SERVICE_EMPTY (run_path SERVICE_EMPTY ''/finish'')
       [run_path SERVICE_EMPTY ''/finish'', ''0'', ''0''] 127 cs"
proof (intro allI)
  fix os :: os and w :: world
  have "dec_string_i (exit_code SERVICE_EMPTY) = ''0''" "dec_string_i (term_signal SERVICE_EMPTY) = ''0''"
    by (simp_all add: SERVICE_EMPTY_def dec_string_i_def dec_string_def)
  with finish_child_calls [OF svc_wf_EMPTY, of os w]
  show "\<exists>ls cs. proc_log (finish_child os SERVICE_EMPTY w) = proc_log w @ ls @ cs \<and>
     list_all is_limit ls \<and> child_calls SERVICE_EMPTY (run_path SERVICE_EMPTY ''/finish'')
       [run_path SERVICE_EMPTY ''/finish'', ''0'', ''0''] 127 cs" by simp
qed

text \<open>C30. The logger of a service is never switched to the service's user and group: apart from the
  session and the limits it only changes its root directory before it runs \<open>log/run\<close>.\<close>

theorem logger_child_keeps_ids:
  "\<exists>ls cs. proc_log (logger_child os s log_run rd wr w) = proc_log w @ PSetsid # ls @ cs \<and>
     list_all is_limit ls \<and>
     (chroot_enabled s \<and> (\<exists>r. r \<noteq> 0 \<and> cs = [PChroot (dir_cstr s) r, PExit 126]) \<or>
      (\<exists>path rs. run_calls s path [path] 126 rs \<and> cs = root_calls s @ rs))"
proof -
  let ?w = "apply_security_restrictions os s (close_from os 3 (close_fd os wr (close_fd os rd
     (emit (EDup2 rd 0) (proc PSetsid w)))))"
  let ?path = "if chroot_enabled s then ''/log/run'' else cs_cstr log_run"
  obtain ls where ls: "proc_log ?w = proc_log w @ PSetsid # ls" "\<forall>c \<in> set ls. is_limit c"
    using security_procs [of os s "close_from os 3 (close_fd os wr (close_fd os rd
     (emit (EDup2 rd 0) (proc PSetsid w))))"] by auto
  obtain go w1 where enter: "child_enter os s ?w = (go, w1)" by (cases "child_enter os s ?w")
  obtain rs where rs: "proc_log (child_exec os s ?path [?path] 126 w1) = proc_log w1 @ rs"
    "run_calls s ?path [?path] 126 rs" using child_exec_procs by blast
  have child: "logger_child os s log_run rd wr w =
      (if go then child_exec os s ?path [?path] 126 w1 else w1)"
    using enter by (simp add: logger_child_def Let_def)
  show ?thesis
  proof (cases go)
    case True
    have "proc_log (logger_child os s log_run rd wr w) = proc_log w @ PSetsid # ls @ root_calls s @ rs"
      using child_enter_procs [OF enter] True ls(1) rs(1) by (simp add: child)
    with ls(2) rs(2) show ?thesis unfolding list_all_iff by blast
  next
    case False
    then obtain r where r: "chroot_enabled s" "r \<noteq> 0"
      "proc_log w1 = proc_log ?w @ [PChroot (dir_cstr s) r, PExit 126]"
      using child_enter_procs [OF enter] by auto
    then have "proc_log (logger_child os s log_run rd wr w) =
        proc_log w @ PSetsid # ls @ [PChroot (dir_cstr s) r, PExit 126]"
      using False ls(1) by (simp add: child)
    with ls(2) r show ?thesis unfolding list_all_iff by blast
  qed
qed

text \<open>Starting a service that is inactive, no longer present, being stopped or already running
  changes nothing and makes no call at all.\<close>

lemma start_service_refused:
  "refuses s \<Longrightarrow> start_service os s w = (s, w)"
  by (auto simp: start_service_def refuses_def)

text \<open>C11. Otherwise the service is running afterwards, under the child that was created in this start
  with the code of its main process, with the clock of this start and its manual request cleared,
  or it has failed, has no process and is due again two seconds after the clock was read in this
  start.\<close>

theorem start_service_outcome:
  assumes "svc_ok w s" "\<not> refuses s"
  shows "start_outcome os s w (fst (start_service os s w)) (snd (start_service os s w))"
  using start_service_both [OF assms] by blast

lemma ex_service_down_ok: "svc_ok w (ex_service nm (-1) 0)"
  using ex_service_wf [of "-1" nm 0]
  by (simp add: svc_ok_def svc_inv_def tracked_def valid_state_def in_i32_def)

theorem start_service_outcome_witness:
  "\<forall>os w. start_outcome os (ex_service ''db'' (-1) 0) w (fst (start_service os (ex_service ''db'' (-1) 0) w))
     (snd (start_service os (ex_service ''db'' (-1) 0) w))"
proof (intro allI)
  fix os :: os and w :: world
  have "\<not> refuses (ex_service ''db'' (-1) 0)" by (simp add: refuses_def)
  from start_service_outcome [OF ex_service_down_ok this]
  show "start_outcome os (ex_service ''db'' (-1) 0) w (fst (start_service os (ex_service ''db'' (-1) 0) w))
     (snd (start_service os (ex_service ''db'' (-1) 0) w))" .
qed

end
