(* ===== verification/Scan.thy ===== *)
theory Scan
  imports Service_Start
begin

text \<open>
  \<open>src/scan.rs\<close>: filling the service table from the directory, refreshing known services and
  removing those whose directory is gone. The names \<open>readdir\<close> returns are given by the operating
  system when the directory is opened, in their order.
\<close>

section \<open>Adding a service\<close>

text \<open>One line of the \<open>depends\<close> file, without spaces before and blanks after it.\<close>

definition clean_line :: "bytes \<Rightarrow> bytes" where
  "clean_line line =
     (let l = scan_fwd (\<lambda>c. c = CHR '' '') line 0 (length line);
          r = scan_bwd is_blank line l (length line)
      in slice line l r)"

definition store_dep :: "nat \<Rightarrow> bytes \<Rightarrow> service \<Rightarrow> service" where
  "store_dep di clean s =
     (let (sft, nm) = (if clean \<noteq> [] \<and> hd clean = CHR ''?'' then (True, tl clean) else (False, clean));
          nlen = min (length nm) (NAME_BUF - 1);
          d = deps s ! di;
          d = d\<lparr>dep_name_len := nlen\<rparr>;
          d = d\<lparr>dep_name := copy_slice 0 (take nlen nm) (dep_name d)\<rparr>;
          d = d\<lparr>dep_name := (dep_name d)[nlen := NUL]\<rparr>;
          d = d\<lparr>soft := sft\<rparr>
      in s\<lparr>deps := (deps s)[di := d]\<rparr>)"

lemma next_line_after: "start < scan_fwd is_nl data
    (scan_fwd (\<lambda>c. \<not> is_nl c) data start (length data) + 1) (length data)"
  using scan_fwd_ge [of start "\<lambda>c. \<not> is_nl c" data "length data"]
    scan_fwd_ge [of "scan_fwd (\<lambda>c. \<not> is_nl c) data start (length data) + 1" is_nl data "length data"]
  by linarith

function dep_lines :: "bytes \<Rightarrow> nat \<Rightarrow> nat \<Rightarrow> service \<Rightarrow> service \<times> nat" where
  "dep_lines data start di s =
     (if start < length data \<and> di < MAX_DEPENDENCIES
      then let ends = scan_fwd (\<lambda>c. \<not> is_nl c) data start (length data);
               clean = clean_line (slice data start ends);
               (s, di) = (if clean \<noteq> [] then (store_dep di clean s, di + 1) else (s, di))
           in dep_lines data (scan_fwd is_nl data (ends + 1) (length data)) di s
      else (s, di))"
  by pat_completeness auto

termination
  by (relation "measure (\<lambda>(data, start, di, s). length data - start)")
    (auto intro!: diff_less_mono2 next_line_after [unfolded Suc_eq_plus1 [symmetric]])

declare dep_lines.simps [simp del]

definition add_deps :: "os \<Rightarrow> cstrbuf \<Rightarrow> service \<Rightarrow> world \<Rightarrow> service \<times> world" where
  "add_deps os d s w =
     (let (nr, w) = read_file_to_buf os (cs_push ''/depends'' (cs_from_bytes (cs_bytes d))) DEP_FILE_BUF w
      in if rd_data nr = [] then (s, w)
         else let (s, di) = dep_lines (rd_data nr) 0 0 s in (s\<lparr>deps_count := di\<rparr>, w))"

definition new_service :: "bytes \<Rightarrow> cstrbuf \<Rightarrow> service" where
  "new_service nm d =
     (let s = SERVICE_EMPTY;
          s = s\<lparr>active := True\<rparr>;
          s = s\<lparr>present := True\<rparr>;
          s = s\<lparr>stopping := False\<rparr>;
          s = set_dir d s;
          s = set_name nm s;
          s = s\<lparr>state := STATE_DOWN\<rparr>
      in s\<lparr>restart_at := 0\<rparr>)"

definition add_flags :: "os \<Rightarrow> cstrbuf \<Rightarrow> service \<Rightarrow> world \<Rightarrow> service \<times> world" where
  "add_flags os d s w =
     (let (r, w) = sys_access os (cs_cstr (cs_push ''/down'' (cs_from_bytes (cs_bytes d)))) F_OK w;
          s = (if r = 0 then s\<lparr>auto_start := False\<rparr> else s);
          (r, w) = sys_access os (cs_cstr (cs_push ''/once'' (cs_from_bytes (cs_bytes d)))) F_OK w
      in (if r = 0 then s\<lparr>once := True\<rparr> else s, w))"

definition add_log :: "os \<Rightarrow> cstrbuf \<Rightarrow> service \<Rightarrow> world \<Rightarrow> service \<times> world" where
  "add_log os d s w =
     (let (r, w) = sys_access os (cs_cstr (cs_push ''/log/run'' (cs_from_bytes (cs_bytes d)))) X_OK w
      in (if r = 0 then s\<lparr>has_log := True\<rparr> else s, w))"

definition fill_slot :: "os \<Rightarrow> bytes \<Rightarrow> cstrbuf \<Rightarrow> world \<Rightarrow> service \<times> world" where
  "fill_slot os nm d w =
     (let s = new_service nm d;
          (s, w) = add_flags os d s w;
          (s, w) = add_deps os d s w;
          (s, w) = add_log os d s w;
          (s, w) = parse_user_group os s w;
          (s, w) = prepare_service_env os s w;
          w = write_status_file os s w;
          w = supervisor_log os ''service added: '' w
      in (s, supervisor_log os nm w))"

fun add_service :: "os \<Rightarrow> bytes \<Rightarrow> cstrbuf \<Rightarrow> service list \<Rightarrow> world \<Rightarrow> service list \<times> world" where
  "add_service os nm d [] w = ([], w)"
| "add_service os nm d (s # ss) w =
     (if \<not> active s then let (s, w) = fill_slot os nm d w in (s # ss, w)
      else let (ss, w) = add_service os nm d ss w in (s # ss, w))"

section \<open>Scanning\<close>

definition absent :: "service \<Rightarrow> service" where
  "absent s = (if active s then s\<lparr>present := False\<rparr> else s)"

definition refresh :: "os \<Rightarrow> service \<Rightarrow> world \<Rightarrow> service \<times> world" where
  "refresh os s w =
     (let s = s\<lparr>present := True\<rparr>;
          s = s\<lparr>stopping := False\<rparr>;
          (s, w) = parse_user_group os s w
      in prepare_service_env os s w)"

definition entry_dir :: "cstrbuf \<Rightarrow> bytes \<Rightarrow> cstrbuf" where
  "entry_dir root nm = cs_push nm (cs_push ''/'' (cs_from_bytes (cs_bytes root)))"

definition scan_entry :: "os \<Rightarrow> cstrbuf \<Rightarrow> bytes \<Rightarrow> service list \<times> world \<Rightarrow> service list \<times> world" where
  "scan_entry os root d_name st =
     (case st of (services, w) \<Rightarrow>
        let nm = c_read d_name
        in if nm = [] \<or> bytes_eq nm ''.'' \<or> bytes_eq nm ''..'' then st
           else let d = entry_dir root nm;
                    run = cs_push ''/run'' (cs_from_bytes (cs_bytes d));
                    (r, w) = sys_access os (cs_cstr run) X_OK w
                in if r = 0
                   then let idx = find_service_by_dir services d
                        in if idx \<noteq> usize_max
                           then let (s, w) = refresh os (services ! idx) w
                                in (services[idx := s], w)
                           else add_service os nm d services w
                   else (services, w))"

definition scan_services :: "os \<Rightarrow> cstrbuf \<Rightarrow> service list \<Rightarrow> world \<Rightarrow> bool \<times> service list \<times> world" where
  "scan_services os root services w =
     (let dp = os_readdir os (trace w) (cs_cstr root);
          w = emit (EAsk (QReaddir (cs_cstr root))) w
      in case dp of
           None \<Rightarrow> (False, services, w)
         | Some names \<Rightarrow>
             (True, fold (scan_entry os root) names (map absent services, w)))"

section \<open>Removed services\<close>

definition missing_stop :: "os \<Rightarrow> nat \<Rightarrow> service list \<times> world \<Rightarrow> service list \<times> world" where
  "missing_stop os i st =
     (case st of (services, w) \<Rightarrow>
        if pid (services ! i) > 0 \<and> \<not> stopping (services ! i)
        then let (services, w) = stop_transitive_deps os services w;
                 w = sys_kill (- pid (services ! i)) SIGTERM w;
                 s = (services ! i)\<lparr>stopping := True\<rparr>;
                 s = s\<lparr>state := STATE_STOPPING\<rparr>;
                 w = supervisor_log os ''stopping removed service: '' w;
                 w = supervisor_log os (name_bytes s) w
             in (services[i := s], w)
        else (services, w))"

definition missing_log :: "os \<Rightarrow> service \<Rightarrow> world \<Rightarrow> service \<times> world" where
  "missing_log os s w =
     (if log_pid s > 0 \<and> \<not> log_stopping s
      then let w = sys_kill (log_pid s) SIGTERM w in (s\<lparr>log_stopping := True\<rparr>, w)
      else (s, w))"

definition missing_remove :: "os \<Rightarrow> service \<Rightarrow> world \<Rightarrow> service \<times> world" where
  "missing_remove os s w =
     (if pid s \<le> 0 \<and> log_pid s \<le> 0
      then let (s, w) = close_service_fds os s w;
               s = s\<lparr>active := False\<rparr>;
               s = s\<lparr>state := STATE_DOWN\<rparr>;
               w = write_status_file os s w;
               w = supervisor_log os ''service removed: '' w
           in (s, supervisor_log os (name_bytes s) w)
      else (s, w))"

definition missing_step :: "os \<Rightarrow> nat \<Rightarrow> service list \<times> world \<Rightarrow> service list \<times> world" where
  "missing_step os i st =
     (if active (fst st ! i) \<and> \<not> present (fst st ! i)
      then let (services, w) = missing_stop os i st;
               (s, w) = missing_log os (services ! i) w;
               (s, w) = missing_remove os s w
           in (services[i := s], w)
      else st)"

definition handle_missing_services :: "os \<Rightarrow> service list \<Rightarrow> world \<Rightarrow> service list \<times> world" where
  "handle_missing_services os services w =
     fold (missing_step os) [0..<length services] (services, w)"

section \<open>The identities in the table\<close>

text \<open>What the searches see of a table. Everything but scanning leaves it alone.\<close>

definition ids :: "service list \<Rightarrow> (bool \<times> bytes \<times> bytes) list" where
  "ids services = map (\<lambda>s. (active s, name_bytes s, dir_bytes s)) services"

definition dirs_distinct :: "service list \<Rightarrow> bool" where
  "dirs_distinct services \<longleftrightarrow> (\<forall>i < length services. \<forall>j < length services.
     active (services ! i) \<and> active (services ! j) \<and> dir_bytes (services ! i) = dir_bytes (services ! j)
     \<longrightarrow> i = j)"

lemma ids_length: "ids ss = ids ts \<Longrightarrow> length ss = length ts"
  by (metis ids_def length_map)

lemma ids_nth: "ids ss = ids ts \<Longrightarrow> i < length ts \<Longrightarrow> active (ss ! i) = active (ts ! i) \<and>
  name_bytes (ss ! i) = name_bytes (ts ! i) \<and> dir_bytes (ss ! i) = dir_bytes (ts ! i)"
proof -
  assume eq: "ids ss = ids ts" and i: "i < length ts"
  have "ids ss ! i = ids ts ! i" using eq by simp
  then show ?thesis using i ids_length [OF eq] by (simp add: ids_def)
qed

lemma ids_eqI: "length ss = length ts \<Longrightarrow> (\<And>i. i < length ts \<Longrightarrow> active (ss ! i) = active (ts ! i) \<and>
  name_bytes (ss ! i) = name_bytes (ts ! i) \<and> dir_bytes (ss ! i) = dir_bytes (ts ! i)) \<Longrightarrow>
  ids ss = ids ts"
  by (auto simp: ids_def intro!: nth_equalityI)

lemma ids_update: "active s = active (ss ! i) \<Longrightarrow> name_bytes s = name_bytes (ss ! i) \<Longrightarrow>
  dir_bytes s = dir_bytes (ss ! i) \<Longrightarrow> ids (ss[i := s]) = ids ss"
  by (rule ids_eqI) (simp_all, metis nth_list_update_eq nth_list_update_neq)

lemma dirs_distinct_ids: "ids ss = ids ts \<Longrightarrow> dirs_distinct ss = dirs_distinct ts"
proof -
  assume eq: "ids ss = ids ts"
  show ?thesis
    unfolding dirs_distinct_def ids_length [OF eq] using ids_nth [OF eq] by auto
qed

context service_step
begin

lemma at_ids: "sys_ok ss w \<Longrightarrow> i < length ss \<Longrightarrow>
  ids (ss[i := fst (step os (ss ! i) w)]) = ids ss"
  using step_id [OF sys_ok_nth] by (intro ids_update) simp_all

lemma each_ids: "\<forall>s \<in> set ss. svc_ok w s \<Longrightarrow> ids (fst (each (step os) ss w)) = ids ss"
proof (induction ss arbitrary: w)
  case (Cons s ss)
  have s: "svc_ok w s" using Cons.prems by simp
  have "\<forall>t \<in> set ss. svc_ok (snd (step os s w)) t"
    using Cons.prems svc_ok_mono [OF step_extends [OF s]] by auto
  from Cons.IH [OF this] show ?case
    using step_id [OF s] by (simp add: ids_def Let_def split_def)
qed (simp add: ids_def)

end

lemma marked_ids: "ids (marked ss S) = ids ss"
  by (rule ids_eqI) auto

lemma stop_transitive_ids:
  assumes "sys_ok ss w"
  shows "ids (fst (stop_transitive_deps os ss w)) = ids ss"
proof -
  have "length ss < usize_max" using assms by (simp add: sys_ok_def)
  from stop_transitive_marked [OF this, of "{}" os w] show ?thesis by (auto simp: marked_ids)
qed

lemma stop_all_ids:
  assumes "sys_ok ss w"
  shows "ids (fst (stop_all_in_order os ss w)) = ids ss"
proof -
  have len: "length ss \<le> MAX_SERVICES" using assms by (simp add: sys_ok_def)
  have st: "active (stopped s) = active s" "name_bytes (stopped s) = name_bytes s"
    "dir_bytes (stopped s) = dir_bytes s" for s
    by (simp_all add: stopped_def Let_def)
  obtain ord r where "stop_order ss = (ord, r)" by (cases "stop_order ss")
  from stop_all_effect [OF len this, of os w]
  have "fst (stop_all_in_order os ss w) =
      map (\<lambda>i. if i \<in> to_stop ss then stopped (ss ! i) else ss ! i) [0..<length ss]" by auto
  then show ?thesis using st by (intro ids_eqI) simp_all
qed

section \<open>Adding keeps the invariant\<close>

lemma store_dep_wf: "svc_wf s \<Longrightarrow> di < MAX_DEPENDENCIES \<Longrightarrow> svc_wf (store_dep di clean s)"
proof -
  assume wf: "svc_wf s" and di: "di < MAX_DEPENDENCIES"
  then have "dep_wf (deps s ! di)" by (simp add: svc_wf_def)
  then have "dep_wf d" if "store_dep di clean s = s\<lparr>deps := (deps s)[di := d]\<rparr>"
      "length (dep_name d) = length (dep_name (deps s ! di))" "dep_name_len d \<le> 63" for d
    using that by (simp add: dep_wf_def)
  have "\<exists>d. store_dep di clean s = s\<lparr>deps := (deps s)[di := d]\<rparr> \<and> dep_wf d"
    using \<open>dep_wf (deps s ! di)\<close>
    by (simp add: store_dep_def Let_def split_def dep_wf_def) (auto simp: dep_wf_def copy_slice_def)
  then obtain d where d: "store_dep di clean s = s\<lparr>deps := (deps s)[di := d]\<rparr>" "dep_wf d" by blast
  have "\<forall>x \<in> set ((deps s)[di := d]). dep_wf x"
    using wf d(2) set_update_subset_insert [of "deps s" di d] by (auto simp: svc_wf_def)
  with wf d(1) show ?thesis by (simp add: svc_wf_def dir_bytes_def)
qed

text \<open>The invariant looks only at the fields below.\<close>

lemma svc_ok_fields:
  "svc_ok w s \<Longrightarrow> svc_wf s' \<Longrightarrow> pid s' = pid s \<Longrightarrow> state s' = state s \<Longrightarrow>
   stopping s' \<longrightarrow> stopping s \<Longrightarrow> log_pid s' = log_pid s \<Longrightarrow> log_state s' = log_state s \<Longrightarrow>
   log_stopping s' = log_stopping s \<Longrightarrow> svc_ok w s'"
  by (auto simp: svc_ok_def svc_inv_def tracked_def)

lemma store_dep_sel [simp]:
  "active (store_dep di c s) = active s" "present (store_dep di c s) = present s"
  "stopping (store_dep di c s) = stopping s" "pid (store_dep di c s) = pid s"
  "state (store_dep di c s) = state s" "log_pid (store_dep di c s) = log_pid s"
  "log_state (store_dep di c s) = log_state s" "log_stopping (store_dep di c s) = log_stopping s"
  "name_bytes (store_dep di c s) = name_bytes s" "dir_bytes (store_dep di c s) = dir_bytes s"
  "deps_count (store_dep di c s) = deps_count s"
  by (simp_all add: store_dep_def Let_def split_def name_bytes_def dir_bytes_def)

lemma dep_lines_frame:
  "svc_ok w s \<Longrightarrow> di \<le> MAX_DEPENDENCIES \<Longrightarrow> dep_lines data start di s = (s', n) \<Longrightarrow>
   svc_ok w s' \<and> n \<le> MAX_DEPENDENCIES \<and> active s' = active s \<and> name_bytes s' = name_bytes s \<and>
   dir_bytes s' = dir_bytes s"
proof (induction data start di s rule: dep_lines.induct)
  case (1 data start di s)
  show ?case
  proof (cases "start < length data \<and> di < MAX_DEPENDENCIES")
    case False
    then show ?thesis using "1.prems" by (subst (asm) dep_lines.simps) auto
  next
    case True
    let ?e = "scan_fwd (\<lambda>c. \<not> is_nl c) data start (length data)"
    let ?c = "clean_line (slice data start ?e)"
    let ?s = "if ?c \<noteq> [] then store_dep di ?c s else s" and ?di = "if ?c \<noteq> [] then di + 1 else di"
    have ok: "svc_ok w ?s"
      using "1.prems"(1) True store_dep_wf [OF svc_ok_wf, of w s di ?c]
      by (auto intro: svc_ok_fields)
    have eq: "dep_lines data start di s =
        dep_lines data (scan_fwd is_nl data (?e + 1) (length data)) ?di ?s"
      using True by (subst dep_lines.simps) (simp add: Let_def)
    have "svc_ok w s' \<and> n \<le> MAX_DEPENDENCIES \<and> active s' = active ?s \<and>
        name_bytes s' = name_bytes ?s \<and> dir_bytes s' = dir_bytes ?s"
      using True "1.prems"(3) ok unfolding eq
      by (intro "1.IH" [OF True refl refl, of "(?s, ?di)" ?s ?di]) auto
    then show ?thesis by simp
  qed
qed

lemma add_deps_frame:
  assumes "svc_ok w s"
  shows "svc_ok (snd (add_deps os d s w)) (fst (add_deps os d s w)) \<and>
    active (fst (add_deps os d s w)) = active s \<and> name_bytes (fst (add_deps os d s w)) = name_bytes s \<and>
    dir_bytes (fst (add_deps os d s w)) = dir_bytes s \<and>
    extends w (snd (add_deps os d s w)) \<and> kill_log (snd (add_deps os d s w)) = kill_log w"
proof -
  let ?r = "read_file_to_buf os (cs_push ''/depends'' (cs_from_bytes (cs_bytes d))) DEP_FILE_BUF w"
  obtain s' n where l: "dep_lines (rd_data (fst ?r)) 0 0 s = (s', n)"
    by (cases "dep_lines (rd_data (fst ?r)) 0 0 s")
  have ok: "svc_ok (snd ?r) s" by (rule svc_ok_mono [OF _ assms]) simp
  have f: "svc_ok (snd ?r) s'" "n \<le> MAX_DEPENDENCIES" "active s' = active s"
    "name_bytes s' = name_bytes s" "dir_bytes s' = dir_bytes s"
    using dep_lines_frame [OF ok _ l] by simp_all
  have wf: "svc_wf (s'\<lparr>deps_count := n\<rparr>)"
    using svc_ok_wf [OF f(1)] f(2) by (simp add: svc_wf_def dir_bytes_def)
  have "svc_ok (snd ?r) (s'\<lparr>deps_count := n\<rparr>)" by (rule svc_ok_fields [OF f(1) wf]) simp_all
  with ok f l show ?thesis
    by (simp add: add_deps_def Let_def split_def name_bytes_def dir_bytes_def)
qed

lemma new_service_ok:
  assumes "cs_inv d"
  shows "svc_ok w (new_service nm d) \<and> active (new_service nm d) \<and>
    name_bytes (new_service nm d) = take 63 nm \<and> dir_bytes (new_service nm d) = cs_bytes d"
proof -
  let ?e = "SERVICE_EMPTY\<lparr>active := True, present := True, stopping := False\<rparr>"
  let ?s = "set_name nm (set_dir d ?e)"
  have wf: "svc_wf ?s" using svc_wf_EMPTY assms by (intro svc_wf_set_name svc_wf_set_dir) simp_all
  have "length (dir SERVICE_EMPTY) = PATH_BUF" "length (name (set_dir d ?e)) = NAME_BUF"
    by (simp_all add: SERVICE_EMPTY_def set_dir_def Let_def)
  moreover have "dir_bytes ?s = dir_bytes (set_dir d ?e)"
    by (simp add: set_name_def dir_bytes_def Let_def)
  ultimately have ids: "name_bytes ?s = take 63 nm" "dir_bytes ?s = cs_bytes d"
    using assms by (simp_all add: set_name_bytes set_dir_bytes)
  have "svc_wf (new_service nm d)"
    using wf by (simp add: new_service_def Let_def in_i64_def)
  then have "svc_ok w (new_service nm d)"
    by (rule svc_ok_fields [OF svc_ok_EMPTY])
      (simp_all add: new_service_def Let_def set_name_def set_dir_def, simp_all add: SERVICE_EMPTY_def)
  with ids show ?thesis
    by (simp add: new_service_def Let_def) (simp add: set_name_def set_dir_def Let_def)
qed

lemma extends_fs_calls [simp]:
  "extends u w \<Longrightarrow> extends u (snd (add_flags os d s w))"
  "extends u w \<Longrightarrow> extends u (snd (add_log os d s w))"
  by (simp_all add: add_flags_def add_log_def Let_def split_def)

text \<open>\<open>same w s w' s'\<close>: a step that keeps the invariant, the identity and the signals sent.\<close>

definition same :: "world \<Rightarrow> service \<Rightarrow> world \<Rightarrow> service \<Rightarrow> bool" where
  "same w s w' s' \<longleftrightarrow> (svc_ok w s \<longrightarrow> svc_ok w' s') \<and> active s' = active s \<and>
     name_bytes s' = name_bytes s \<and> dir_bytes s' = dir_bytes s \<and> extends w w' \<and>
     kill_log w' = kill_log w"

lemma same_refl [simp]: "same w s w s"
  by (simp add: same_def)

lemma same_trans: "same w s w1 s1 \<Longrightarrow> same w1 s1 w2 s2 \<Longrightarrow> same w s w2 s2"
  using extends_trans by (auto simp: same_def)

lemma same_flags:
  "same w s (snd (add_flags os d s w)) (fst (add_flags os d s w))"
  "same w s (snd (add_log os d s w)) (fst (add_log os d s w))"
  "same w s (snd (parse_user_group os s w)) (fst (parse_user_group os s w))"
  "same w s (snd (prepare_service_env os s w)) (fst (prepare_service_env os s w))"
  "same w s (write_status_file os s w) s" "same w s (supervisor_log os msg w) s"
proof -
  have ok: "svc_ok w' s'" if "svc_ok w s" "extends w w'" "svc_wf s'" "pid s' = pid s"
      "state s' = state s" "stopping s' = stopping s" "log_pid s' = log_pid s"
      "log_state s' = log_state s" "log_stopping s' = log_stopping s" for w' s'
    using svc_ok_fields [OF svc_ok_mono [OF that(2,1)]] that by blast
  show "same w s (snd (add_flags os d s w)) (fst (add_flags os d s w))"
    by (auto simp: same_def add_flags_def Let_def split_def sys_access_def intro!: ok dest: svc_ok_wf)
  show "same w s (snd (add_log os d s w)) (fst (add_log os d s w))"
    by (auto simp: same_def add_log_def Let_def split_def sys_access_def intro!: ok dest: svc_ok_wf)
  show "same w s (snd (parse_user_group os s w)) (fst (parse_user_group os s w))"
    by (auto simp: same_def name_bytes_def dir_bytes_def intro!: ok dest: svc_ok_wf)
  show "same w s (snd (prepare_service_env os s w)) (fst (prepare_service_env os s w))"
    by (auto simp: same_def name_bytes_def dir_bytes_def intro!: ok dest: svc_ok_wf)
  show "same w s (write_status_file os s w) s" "same w s (supervisor_log os msg w) s"
    by (auto simp: same_def intro!: ok dest: svc_ok_wf)
qed

lemma fill_slot_ok:
  assumes "cs_inv d"
  shows "svc_ok (snd (fill_slot os nm d w)) (fst (fill_slot os nm d w)) \<and>
    active (fst (fill_slot os nm d w)) \<and> name_bytes (fst (fill_slot os nm d w)) = take 63 nm \<and>
    dir_bytes (fst (fill_slot os nm d w)) = cs_bytes d \<and>
    extends w (snd (fill_slot os nm d w)) \<and> kill_log (snd (fill_slot os nm d w)) = kill_log w"
proof -
  let ?s = "new_service nm d"
  note new = new_service_ok [OF assms, of w nm]
  obtain s1 w1 where 1: "add_flags os d ?s w = (s1, w1)" by (cases "add_flags os d ?s w")
  obtain s2 w2 where 2: "add_deps os d s1 w1 = (s2, w2)" by (cases "add_deps os d s1 w1")
  obtain s3 w3 where 3: "add_log os d s2 w2 = (s3, w3)" by (cases "add_log os d s2 w2")
  obtain s4 w4 where 4: "parse_user_group os s3 w3 = (s4, w4)" by (cases "parse_user_group os s3 w3")
  obtain s5 w5 where 5: "prepare_service_env os s4 w4 = (s5, w5)"
    by (cases "prepare_service_env os s4 w4")
  let ?w = "supervisor_log os nm (supervisor_log os ''service added: '' (write_status_file os s5 w5))"
  have fill: "fill_slot os nm d w = (s5, ?w)"
    by (simp add: fill_slot_def Let_def 1 2 3 4 5)
  have s1: "same w ?s w1 s1" using same_flags(1) [of w ?s os d] by (simp add: 1)
  then have "svc_ok w1 s1" using new by (simp add: same_def)
  from add_deps_frame [OF this, of os d] have s2: "same w1 s1 w2 s2" by (simp add: 2 same_def)
  have s3: "same w2 s2 w3 s3" using same_flags(2) [of w2 s2 os d] by (simp add: 3)
  have s4: "same w3 s3 w4 s4" using same_flags(3) [of w3 s3 os] by (simp add: 4)
  have s5: "same w4 s4 w5 s5" using same_flags(4) [of w4 s4 os] by (simp add: 5)
  have "same w ?s ?w s5"
    by (rule same_trans [OF s1 same_trans [OF s2 same_trans [OF s3 same_trans [OF s4
        same_trans [OF s5 same_trans [OF same_flags(5) same_trans [OF same_flags(6) same_flags(6)]]]]]]])
  with new show ?thesis by (simp add: fill same_def)
qed

lemma refresh_same: "same w (s\<lparr>present := True, stopping := False\<rparr>) (snd (refresh os s w)) (fst (refresh os s w))"
  using same_trans [OF same_flags(3) same_flags(4)] by (simp add: refresh_def Let_def split_def)

lemma svc_ok_present: "svc_ok w s \<Longrightarrow> svc_ok w (s\<lparr>present := p, stopping := False\<rparr>)"
  "svc_ok w s \<Longrightarrow> svc_ok w (s\<lparr>present := p\<rparr>)"
  by (rule svc_ok_fields, assumption, auto dest: svc_ok_wf)+

interpretation refresh: service_step refresh
proof unfold_locales
  fix os s and w :: world
  assume ok: "svc_ok w s"
  note r = refresh_same [of w s os, unfolded same_def]
  show "svc_ok (snd (refresh os s w)) (fst (refresh os s w))" using r svc_ok_present(1) [OF ok] by blast
  show "kills_ok w \<Longrightarrow> kills_ok (snd (refresh os s w))" using r kills_ok_silent by blast
qed (use refresh_same in \<open>auto simp: same_def\<close>)

lemma missing_log_eq: "missing_log = term_log"
  by (intro ext) (simp add: missing_log_def term_log_def Let_def)

text \<open>The last step for an entry that is gone: without processes it becomes a free slot.\<close>

lemma missing_remove_ok:
  assumes ok: "svc_ok w s" "kills_ok w"
  shows "svc_ok (snd (missing_remove os s w)) (fst (missing_remove os s w))"
    "kills_ok (snd (missing_remove os s w))" "extends w (snd (missing_remove os s w))"
proof -
  let ?c = "close_service_fds os s w"
  obtain s1 w1 where c: "?c = (s1, w1)" by (cases ?c)
  have s1: "svc_ok w1 s1" "kills_ok w1" "extends w w1"
    using closing.step_ok [OF ok(1), of os] closing.step_kills [OF ok, of os]
      closing.step_extends [OF ok(1), of os] by (simp_all add: c)
  have p: "pid s1 = pid s" "log_pid s1 = log_pid s"
    using c by (auto simp: close_fds_two close_stream_fds_def Let_def)
  show "svc_ok (snd (missing_remove os s w)) (fst (missing_remove os s w))"
  proof (cases "pid s \<le> 0 \<and> log_pid s \<le> 0")
    case True
    have wf: "svc_wf s1" by (rule svc_ok_wf [OF s1(1)])
    have inv: "svc_ok w1 (s1\<lparr>active := False, state := STATE_DOWN\<rparr>)"
      using s1(1) wf p True by (auto simp: svc_ok_def svc_inv_def tracked_def valid_state_def)
    show ?thesis
      using True c inv by (simp add: missing_remove_def Let_def svc_ok_intros)
  next
    case False
    then have "missing_remove os s w = (s, w)" unfolding missing_remove_def by (rule if_not_P)
    then show ?thesis using ok by simp
  qed
  show "kills_ok (snd (missing_remove os s w))" "extends w (snd (missing_remove os s w))"
    using ok s1 c by (simp_all add: missing_remove_def Let_def svc_ok_intros)
qed

section \<open>The table keeps the invariant\<close>

lemma add_service_ok:
  "cs_inv d \<Longrightarrow> \<forall>s \<in> set ss. svc_ok w s \<Longrightarrow> add_service os nm d ss w = (ss', w') \<Longrightarrow>
   length ss' = length ss \<and> (\<forall>s \<in> set ss'. svc_ok w' s) \<and> extends w w' \<and> kill_log w' = kill_log w"
proof (induction ss arbitrary: ss' w')
  case (Cons s ss)
  show ?case
  proof (cases "active s")
    case False
    obtain s1 w1 where f: "fill_slot os nm d w = (s1, w1)" by (cases "fill_slot os nm d w")
    then have eq: "ss' = s1 # ss" "w' = w1" using Cons.prems(3) False by simp_all
    have "svc_ok w1 s1" "extends w w1" "kill_log w1 = kill_log w"
      using fill_slot_ok [OF Cons.prems(1), of os nm w] by (simp_all add: f)
    then show ?thesis using Cons.prems(2) svc_ok_mono unfolding eq by auto
  next
    case True
    obtain ss1 w1 where r: "add_service os nm d ss w = (ss1, w1)" by (cases "add_service os nm d ss w")
    then have eq: "ss' = s # ss1" "w' = w1" using Cons.prems(3) True by simp_all
    show ?thesis
      using Cons.IH [OF Cons.prems(1) _ r] Cons.prems(2) svc_ok_mono unfolding eq by auto
  qed
qed simp

lemma entry_dir_inv [simp]: "cs_inv (entry_dir root nm)"
  by (simp add: entry_dir_def)

lemma sys_ok_add:
  assumes "sys_ok services w" "cs_inv d" "add_service os nm d services w = (ss, w')"
  shows "sys_ok ss w'"
  using add_service_ok [OF assms(2) _ assms(3)] assms(1) kills_ok_silent by (auto simp: sys_ok_def)

text \<open>The branches of the loop body, with the entries it skips named.\<close>

definition skipped :: "bytes \<Rightarrow> bool" where
  "skipped nm \<longleftrightarrow> nm = [] \<or> bytes_eq nm ''.'' \<or> bytes_eq nm ''..''"

definition run_access :: "os \<Rightarrow> cstrbuf \<Rightarrow> world \<Rightarrow> int \<times> world" where
  "run_access os d w = sys_access os (cs_cstr (cs_push ''/run'' (cs_from_bytes (cs_bytes d)))) X_OK w"

lemma run_access_frame [simp]:
  "extends w (snd (run_access os d w))" "kill_log (snd (run_access os d w)) = kill_log w"
  by (simp_all add: run_access_def)

lemma scan_entry_eq: "scan_entry os root nm (services, w) =
  (let d = entry_dir root (c_read nm); a = run_access os d w; i = find_service_by_dir services d
   in if skipped (c_read nm) then (services, w)
      else if fst a \<noteq> 0 then (services, snd a)
      else if i = usize_max then add_service os (c_read nm) d services (snd a)
      else (services[i := fst (refresh os (services ! i) (snd a))], snd (refresh os (services ! i) (snd a))))"
  by (simp add: scan_entry_def skipped_def run_access_def Let_def split_def)

lemma scan_entry_cases:
  assumes "scan_entry os root nm (services, w) = (ss, w')"
  obtains (skip) "ss = services" "w' = w" | (no_run) "ss = services" "w' = snd (run_access os (entry_dir root (c_read nm)) w)"
    | (known) i where "i = find_service_by_dir services (entry_dir root (c_read nm))" "i \<noteq> usize_max"
        "ss = services[i := fst (refresh os (services ! i) (snd (run_access os (entry_dir root (c_read nm)) w)))]"
        "w' = snd (refresh os (services ! i) (snd (run_access os (entry_dir root (c_read nm)) w)))"
    | (unknown) "find_service_by_dir services (entry_dir root (c_read nm)) = usize_max"
        "add_service os (c_read nm) (entry_dir root (c_read nm)) services
           (snd (run_access os (entry_dir root (c_read nm)) w)) = (ss, w')"
proof -
  let ?d = "entry_dir root (c_read nm)"
  let ?a = "run_access os ?d w" and ?i = "find_service_by_dir services ?d"
  note eq = assms [unfolded scan_entry_eq Let_def]
  show thesis
  proof (cases "skipped (c_read nm)")
    case True
    with eq show thesis by (intro skip) simp_all
  next
    case a: False
    show thesis
    proof (cases "fst ?a \<noteq> 0")
      case True
      with eq a show thesis by (intro no_run) simp_all
    next
      case b: False
      show thesis
      proof (cases "?i = usize_max")
        case True
        with eq a b show thesis by (intro unknown) simp_all
      next
        case False
        with eq a b show thesis by (intro known [of ?i]) simp_all
      qed
    qed
  qed
qed

lemma scan_entry_ok:
  assumes "sys_ok services w" "scan_entry os root nm (services, w) = (ss, w')"
  shows "sys_ok ss w'"
proof -
  have ok: "sys_ok services (snd (run_access os d w))" for d by (rule sys_ok_mono [OF assms(1)]) simp_all
  have len: "length services < usize_max" using assms(1) by (simp add: sys_ok_def)
  show ?thesis
    using assms(2)
  proof (cases rule: scan_entry_cases)
    case (known i)
    then show ?thesis
      using refresh.at_ok [OF ok, of i] by_dir.found [OF len, of "entry_dir root (c_read nm)"] by simp
  next
    case unknown
    then show ?thesis by (intro sys_ok_add [OF ok entry_dir_inv])
  qed (use assms(1) ok in simp_all)
qed

lemma scan_fold_ok: "sys_ok services w \<Longrightarrow> fold (scan_entry os root) names (services, w) = (ss, w') \<Longrightarrow>
  sys_ok ss w'"
proof (induction names arbitrary: services w)
  case (Cons nm names)
  obtain ss1 w1 where 1: "scan_entry os root nm (services, w) = (ss1, w1)"
    by (cases "scan_entry os root nm (services, w)")
  from Cons.IH [OF scan_entry_ok [OF Cons.prems(1) 1]] show ?case using Cons.prems(2) 1 by simp
qed simp

lemma sys_ok_absent: "sys_ok services w \<Longrightarrow> sys_ok (map absent services) w"
  using svc_ok_present(2) by (auto simp: sys_ok_def absent_def)

lemma scan_services_ok:
  assumes "sys_ok services w" "scan_services os root services w = (r, ss, w')"
  shows "sys_ok ss w'"
proof -
  let ?w = "emit (EAsk (QReaddir (cs_cstr root))) w"
  have ok: "sys_ok services ?w" by (rule sys_ok_mono [OF assms(1)]) simp_all
  show ?thesis
  proof (cases "os_readdir os (trace w) (cs_cstr root)")
    case None
    then show ?thesis using ok assms(2) by (simp add: scan_services_def)
  next
    case (Some names)
    then have "fold (scan_entry os root) names (map absent services, ?w) = (ss, w')"
      using assms(2) by (simp add: scan_services_def)
    then show ?thesis by (rule scan_fold_ok [OF sys_ok_absent [OF ok]])
  qed
qed

text \<open>The transitive stop as the rest of the theory needs it: each entry is kept or marked.\<close>

lemma stop_transitive_entry:
  assumes "sys_ok services w"
  shows "\<exists>S. fst (stop_transitive_deps os services w) = marked services S"
proof -
  have "length services < usize_max" using assms by (simp add: sys_ok_def)
  from stop_transitive_marked [OF this, of "{}" os w] show ?thesis by auto
qed

lemma missing_stop_ok:
  assumes "sys_ok services w" "i < length services" "missing_stop os i (services, w) = (ss, w')"
  shows "sys_ok ss w'"
proof (cases "pid (services ! i) > 0 \<and> \<not> stopping (services ! i)")
  case False
  then show ?thesis using assms by (auto simp: missing_stop_def)
next
  case True
  obtain ss1 w1 where st: "stop_transitive_deps os services w = (ss1, w1)"
    by (cases "stop_transitive_deps os services w")
  have ok: "sys_ok ss1 w1" using stop_transitive_ok [OF assms(1), of os] by (simp add: st)
  obtain S where S: "ss1 = marked services S" using stop_transitive_entry [OF assms(1), of os] st by auto
  then have i: "i < length ss1" "pid (ss1 ! i) > 0" using assms(2) True by auto
  let ?w = "supervisor_log os (name_bytes (ss1 ! i)) (supervisor_log os ''stopping removed service: ''
     (sys_kill (- pid (ss1 ! i)) SIGTERM w1))"
  have res: "ss = ss1[i := mark_stopping (ss1 ! i)]" "w' = ?w"
    using assms(3) True st by (auto simp: missing_stop_def mark_stopping_def Let_def)
  have s: "svc_ok w1 (ss1 ! i)" "kills_ok w1" using ok i by (simp_all add: sys_ok_def)
  have ext: "extends w1 ?w" by (simp add: sys_kill_def)
  show ?thesis
    unfolding res using s i
    by (intro sys_ok_update [OF ok ext] svc_ok_mono [OF ext svc_ok_mark] svc_ok_intros) simp_all
qed

lemma missing_step_ok:
  assumes "sys_ok services w" "i < length services" "missing_step os i (services, w) = (ss, w')"
  shows "sys_ok ss w'"
proof (cases "active (services ! i) \<and> \<not> present (services ! i)")
  case False
  then show ?thesis using assms by (auto simp: missing_step_def)
next
  case True
  obtain ss1 w1 where st: "missing_stop os i (services, w) = (ss1, w1)"
    by (cases "missing_stop os i (services, w)")
  obtain s2 w2 where log: "missing_log os (ss1 ! i) w1 = (s2, w2)"
    by (cases "missing_log os (ss1 ! i) w1")
  obtain s3 w3 where rem: "missing_remove os s2 w2 = (s3, w3)" by (cases "missing_remove os s2 w2")
  have res: "ss = ss1[i := s3]" "w' = w3" using assms(3) True st log rem by (simp_all add: missing_step_def)
  have ok: "sys_ok ss1 w1" by (rule missing_stop_ok [OF assms(1,2) st])
  have i: "i < length ss1" using ok assms by (simp add: sys_ok_def)
  have s1: "svc_ok w1 (ss1 ! i)" "kills_ok w1" using ok i by (simp_all add: sys_ok_def)
  have s2: "svc_ok w2 s2" "kills_ok w2" "extends w1 w2"
    using term_log.step_ok [OF s1(1), of os] term_log.step_kills [OF s1, of os]
      term_log.step_extends [OF s1(1), of os] log by (simp_all add: missing_log_eq)
  show ?thesis
    unfolding res
    using missing_remove_ok [OF s2(1,2), of os] extends_trans [OF s2(3)] rem
    by (intro sys_ok_update [OF ok]) simp_all
qed

lemma missing_fold_ok: "sys_ok services w \<Longrightarrow> \<forall>i \<in> set is. i < length services \<Longrightarrow>
  fold (missing_step os) is (services, w) = (ss, w') \<Longrightarrow> sys_ok ss w'"
proof (induction "is" arbitrary: services w)
  case (Cons i js)
  obtain ss1 w1 where 1: "missing_step os i (services, w) = (ss1, w1)"
    by (cases "missing_step os i (services, w)")
  have i: "i < length services" using Cons.prems(2) by simp
  note ok = missing_step_ok [OF Cons.prems(1) i 1]
  then have "length ss1 = length services" using Cons.prems(1) by (simp add: sys_ok_def)
  then show ?case using Cons.IH [OF ok] Cons.prems 1 by simp
qed simp

lemma handle_missing_ok:
  "sys_ok services w \<Longrightarrow> handle_missing_services os services w = (ss, w') \<Longrightarrow> sys_ok ss w'"
  unfolding handle_missing_services_def by (rule missing_fold_ok) auto

section \<open>The \<open>depends\<close> file\<close>

definition dep_trim :: "bytes \<Rightarrow> bytes" where
  "dep_trim l = rtrim is_blank (dropWhile (\<lambda>c. c = CHR '' '') l)"

text \<open>What a line says, and what an entry of \<open>deps\<close> holds: soft or not, and a name.\<close>

definition dep_of :: "bytes \<Rightarrow> bool \<times> bytes" where
  "dep_of c = (if c \<noteq> [] \<and> hd c = CHR ''?'' then (True, take 63 (tl c)) else (False, take 63 c))"

definition dep_view :: "dependency \<Rightarrow> bool \<times> bytes" where
  "dep_view d = (soft d, dep_bytes d)"

definition dep_specs :: "bytes \<Rightarrow> (bool \<times> bytes) list" where
  "dep_specs file = map dep_of (filter (\<lambda>c. c \<noteq> []) (map dep_trim (lines_of file)))"

lemma clean_line_eq: "clean_line l = dep_trim l"
proof -
  let ?i = "scan_fwd (\<lambda>c. c = CHR '' '') l 0 (length l)"
  have "slice l ?i (length l) = dropWhile (\<lambda>c. c = CHR '' '') l"
    using scan_fwd_rest [of 0 "length l" l "\<lambda>c. c = CHR '' ''"] by (simp add: slice_to_end)
  then show ?thesis
    by (simp add: clean_line_def dep_trim_def rtrim_def Let_def scan_bwd_slice)
qed

lemma lines_of_next:
  assumes "start < length data"
  shows "lines_of (drop start data) = slice data start (scan_fwd (\<lambda>c. \<not> is_nl c) data start (length data)) #
    lines_of (drop (scan_fwd is_nl data (scan_fwd (\<lambda>c. \<not> is_nl c) data start (length data) + 1) (length data)) data)"
proof -
  obtain a b where "line_bounds data start = (a, b,
      scan_fwd is_nl data (scan_fwd (\<lambda>c. \<not> is_nl c) data start (length data) + 1) (length data))"
    by (simp add: line_bounds_def Let_def)
  from lines_of_drop [OF this assms] show ?thesis by (simp add: scan_fwd_slice slice_to_end)
qed

lemma store_dep_view:
  assumes "svc_wf s" "di < MAX_DEPENDENCIES"
  shows "map dep_view (take (di + 1) (deps (store_dep di c s))) =
    map dep_view (take di (deps s)) @ [dep_of c]"
proof -
  have len: "length (deps s) = MAX_DEPENDENCIES" "length (dep_name (deps s ! di)) = NAME_BUF"
    using assms by (auto simp: svc_wf_def dep_wf_def)
  let ?d = "\<lambda>nm sft. (deps s ! di)\<lparr>dep_name_len := min (length nm) 63, dep_name :=
     (copy_slice 0 (take (min (length nm) 63) nm) (dep_name (deps s ! di)))[min (length nm) 63 := NUL],
     soft := sft\<rparr>"
  have view: "dep_view (?d nm sft) = (sft, take 63 nm)" for nm sft
    using len(2) by (simp add: dep_view_def dep_bytes_def copy_slice_def min_def)
  have "deps (store_dep di c s) = (deps s)[di := (if c \<noteq> [] \<and> hd c = CHR ''?'' then ?d (tl c) True else ?d c False)]"
    by (simp add: store_dep_def Let_def)
  moreover have "dep_view (if c \<noteq> [] \<and> hd c = CHR ''?'' then ?d (tl c) True else ?d c False) = dep_of c"
    unfolding dep_of_def if_distrib [of dep_view] view ..
  ultimately have "\<exists>d. deps (store_dep di c s) = (deps s)[di := d] \<and> dep_view d = dep_of c" by blast
  then obtain d where "deps (store_dep di c s) = (deps s)[di := d]" "dep_view d = dep_of c" by blast
  then show ?thesis using len(1) assms(2) by (simp add: take_Suc_conv_app_nth)
qed

lemma dep_lines_view:
  "svc_wf s \<Longrightarrow> di \<le> MAX_DEPENDENCIES \<Longrightarrow> dep_lines data start di s = (s', n) \<Longrightarrow>
   map dep_view (take n (deps s')) =
     map dep_view (take di (deps s)) @ take (MAX_DEPENDENCIES - di) (dep_specs (drop start data))"
proof (induction data start di s rule: dep_lines.induct)
  case (1 data start di s)
  show ?case
  proof (cases "start < length data \<and> di < MAX_DEPENDENCIES")
    case False
    then have "s' = s" "n = di" using "1.prems" by (subst (asm) dep_lines.simps, simp)+
    moreover have "take (MAX_DEPENDENCIES - di) (dep_specs (drop start data)) = []"
      using False by (cases "start < length data") (simp_all add: dep_specs_def lines_of.simps [of "[]"])
    ultimately show ?thesis by simp
  next
    case True
    let ?e = "scan_fwd (\<lambda>c. \<not> is_nl c) data start (length data)"
    let ?nx = "scan_fwd is_nl data (?e + 1) (length data)"
    let ?c = "clean_line (slice data start ?e)"
    let ?s = "if ?c \<noteq> [] then store_dep di ?c s else s" and ?di = "if ?c \<noteq> [] then di + 1 else di"
    have eq: "dep_lines data start di s = dep_lines data ?nx ?di ?s"
      using True by (subst dep_lines.simps) (simp add: Let_def)
    have wf: "svc_wf ?s" using "1.prems"(1) True store_dep_wf by simp
    have "map dep_view (take n (deps s')) = map dep_view (take ?di (deps ?s)) @
        take (MAX_DEPENDENCIES - ?di) (dep_specs (drop ?nx data))"
      using True "1.prems"(3) wf unfolding eq
      by (intro "1.IH" [OF True refl refl, of "(?s, ?di)" ?s ?di]) auto
    moreover have "dep_specs (drop start data) =
        (if ?c \<noteq> [] then [dep_of ?c] else []) @ dep_specs (drop ?nx data)"
      using lines_of_next [of start data] True by (simp add: dep_specs_def clean_line_eq)
    moreover have "MAX_DEPENDENCIES - di = Suc (MAX_DEPENDENCIES - Suc di)" using True by linarith
    ultimately show ?thesis
      using store_dep_view [OF "1.prems"(1), of di ?c] True by simp
  qed
qed

section \<open>Identities under scanning\<close>

lemma add_service_slot:
  "add_service os nm d services w =
     (if list_all active services then (services, w)
      else (let i = length (takeWhile active services); (s, w') = fill_slot os nm d w
            in (services[i := s], w')))"
  by (induction services arbitrary: w) (auto simp: Let_def split_def)

lemma dirs_distinct_sub:
  assumes "dirs_distinct ss" "length ts = length ss"
    "\<And>i. i < length ss \<Longrightarrow> active (ts ! i) \<Longrightarrow> active (ss ! i) \<and> dir_bytes (ts ! i) = dir_bytes (ss ! i)"
  shows "dirs_distinct ts"
  unfolding dirs_distinct_def
proof (intro allI impI)
  fix i j
  assume i: "i < length ts" and j: "j < length ts"
    and a: "active (ts ! i) \<and> active (ts ! j) \<and> dir_bytes (ts ! i) = dir_bytes (ts ! j)"
  have "active (ss ! i)" "active (ss ! j)" "dir_bytes (ss ! i) = dir_bytes (ss ! j)"
    using a assms(3) [of i] assms(3) [of j] i j assms(2) by simp_all
  then show "i = j" using assms(1) i j assms(2) unfolding dirs_distinct_def by simp
qed

lemma dirs_distinct_insert:
  assumes "dirs_distinct ss" "length ss < usize_max" "find_service_by_dir ss d = usize_max"
    "dir_bytes s = cs_bytes d"
  shows "dirs_distinct (ss[k := s])"
proof -
  have none: "\<not> (active (ss ! i) \<and> dir_bytes (ss ! i) = cs_bytes d)" if "i < length ss" for i
    using by_dir.found_iff [OF assms(2), of d] assms(3) that nth_mem by blast
  show ?thesis
    unfolding dirs_distinct_def
  proof (intro allI impI)
    fix i j
    assume i: "i < length (ss[k := s])" and j: "j < length (ss[k := s])"
      and a: "active (ss[k := s] ! i) \<and> active (ss[k := s] ! j) \<and>
        dir_bytes (ss[k := s] ! i) = dir_bytes (ss[k := s] ! j)"
    show "i = j"
    proof (cases "i = k \<or> j = k")
      case True
      then show ?thesis
        using a i j none [of i] none [of j] assms(4)
        by (cases "i = k"; cases "j = k") simp_all
    next
      case False
      then show ?thesis using a i j assms(1) unfolding dirs_distinct_def by simp
    qed
  qed
qed

text \<open>An entry before and after a scan: known services keep their identity and their processes.\<close>

definition same_process :: "service \<Rightarrow> service \<Rightarrow> bool" where
  "same_process s t \<longleftrightarrow> active t = active s \<and> name_bytes t = name_bytes s \<and>
     dir_bytes t = dir_bytes s \<and> pid t = pid s \<and> log_pid t = log_pid s \<and> state t = state s \<and>
     log_state t = log_state s \<and> restarts t = restarts s \<and> restart_at t = restart_at s \<and>
     auto_start t = auto_start s \<and> once t = once s \<and> deps t = deps s \<and> deps_count t = deps_count s"

definition listed :: "cstrbuf \<Rightarrow> bytes list \<Rightarrow> bytes \<Rightarrow> bool" where
  "listed root names d \<longleftrightarrow>
     (\<exists>nm \<in> set names. \<not> skipped (c_read nm) \<and> d = cs_bytes (entry_dir root (c_read nm)))"

definition scanned :: "cstrbuf \<Rightarrow> bytes list \<Rightarrow> service \<Rightarrow> service \<Rightarrow> bool" where
  "scanned root names s t \<longleftrightarrow> same_process s t \<and>
     (present t = present s \<and> stopping t = stopping s \<or>
      present t \<and> \<not> stopping t \<and> listed root names (dir_bytes s))"

lemma scanned_refl [simp]: "scanned root names s s"
  by (simp add: scanned_def same_process_def)

lemma scanned_trans: "scanned root ns1 s t \<Longrightarrow> scanned root ns2 t u \<Longrightarrow> scanned root (ns1 @ ns2) s u"
  by (auto simp: scanned_def same_process_def listed_def)

lemma refresh_scanned:
  assumes "dir_bytes s = cs_bytes (entry_dir root (c_read nm))" "\<not> skipped (c_read nm)"
  shows "scanned root [nm] s (fst (refresh os s w))"
proof -
  have "same_process s (fst (refresh os s w))"
    by (simp add: same_process_def refresh_def Let_def split_def name_bytes_def dir_bytes_def)
  moreover have "present (fst (refresh os s w))" "\<not> stopping (fst (refresh os s w))"
    by (simp_all add: refresh_def Let_def split_def)
  moreover have "listed root [nm] (dir_bytes s)" using assms by (simp add: listed_def)
  ultimately show ?thesis by (simp add: scanned_def)
qed

lemma scan_entry_entries:
  assumes ok: "sys_ok services w" and res: "scan_entry os root nm (services, w) = (ss, w')"
    and i: "i < length services" "active (services ! i)"
  shows "scanned root [nm] (services ! i) (ss ! i)"
proof -
  let ?d = "entry_dir root (c_read nm)"
  have len: "length services < usize_max" using ok by (simp add: sys_ok_def)
  show ?thesis
  proof (cases "skipped (c_read nm)")
    case True
    then show ?thesis using res by (simp add: scan_entry_eq)
  next
    case False
    show ?thesis
      using res
    proof (cases rule: scan_entry_cases)
      case (known k)
      have "dir_bytes (services ! k) = cs_bytes ?d"
        using by_dir.found [OF len, of ?d] known(1,2) by simp
      from refresh_scanned [OF this False] show ?thesis
        using known(3) i by (cases "i = k") simp_all
    next
      case unknown
      have "i \<noteq> length (takeWhile active services)"
        using i nth_length_takeWhile [of active services] by auto
      then show ?thesis
        using unknown(2) by (auto simp: add_service_slot Let_def split_def split: if_splits)
    qed simp_all
  qed
qed

lemma scan_entry_distinct:
  assumes ok: "sys_ok services w" and res: "scan_entry os root nm (services, w) = (ss, w')"
    and dist: "dirs_distinct services"
  shows "dirs_distinct ss"
proof -
  let ?d = "entry_dir root (c_read nm)"
  have ok': "sys_ok services (snd (run_access os ?d w))" by (rule sys_ok_mono [OF ok]) simp_all
  have len: "length services < usize_max" using ok by (simp add: sys_ok_def)
  show ?thesis
    using res
  proof (cases rule: scan_entry_cases)
    case (known k)
    have "k < length services" using by_dir.found [OF len, of ?d] known(1,2) by simp
    from refresh.at_ids [OF ok' this, of os] known(3) show ?thesis using dist dirs_distinct_ids by blast
  next
    case unknown
    have "dir_bytes (fst (fill_slot os (c_read nm) ?d v)) = cs_bytes ?d" for v
      using fill_slot_ok [OF entry_dir_inv] by blast
    from dirs_distinct_insert [OF dist len unknown(1) this] show ?thesis
      using unknown(2) dist by (auto simp: add_service_slot Let_def split_def split: if_splits)
  qed (use dist in simp_all)
qed

lemma scan_fold_entries:
  "sys_ok services w \<Longrightarrow> fold (scan_entry os root) names (services, w) = (ss, w') \<Longrightarrow>
   i < length services \<Longrightarrow> active (services ! i) \<Longrightarrow> scanned root names (services ! i) (ss ! i)"
proof (induction names arbitrary: services w)
  case (Cons nm names)
  obtain ss1 w1 where 1: "scan_entry os root nm (services, w) = (ss1, w1)"
    by (cases "scan_entry os root nm (services, w)")
  have s1: "scanned root [nm] (services ! i) (ss1 ! i)"
    by (rule scan_entry_entries [OF Cons.prems(1) 1 Cons.prems(3,4)])
  note ok = scan_entry_ok [OF Cons.prems(1) 1]
  have "i < length ss1" using ok Cons.prems(1,3) by (simp add: sys_ok_def)
  moreover have "active (ss1 ! i)" using s1 Cons.prems(4) by (simp add: scanned_def same_process_def)
  ultimately have "scanned root names (ss1 ! i) (ss ! i)"
    using Cons.IH [OF ok] Cons.prems(2) 1 by simp
  from scanned_trans [OF s1 this] show ?case by simp
qed simp

lemma scan_fold_distinct:
  "sys_ok services w \<Longrightarrow> fold (scan_entry os root) names (services, w) = (ss, w') \<Longrightarrow>
   dirs_distinct services \<Longrightarrow> dirs_distinct ss"
proof (induction names arbitrary: services w)
  case (Cons nm names)
  obtain ss1 w1 where 1: "scan_entry os root nm (services, w) = (ss1, w1)"
    by (cases "scan_entry os root nm (services, w)")
  show ?case
    using Cons.IH [OF scan_entry_ok [OF Cons.prems(1) 1]] Cons.prems(2) 1
      scan_entry_distinct [OF Cons.prems(1) 1 Cons.prems(3)] by simp
qed simp

lemma dirs_distinct_absent: "dirs_distinct services \<Longrightarrow> dirs_distinct (map absent services)"
  by (erule dirs_distinct_sub) (simp_all add: absent_def split: if_splits)

lemma scan_services_distinct:
  assumes "sys_ok services w" "dirs_distinct services" "scan_services os root services w = (r, ss, w')"
  shows "dirs_distinct ss"
proof (cases "os_readdir os (trace w) (cs_cstr root)")
  case None
  then show ?thesis using assms by (simp add: scan_services_def)
next
  case (Some names)
  let ?w = "emit (EAsk (QReaddir (cs_cstr root))) w"
  have ok: "sys_ok services ?w" by (rule sys_ok_mono [OF assms(1)]) simp_all
  have "fold (scan_entry os root) names (map absent services, ?w) = (ss, w')"
    using Some assms(3) by (simp add: scan_services_def)
  then show ?thesis
    using scan_fold_distinct [OF sys_ok_absent [OF ok]] dirs_distinct_absent [OF assms(2)] by blast
qed

lemma missing_step_entries:
  assumes "sys_ok services w" "i < length services" "missing_step os i (services, w) = (ss, w')"
  shows "\<forall>k < length services. (active (ss ! k) \<longrightarrow> active (services ! k)) \<and>
    name_bytes (ss ! k) = name_bytes (services ! k) \<and> dir_bytes (ss ! k) = dir_bytes (services ! k) \<and>
    present (ss ! k) = present (services ! k)"
proof (cases "active (services ! i) \<and> \<not> present (services ! i)")
  case False
  then show ?thesis using assms(3) by (auto simp: missing_step_def)
next
  case True
  obtain ss1 w1 where st: "missing_stop os i (services, w) = (ss1, w1)"
    by (cases "missing_stop os i (services, w)")
  let ?same = "\<lambda>s t. (active t \<longrightarrow> active s) \<and> name_bytes t = name_bytes s \<and>
    dir_bytes t = dir_bytes s \<and> present t = present s"
  obtain S where S: "fst (stop_transitive_deps os services w) = marked services S"
    using stop_transitive_entry [OF assms(1)] by blast
  have one: "?same (services ! k) (ss1 ! k)" if "k < length services" for k
    using st S that assms(2)
    by (cases "k = i") (auto simp: missing_stop_def Let_def split_def mark_stopping_def split: if_splits)
  have three: "?same s (fst (missing_remove os (fst (missing_log os s v)) u))" for s u v
    by (simp add: missing_remove_def missing_log_def close_fds_two close_stream_fds_def Let_def split_def)
  let ?last = "fst (missing_remove os (fst (missing_log os (ss1 ! i) w1))
      (snd (missing_log os (ss1 ! i) w1)))"
  have ss: "ss = ss1[i := ?last]"
    using assms(3) True st by (auto simp: missing_step_def split_def Let_def)
  have "?same (services ! k) (ss ! k)" if k: "k < length services" for k
  proof (cases "k = i \<and> i < length ss1")
    case True
    then have "ss ! k = ?last" by (simp add: ss)
    then show ?thesis
      using three [of "ss1 ! i" w1 "snd (missing_log os (ss1 ! i) w1)"] one [OF k] True by simp
  next
    case False
    then have "ss ! k = ss1 ! k" by (auto simp: ss list_update_beyond not_less)
    then show ?thesis using one [OF k] by simp
  qed
  then show ?thesis by blast
qed

text \<open>What is left of an entry whose directory is gone.\<close>

definition winding_down :: "service \<Rightarrow> bool" where
  "winding_down s \<longleftrightarrow> (pid s > 0 \<or> log_pid s > 0) \<and>
     (pid s \<le> 0 \<or> stopping s \<and> state s = STATE_STOPPING) \<and> (log_pid s \<le> 0 \<or> log_stopping s)"

definition gone :: "service \<Rightarrow> bool" where
  "gone s \<longleftrightarrow> active s \<and> \<not> present s"

lemma winding_down_mark: "gone s \<Longrightarrow> winding_down s \<Longrightarrow> gone (mark_stopping s) \<and> winding_down (mark_stopping s)"
  by (auto simp: winding_down_def gone_def mark_stopping_def)

lemma stopping_state: "svc_ok w s \<Longrightarrow> pid s > 0 \<Longrightarrow> stopping s \<Longrightarrow> state s = STATE_STOPPING"
  by (auto simp: svc_ok_def svc_inv_def)

lemma missing_rest:
  assumes "pid s \<le> 0 \<or> stopping s \<and> state s = STATE_STOPPING"
  shows "gone (fst (missing_remove os (fst (missing_log os s v)) u)) \<Longrightarrow>
    winding_down (fst (missing_remove os (fst (missing_log os s v)) u))"
proof -
  let ?s = "fst (missing_log os s v)"
  have s: "pid ?s = pid s" "log_pid ?s = log_pid s" "stopping ?s = stopping s" "state ?s = state s"
    "log_pid s \<le> 0 \<or> log_stopping ?s"
    by (auto simp: missing_log_def Let_def)
  assume g: "gone (fst (missing_remove os ?s u))"
  show "winding_down (fst (missing_remove os ?s u))"
  proof (cases "pid ?s \<le> 0 \<and> log_pid ?s \<le> 0")
    case True
    with g show ?thesis by (simp add: missing_remove_def gone_def Let_def split_def)
  next
    case False
    then have "missing_remove os ?s u = (?s, u)" unfolding missing_remove_def by (rule if_not_P)
    then show ?thesis using False s assms by (auto simp: winding_down_def)
  qed
qed

lemma missing_step_winds_down:
  assumes ok: "sys_ok services w" and i: "i < length services"
    and res: "missing_step os i (services, w) = (ss, w')"
  shows "(gone (ss ! i) \<longrightarrow> winding_down (ss ! i)) \<and>
    (\<forall>k < length services. winding_down (services ! k) \<longrightarrow> gone (ss ! k) \<longrightarrow> winding_down (ss ! k))"
proof (cases "active (services ! i) \<and> \<not> present (services ! i)")
  case False
  then show ?thesis using res by (auto simp: missing_step_def gone_def)
next
  case True
  obtain ss1 w1 where st: "missing_stop os i (services, w) = (ss1, w1)"
    by (cases "missing_stop os i (services, w)")
  let ?last = "fst (missing_remove os (fst (missing_log os (ss1 ! i) w1))
      (snd (missing_log os (ss1 ! i) w1)))"
  have ss: "ss = ss1[i := ?last]" using res True st by (auto simp: missing_step_def split_def Let_def)
  have ok1: "sys_ok ss1 w1" by (rule missing_stop_ok [OF ok i st])
  have i1: "i < length ss1" "svc_ok w1 (ss1 ! i)" using ok1 ok i by (simp_all add: sys_ok_def)
  obtain S where S: "fst (stop_transitive_deps os services w) = marked services S"
    using stop_transitive_entry [OF ok] by blast
  have other: "ss1 ! k = services ! k \<or> ss1 ! k = mark_stopping (services ! k)"
    if "k \<noteq> i" "k < length services" for k
    using st S that by (auto simp: missing_stop_def Let_def split_def split: if_splits)
  have "pid (ss1 ! i) \<le> 0 \<or> stopping (ss1 ! i)"
    using st i S by (auto simp: missing_stop_def Let_def split_def split: if_splits)
  then have "pid (ss1 ! i) \<le> 0 \<or> stopping (ss1 ! i) \<and> state (ss1 ! i) = STATE_STOPPING"
    using stopping_state [OF i1(2)] by auto
  from missing_rest [OF this] have "gone (ss ! i) \<longrightarrow> winding_down (ss ! i)"
    using i1(1) by (simp add: ss)
  moreover have "winding_down (ss ! k)"
    if "k < length services" "winding_down (services ! k)" "gone (ss ! k)" for k
  proof (cases "k = i")
    case False
    then have "ss ! k = ss1 ! k" by (simp add: ss)
    with other [OF False that(1)] that(2) show ?thesis
      by (auto simp: winding_down_def mark_stopping_def)
  qed (use calculation that in simp)
  ultimately show ?thesis by blast
qed

lemma missing_fold_winds_down:
  assumes "sys_ok services w" "n \<le> length services"
    "fold (missing_step os) [0..<n] (services, w) = (ss, w')"
  shows "\<forall>k < n. gone (ss ! k) \<longrightarrow> winding_down (ss ! k)"
  using assms(2,3)
proof (induction n arbitrary: ss w')
  case (Suc n)
  obtain ss1 w1 where 1: "fold (missing_step os) [0..<n] (services, w) = (ss1, w1)"
    by (cases "fold (missing_step os) [0..<n] (services, w)")
  have ok: "sys_ok ss1 w1" by (rule missing_fold_ok [OF assms(1) _ 1]) (use Suc.prems(1) in simp)
  have n: "n < length ss1" using ok assms(1) Suc.prems(1) by (simp add: sys_ok_def)
  have step: "missing_step os n (ss1, w1) = (ss, w')" using Suc.prems(2) 1 by simp
  note ent = missing_step_entries [OF ok n step]
  have IH: "\<forall>k < n. gone (ss1 ! k) \<longrightarrow> winding_down (ss1 ! k)" using Suc.IH [OF _ 1] Suc.prems(1) by simp
  show ?case
  proof (intro allI impI)
    fix k
    assume k: "k < Suc n" "gone (ss ! k)"
    show "winding_down (ss ! k)"
    proof (cases "k = n")
      case True
      then show ?thesis using missing_step_winds_down [OF ok n step] k by simp
    next
      case False
      then have k': "k < n" "k < length ss1" using k n by simp_all
      then have "gone (ss1 ! k)" using ent k(2) by (auto simp: gone_def)
      then show ?thesis using missing_step_winds_down [OF ok n step] IH k k' by blast
    qed
  qed
qed simp

text \<open>Between two tables: an entry keeps its processes and its directory mark, it becomes a free slot
  only without processes, and where a mark of having been told to stop is new, \<open>SIGTERM\<close> is among the
  signals sent.\<close>

definition accounted :: "(int \<times> int) list \<Rightarrow> service \<Rightarrow> service \<Rightarrow> bool" where
  "accounted ks s s' \<longleftrightarrow> pid s' = pid s \<and> log_pid s' = log_pid s \<and> present s' = present s \<and>
     (active s' \<longrightarrow> active s) \<and> (active s \<and> \<not> active s' \<longrightarrow> pid s \<le> 0 \<and> log_pid s \<le> 0) \<and>
     (stopping s' \<and> \<not> stopping s \<longrightarrow> (- pid s, SIGTERM) \<in> set ks) \<and>
     (log_stopping s' \<and> \<not> log_stopping s \<longrightarrow> (log_pid s, SIGTERM) \<in> set ks)"

definition all_accounted :: "service list \<Rightarrow> world \<Rightarrow> service list \<Rightarrow> world \<Rightarrow> bool" where
  "all_accounted services w ss w' \<longleftrightarrow> length ss = length services \<and>
     (\<exists>ks. kill_log w' = kill_log w @ ks \<and> (\<forall>i < length services. accounted ks (services ! i) (ss ! i)))"

lemma accounted_refl [simp]: "accounted ks s s"
  by (simp add: accounted_def)

lemma accounted_trans: "accounted ks s t \<Longrightarrow> accounted ls t u \<Longrightarrow> accounted (ks @ ls) s u"
  unfolding accounted_def by (cases "stopping t"; cases "log_stopping t"; cases "active t") auto

lemma all_accounted_trans:
  assumes "all_accounted services w ss v" "all_accounted ss v ss' w'"
  shows "all_accounted services w ss' w'"
proof -
  obtain ks ls where k: "kill_log v = kill_log w @ ks" "kill_log w' = kill_log v @ ls"
    "\<forall>i < length services. accounted ks (services ! i) (ss ! i)"
    "\<forall>i < length services. accounted ls (ss ! i) (ss' ! i)"
    using assms by (auto simp: all_accounted_def)
  then have "\<forall>i < length services. accounted (ks @ ls) (services ! i) (ss' ! i)"
    using accounted_trans by blast
  with k assms show ?thesis by (auto simp: all_accounted_def)
qed

lemma all_accounted_at:
  "accounted ks (services ! i) s \<Longrightarrow> kill_log w' = kill_log w @ ks \<Longrightarrow>
   all_accounted services w (services[i := s]) w'"
proof -
  assume a: "accounted ks (services ! i) s" "kill_log w' = kill_log w @ ks"
  have "accounted ks (services ! j) (services[i := s] ! j)" if "j < length services" for j
    using a(1) that by (cases "j = i") simp_all
  with a(2) show ?thesis unfolding all_accounted_def by auto
qed

lemma stop_transitive_accounted:
  assumes "sys_ok services w"
  shows "all_accounted services w (fst (stop_transitive_deps os services w)) (snd (stop_transitive_deps os services w))"
proof -
  have "length services < usize_max" using assms by (simp add: sys_ok_def)
  from stop_transitive_marked [OF this, of "{}" os w] obtain ks w'
    where r: "stop_transitive_deps os services w = (marked services (Collect (must_stop services)), w')"
      "set ks = Collect (must_stop services)" "kill_log w' = kill_log w @ map (term_group services) ks" by auto
  have "accounted (map (term_group services) ks) (services ! i)
      (marked services (Collect (must_stop services)) ! i)" if "i < length services" for i
    using that r(2) by (auto simp: accounted_def mark_stopping_def term_group_def)
  with r show ?thesis by (auto simp: all_accounted_def intro!: exI [of _ "map (term_group services) ks"])
qed

lemma missing_stop_accounted:
  assumes "sys_ok services w" "i < length services" "missing_stop os i (services, w) = (ss, w')"
  shows "all_accounted services w ss w'"
proof (cases "pid (services ! i) > 0 \<and> \<not> stopping (services ! i)")
  case False
  then show ?thesis using assms by (auto simp: missing_stop_def all_accounted_def)
next
  case True
  obtain ss1 w1 where st: "stop_transitive_deps os services w = (ss1, w1)"
    by (cases "stop_transitive_deps os services w")
  have one: "all_accounted services w ss1 w1" using stop_transitive_accounted [OF assms(1), of os] st by simp
  have "accounted [(- pid (ss1 ! i), SIGTERM)] (ss1 ! i) (mark_stopping (ss1 ! i))"
    by (simp add: accounted_def mark_stopping_def)
  then have "all_accounted ss1 w1 ss w'"
    using assms(3) True st by (auto simp: missing_stop_def mark_stopping_def Let_def intro!: all_accounted_at)
  from all_accounted_trans [OF one this] show ?thesis .
qed

lemma missing_rest_accounted:
  "\<exists>ks. kill_log (snd (missing_remove os (fst (missing_log os s w)) (snd (missing_log os s w)))) =
      kill_log w @ ks \<and>
    accounted ks s (fst (missing_remove os (fst (missing_log os s w)) (snd (missing_log os s w))))"
proof -
  have r: "kill_log (snd (missing_remove os t v)) = kill_log v" "accounted [] t (fst (missing_remove os t v))" for t v
    by (simp_all add: missing_remove_def accounted_def close_fds_two close_stream_fds_def Let_def split_def)
  have l: "accounted [(log_pid s, SIGTERM)] s (fst (missing_log os s w))"
    "kill_log (snd (missing_log os s w)) = kill_log w @ (if log_pid s > 0 \<and> \<not> log_stopping s
       then [(log_pid s, SIGTERM)] else [])"
    "\<not> (log_pid s > 0 \<and> \<not> log_stopping s) \<Longrightarrow> fst (missing_log os s w) = s"
    by (simp_all add: missing_log_def accounted_def Let_def)
  show ?thesis
  proof (cases "log_pid s > 0 \<and> \<not> log_stopping s")
    case True
    with l r accounted_trans [OF l(1) r(2)] show ?thesis by simp
  next
    case False
    with l r show ?thesis by simp
  qed
qed

lemma missing_step_accounted:
  assumes "sys_ok services w" "i < length services" "missing_step os i (services, w) = (ss, w')"
  shows "all_accounted services w ss w'"
proof (cases "active (services ! i) \<and> \<not> present (services ! i)")
  case False
  then show ?thesis using assms(3) by (auto simp: missing_step_def all_accounted_def)
next
  case True
  obtain ss1 w1 where st: "missing_stop os i (services, w) = (ss1, w1)"
    by (cases "missing_stop os i (services, w)")
  obtain ks where "kill_log w' = kill_log w1 @ ks" "accounted ks (ss1 ! i) s" "ss = ss1[i := s]"
    if "s = fst (missing_remove os (fst (missing_log os (ss1 ! i) w1)) (snd (missing_log os (ss1 ! i) w1)))" for s
    using missing_rest_accounted [of os "ss1 ! i" w1] assms(3) True st
    by (auto simp: missing_step_def split_def Let_def)
  then have "all_accounted ss1 w1 ss w'" using all_accounted_at by metis
  from all_accounted_trans [OF missing_stop_accounted [OF assms(1,2) st] this] show ?thesis .
qed

lemma missing_fold_accounted: "sys_ok services w \<Longrightarrow> \<forall>i \<in> set is. i < length services \<Longrightarrow>
  fold (missing_step os) is (services, w) = (ss, w') \<Longrightarrow> all_accounted services w ss w'"
proof (induction "is" arbitrary: services w)
  case Nil
  then show ?case by (simp add: all_accounted_def)
next
  case (Cons i js)
  obtain ss1 w1 where 1: "missing_step os i (services, w) = (ss1, w1)"
    by (cases "missing_step os i (services, w)")
  have i: "i < length services" using Cons.prems(2) by simp
  note ok = missing_step_ok [OF Cons.prems(1) i 1]
  then have "length ss1 = length services" using Cons.prems(1) by (simp add: sys_ok_def)
  then have "all_accounted ss1 w1 ss w'" using Cons.IH [OF ok] Cons.prems 1 by simp
  from all_accounted_trans [OF missing_step_accounted [OF Cons.prems(1) i 1] this] show ?case .
qed

lemma handle_missing_distinct:
  assumes "sys_ok services w" "dirs_distinct services" "handle_missing_services os services w = (ss, w')"
  shows "dirs_distinct ss"
proof -
  have "dirs_distinct ss" if "sys_ok services w" "dirs_distinct services"
    "fold (missing_step os) is (services, w) = (ss, w')" "\<forall>i \<in> set is. i < length services"
    for "is" services w
    using that
  proof (induction "is" arbitrary: services w)
    case (Cons i js)
    obtain ss1 w1 where 1: "missing_step os i (services, w) = (ss1, w1)"
      by (cases "missing_step os i (services, w)")
    have i: "i < length services" using Cons.prems by simp
    note ok = missing_step_ok [OF Cons.prems(1) i 1]
    have len: "length ss1 = length services" using ok Cons.prems(1) by (simp add: sys_ok_def)
    have "dirs_distinct ss1"
      using missing_step_entries [OF Cons.prems(1) i 1] by (intro dirs_distinct_sub [OF Cons.prems(2) len]) auto
    then show ?case using Cons.IH [OF ok] Cons.prems 1 len by simp
  qed simp
  then show ?thesis using assms unfolding handle_missing_services_def by simp
qed

section \<open>Claims\<close>

text \<open>C20. The dependencies of a new service are the first sixteen lines of its \<open>depends\<close> file that are
  not blank, in their order: trimmed, soft when they start with a question mark, and with names cut
  to 63 bytes. An empty or unreadable file leaves the service as it was.\<close>

theorem depends_file_parsed:
  assumes "svc_wf s"
  shows "(let file = rd_data (fst (read_file_to_buf os
        (cs_push ''/depends'' (cs_from_bytes (cs_bytes d))) DEP_FILE_BUF w));
      s' = fst (add_deps os d s w)
    in if file = [] then s' = s
       else map dep_view (take (deps_count s') (deps s')) = take MAX_DEPENDENCIES (dep_specs file))"
proof -
  let ?r = "read_file_to_buf os (cs_push ''/depends'' (cs_from_bytes (cs_bytes d))) DEP_FILE_BUF w"
  obtain s' n where l: "dep_lines (rd_data (fst ?r)) 0 0 s = (s', n)"
    by (cases "dep_lines (rd_data (fst ?r)) 0 0 s")
  show ?thesis
    using dep_lines_view [OF assms _ l] l by (simp add: add_deps_def Let_def split_def)
qed

theorem depends_file_parsed_witness:
  "\<forall>os d w. (let file = rd_data (fst (read_file_to_buf os
        (cs_push ''/depends'' (cs_from_bytes (cs_bytes d))) DEP_FILE_BUF w));
      s' = fst (add_deps os d SERVICE_EMPTY w)
    in if file = [] then s' = SERVICE_EMPTY
       else map dep_view (take (deps_count s') (deps s')) = take MAX_DEPENDENCIES (dep_specs file))"
  by (intro allI depends_file_parsed svc_wf_EMPTY)

text \<open>C17. A scan never gives one directory two entries: when the directories of the active entries
  are pairwise distinct before it, they are after it, and handling the services that are gone
  keeps them so.\<close>

theorem scan_no_duplicates:
  assumes "sys_ok services w" "dirs_distinct services"
    "scan_services os root services w = (r, ss, w')"
  shows "dirs_distinct ss \<and> dirs_distinct (fst (handle_missing_services os ss w'))"
  using scan_services_distinct [OF assms] scan_services_ok [OF assms(1,3)]
    handle_missing_distinct [of ss w' os] by (metis prod.collapse)

text \<open>C18. A scan leaves the processes of a known service alone: name, directory, process ids, states,
  restart data, flags and dependencies stay. It is present afterwards only if the directory lists
  it, and then a stop that was under way is forgotten; otherwise it is marked absent.\<close>

theorem scan_keeps_processes:
  assumes "sys_ok services w" "i < length services" "active (services ! i)"
    "os_readdir os (trace w) (cs_cstr root) = Some names"
    "scan_services os root services w = (r, ss, w')"
  shows "same_process (services ! i) (ss ! i) \<and>
    (if present (ss ! i) then listed root names (dir_bytes (services ! i)) \<and> \<not> stopping (ss ! i)
     else stopping (ss ! i) = stopping (services ! i))"
proof -
  let ?w = "emit (EAsk (QReaddir (cs_cstr root))) w"
  have ok: "sys_ok services ?w" by (rule sys_ok_mono [OF assms(1)]) simp_all
  have fold: "fold (scan_entry os root) names (map absent services, ?w) = (ss, w')"
    using assms(4,5) by (simp add: scan_services_def)
  have s: "map absent services ! i = (services ! i)\<lparr>present := False\<rparr>"
    using assms(2,3) by (simp add: absent_def)
  from scan_fold_entries [OF sys_ok_absent [OF ok] fold, of i] assms(2,3)
  have "scanned root names ((services ! i)\<lparr>present := False\<rparr>) (ss ! i)" by (simp add: s absent_def)
  then show ?thesis by (auto simp: scanned_def same_process_def)
qed

text \<open>A new service takes the first free slot of the table, all other slots stay as they are,
  and a full table drops the service without a word.\<close>

lemma add_service_first_free:
  "add_service os nm d services w =
     (if list_all active services then (services, w)
      else (let i = length (takeWhile active services); (s, w') = fill_slot os nm d w
            in (services[i := s], w')))"
  by (rule add_service_slot)

text \<open>C19. After the services that are gone have been handled, an entry whose directory is gone
  either is a free slot, and then it had no process any more, or winds down: it still has a process,
  its main process has been told to stop and its state is \<open>stopping\<close>, and its logger has been told to
  stop too. Whatever was not marked as told before has been sent \<open>SIGTERM\<close> now, the main process
  with its group.\<close>

theorem missing_services_wind_down:
  assumes "sys_ok services w" "handle_missing_services os services w = (ss, w')"
  shows "\<exists>ks. kill_log w' = kill_log w @ ks \<and> (\<forall>i < length services.
      accounted ks (services ! i) (ss ! i) \<and> (gone (ss ! i) \<longrightarrow> winding_down (ss ! i)))"
proof -
  have "\<forall>k < length services. gone (ss ! k) \<longrightarrow> winding_down (ss ! k)"
    using missing_fold_winds_down [OF assms(1) order_refl] assms(2) by (simp add: handle_missing_services_def)
  moreover have "all_accounted services w ss w'"
    by (rule missing_fold_accounted [OF assms(1) _ assms(2) [unfolded handle_missing_services_def]]) simp
  ultimately show ?thesis by (auto simp: all_accounted_def)
qed

text \<open>The table at the start, and one with a running service.\<close>

definition table_start :: "service list" where
  "table_start = replicate MAX_SERVICES SERVICE_ZERO"

lemma zero_inactive [simp]: "\<not> active SERVICE_ZERO" "\<not> gone SERVICE_ZERO"
  by (simp_all add: gone_def SERVICE_ZERO_def SERVICE_EMPTY_def)

lemma table_start_ok: "sys_ok table_start world_start" "dirs_distinct table_start"
  using svc_ok_ZERO
  by (auto simp: sys_ok_def table_start_def kills_ok_def kill_log_def world_start_def
      dirs_distinct_def)

definition ex_down :: "service list" where
  "ex_down = ex_service ''db'' (-1) 0 # replicate 255 SERVICE_ZERO"

lemma ex_down_ok: "sys_ok ex_down world_start"
  using svc_ok_ZERO ex_service_down_ok
  by (auto simp: sys_ok_def ex_down_def kills_ok_def kill_log_def world_start_def)

definition os_lists :: "bytes list \<Rightarrow> os" where
  "os_lists names = os_idle\<lparr>os_readdir := \<lambda>_ _. Some names\<rparr>"

theorem scan_no_duplicates_witness:
  "\<forall>os root. dirs_distinct (fst (snd (scan_services os root table_start world_start)))"
proof (intro allI)
  fix os root
  show "dirs_distinct (fst (snd (scan_services os root table_start world_start)))"
    using scan_no_duplicates [OF table_start_ok, of os root] by (metis prod.collapse)
qed

theorem scan_keeps_processes_witness:
  "same_process (ex_down ! 0) (fst (snd (scan_services (os_lists []) (cs_from_bytes ''/etc/svc'')
     ex_down world_start)) ! 0)"
proof -
  obtain r ss w' where s: "scan_services (os_lists []) (cs_from_bytes ''/etc/svc'') ex_down world_start
      = (r, ss, w')" by (metis prod.collapse)
  have "active (ex_down ! 0)" "0 < length ex_down" by (simp_all add: ex_down_def)
  from scan_keeps_processes [OF ex_down_ok this(2,1) _ s, of "[]"]
  have "same_process (ex_down ! 0) (ss ! 0)" by (simp add: os_lists_def)
  then show ?thesis by (simp add: s)
qed

text \<open>A table whose only service runs as process 7 and has lost its directory.\<close>

definition world_forked :: "int \<Rightarrow> world" where
  "world_forked p = world_start\<lparr>trace := [EFork p []]\<rparr>"

definition ex_gone :: "service list" where
  "ex_gone = (ex_service ''db'' 7 1)\<lparr>present := False\<rparr> # replicate 255 SERVICE_ZERO"

lemma ex_running_ok: "p > 0 \<Longrightarrow> in_i32 p \<Longrightarrow> svc_ok (world_forked p) (ex_service nm p STATE_RUNNING)"
  using ex_service_wf [of p nm 1]
  by (simp add: svc_ok_def svc_inv_def tracked_def forked_def world_forked_def valid_state_def)

lemma ex_gone_ok: "sys_ok ex_gone (world_forked 7)"
  using svc_ok_ZERO svc_ok_present(2) [OF ex_running_ok [of 7 "''db''"]]
  by (auto simp: sys_ok_def ex_gone_def kills_ok_def kill_log_def world_forked_def world_start_def
      in_i32_def)

theorem missing_services_wind_down_witness:
  "\<forall>os. (- 7, SIGTERM) \<in> set (kill_log (snd (handle_missing_services os ex_gone (world_forked 7))))"
proof (intro allI)
  fix os
  obtain ss w' where r: "handle_missing_services os ex_gone (world_forked 7) = (ss, w')"
    by (cases "handle_missing_services os ex_gone (world_forked 7)")
  have e: "active (ex_gone ! 0)" "\<not> present (ex_gone ! 0)" "pid (ex_gone ! 0) = 7" "\<not> stopping (ex_gone ! 0)"
    "0 < length ex_gone" by (simp_all add: ex_gone_def)
  obtain ks where k: "kill_log w' = kill_log (world_forked 7) @ ks" "accounted ks (ex_gone ! 0) (ss ! 0)"
    "gone (ss ! 0) \<longrightarrow> winding_down (ss ! 0)"
    using missing_services_wind_down [OF ex_gone_ok r] e(5) by blast
  then have "gone (ss ! 0)" "pid (ss ! 0) = 7" using e by (auto simp: accounted_def gone_def)
  then have "stopping (ss ! 0)" using k(3) by (auto simp: winding_down_def)
  then show "(- 7, SIGTERM) \<in> set (kill_log (snd (handle_missing_services os ex_gone (world_forked 7))))"
    using k(1,2) e by (auto simp: accounted_def r)
qed

end
