(* ===== verification/Ctrl.thy ===== *)
theory Ctrl
  imports Scan
begin

text \<open>
  \<open>src/ctrl.rs\<close>: the control socket and its commands. A command that works on one service is a
  step on its entry (\<open>start_entry\<close>, \<open>stop_entry\<close>, ..), run by the frame the code repeats for
  every such command (\<open>on_service\<close>): the usage error for an empty argument, the search by name,
  the error for an unknown service. The steps are interpretations of \<open>service_step\<close>.
\<close>

section \<open>The socket\<close>

text \<open>What \<open>bind\<close> reads as \<open>sun_path\<close>: the path without its end if it does not fit, and a NUL. The
  address is two bytes longer than \<open>sun_path\<close>, the array whose size is \<open>os_sun_path\<close>.\<close>

definition sun_max_len :: "os \<Rightarrow> nat" where
  "sun_max_len os = os_sun_path os - 1"

definition sun_copy_len :: "os \<Rightarrow> bytes \<Rightarrow> nat" where
  "sun_copy_len os path = min (length path) (sun_max_len os)"

definition sun_addr_len :: "os \<Rightarrow> bytes \<Rightarrow> nat" where
  "sun_addr_len os path = (2 + os_sun_path os) - sun_max_len os + sun_copy_len os path + 1"

definition sun_path :: "os \<Rightarrow> bytes \<Rightarrow> bytes" where
  "sun_path os path = take (sun_copy_len os path) path @ [NUL]"

definition setup_call :: "setup_call \<Rightarrow> world \<Rightarrow> world" where
  "setup_call c w = emit (ESetup c) w"

definition create_control_socket :: "os \<Rightarrow> cstrbuf \<Rightarrow> world \<Rightarrow> int \<times> world" where
  "create_control_socket os root w =
     (let sock_path = cs_push SOCK_SUFFIX (cs_from_bytes (cs_bytes root));
          w = emit (EUnlink (cs_cstr sock_path)) w;
          old_umask = os_umask os (trace w);
          w = setup_call (SUmask 63) w;
          fd = os_socket os (trace w);
          w = setup_call (SSocket fd) w
      in if fd < 0 then (-1, setup_call (SUmask old_umask) w)
         else let path_bytes = cs_bytes sock_path;
                  r = os_bind os (trace w) fd;
                  w = setup_call (SBind fd (sun_path os path_bytes) (sun_addr_len os path_bytes) r) w
              in if r < 0 then (-1, setup_call (SUmask old_umask) (close_fd os fd w))
                 else let w = setup_call (SUmask old_umask) w;
                          w = setup_call (SChmod (cs_cstr sock_path) 432) w;
                          r = os_listen os (trace w) fd;
                          w = setup_call (SListen fd r) w
                      in if r < 0 then (-1, close_fd os fd w)
                         else (fd, snd (set_nonblock os fd w)))"

section \<open>Parsing a command\<close>

definition is_sep :: "char \<Rightarrow> bool" where
  "is_sep c \<longleftrightarrow> c = CHR '' '' \<or> c = LF \<or> c = CR"

definition split_cmd :: "bytes \<Rightarrow> bytes \<times> bytes" where
  "split_cmd line =
     (let i = scan_fwd (\<lambda>c. \<not> is_sep c) line 0 (length line);
          cmd = slice line 0 i;
          rs = scan_fwd is_sep line i (length line);
          re = scan_bwd is_sep line rs (length line)
      in (cmd, slice line rs re))"

definition signal_from_name :: "bytes \<Rightarrow> int" where
  "signal_from_name nm =
     (if bytes_eq nm ''hup'' then SIGHUP
      else if bytes_eq nm ''int'' then SIGINT
      else if bytes_eq nm ''term'' then SIGTERM
      else if bytes_eq nm ''kill'' then SIGKILL
      else if bytes_eq nm ''usr1'' then SIGUSR1
      else if bytes_eq nm ''usr2'' then SIGUSR2
      else if bytes_eq nm ''quit'' then SIGQUIT
      else if bytes_eq nm ''alrm'' then SIGALRM
      else if bytes_eq nm ''cont'' then SIGCONT
      else 0)"

text \<open>The number of \<open>signal <name> <signum>\<close>: digits up to the first other byte, from 1 to
  \<open>SIGRTMAX()\<close>.\<close>

definition parse_signum :: "os \<Rightarrow> bytes \<Rightarrow> int option" where
  "parse_signum os part =
     (let (n, valid) = sat_loop u64_max 0 False part
      in if valid \<and> n > 0 \<and> n \<le> os_sigrtmax os then Some (wrap_i32 (int n)) else None)"

section \<open>Answers\<close>

definition respond :: "os \<Rightarrow> int \<Rightarrow> bytes \<Rightarrow> world \<Rightarrow> world" where
  "respond os fd resp w = snd (write_all os fd resp w)"

text \<open>Both signal commands end in the same block: find the service, see that it runs, signal its group.
  The code has it twice, and so has the model; \<open>send_signum_eq\<close> shows that the copies agree.\<close>

definition send_signal :: "os \<Rightarrow> int \<Rightarrow> bytes \<Rightarrow> int \<Rightarrow> service list \<Rightarrow> world \<Rightarrow> world" where
  "send_signal os client_fd svc_name sig services w =
     (let idx = find_service_by_name services svc_name
      in if idx = usize_max then respond os client_fd (format_error (''service not found'' @ [LF])) w
         else if pid (services ! idx) \<le> 0
              then respond os client_fd (format_error (''service not running'' @ [LF])) w
              else let w = sys_kill (- pid (services ! idx)) sig w
                   in respond os client_fd (format_ok (''signal sent'' @ [LF])) w)"

definition handle_signal_command :: "os \<Rightarrow> int \<Rightarrow> bytes \<Rightarrow> bytes \<Rightarrow> service list \<Rightarrow> world \<Rightarrow> world" where
  "handle_signal_command os client_fd sig_name arg services w =
     (let sig = signal_from_name sig_name
      in if sig = 0 then respond os client_fd (format_error (''unknown signal'' @ [LF])) w
         else if arg = [] then respond os client_fd (format_error (''usage: <signal> <name>'' @ [LF])) w
         else send_signal os client_fd arg sig services w)"

definition send_signum :: "os \<Rightarrow> int \<Rightarrow> bytes \<Rightarrow> int \<Rightarrow> service list \<Rightarrow> world \<Rightarrow> world" where
  "send_signum os client_fd svc_name signum services w =
     (let idx = find_service_by_name services svc_name
      in if idx = usize_max then respond os client_fd (format_error (''service not found'' @ [LF])) w
         else if pid (services ! idx) \<le> 0
              then respond os client_fd (format_error (''service not running'' @ [LF])) w
              else let w = sys_kill (- pid (services ! idx)) signum w
                   in respond os client_fd (format_ok (''signal sent'' @ [LF])) w)"

definition signal_command :: "os \<Rightarrow> int \<Rightarrow> bytes \<Rightarrow> service list \<Rightarrow> world \<Rightarrow> world" where
  "signal_command os client_fd arg services w =
     (let usage = format_error (''usage: signal <name> <signum>'' @ [LF])
      in if arg = [] then respond os client_fd usage w
         else let (svc_name, sig_num_part) = split_cmd arg
              in if svc_name = [] \<or> sig_num_part = [] then respond os client_fd usage w
                 else case parse_signum os sig_num_part of
                        None \<Rightarrow> respond os client_fd (format_error (''invalid signal number'' @ [LF])) w
                      | Some signum \<Rightarrow> send_signum os client_fd svc_name signum services w)"

section \<open>Commands on one service\<close>

text \<open>A command answers with bytes, the new table and the new world.\<close>

type_synonym result = "bytes \<times> service list \<times> world"

definition on_service :: "bytes \<Rightarrow> bytes \<Rightarrow> service list \<Rightarrow> world \<Rightarrow> (nat \<Rightarrow> result) \<Rightarrow> result" where
  "on_service usage arg services w body =
     (if arg = [] then (format_error (usage @ [LF]), services, w)
      else let idx = find_service_by_name services arg
           in if idx = usize_max then (format_error (''service not found'' @ [LF]), services, w)
              else body idx)"

definition update_entry :: "bytes \<Rightarrow> (service \<Rightarrow> world \<Rightarrow> service \<times> world) \<Rightarrow> service list \<Rightarrow> world \<Rightarrow>
    nat \<Rightarrow> result" where
  "update_entry msg step services w idx =
     (let (s, w) = step (services ! idx) w
      in (format_ok (msg @ [LF]), services[idx := s], w))"

definition cmd_list :: "os \<Rightarrow> service list \<Rightarrow> world \<Rightarrow> result" where
  "cmd_list os services w =
     (let p = cs_new;
          (now, w) = mono_now os w;
          p = fold (\<lambda>s p. if active s then cs_push (format_service_status s now) p else p) services p;
          out = cs_bytes p
      in (take (min (length out) RESP_BUF) out, services, w))"

definition cmd_status :: "os \<Rightarrow> bytes \<Rightarrow> service list \<Rightarrow> world \<Rightarrow> result" where
  "cmd_status os arg services w = on_service ''usage: status <name>'' arg services w
     (\<lambda>idx. let (now, w) = mono_now os w
            in (format_service_status (services ! idx) now, services, w))"

definition start_entry :: "os \<Rightarrow> service \<Rightarrow> world \<Rightarrow> service \<times> world" where
  "start_entry os s w =
     (let s = s\<lparr>manual_start := True\<rparr>;
          s = s\<lparr>restart_at := 0\<rparr>
      in (s\<lparr>stopping := False\<rparr>, w))"

definition cmd_start :: "os \<Rightarrow> bytes \<Rightarrow> service list \<Rightarrow> world \<Rightarrow> result" where
  "cmd_start os arg services w = on_service ''usage: start <name>'' arg services w
     (update_entry ''starting'' (start_entry os) services w)"

text \<open>\<open>SIGTERM\<close> to the main process and to the logger.\<close>

definition signal_main :: "service \<Rightarrow> world \<Rightarrow> world" where
  "signal_main s w = (if pid s > 0 then sys_kill (- pid s) SIGTERM w else w)"

definition signal_log :: "service \<Rightarrow> world \<Rightarrow> service \<times> world" where
  "signal_log s w =
     (if log_pid s > 0
      then let w = sys_kill (log_pid s) SIGTERM w in (s\<lparr>log_stopping := True\<rparr>, w)
      else (s, w))"

definition stop_entry :: "os \<Rightarrow> service \<Rightarrow> world \<Rightarrow> service \<times> world" where
  "stop_entry os s w =
     (let s = s\<lparr>stopping := True\<rparr>;
          s = s\<lparr>state := STATE_STOPPING\<rparr>;
          w = signal_main s w;
          (s, w) = signal_log s w
      in (s, write_status_file os s w))"

definition cmd_stop :: "os \<Rightarrow> bytes \<Rightarrow> service list \<Rightarrow> world \<Rightarrow> result" where
  "cmd_stop os arg services w = on_service ''usage: stop <name>'' arg services w
     (\<lambda>idx. let (services, w) = stop_transitive_deps os services w
            in update_entry ''stopping'' (stop_entry os) services w idx)"

definition restart_entry :: "os \<Rightarrow> service \<Rightarrow> world \<Rightarrow> service \<times> world" where
  "restart_entry os s w =
     (let s = s\<lparr>stopping := True\<rparr>;
          s = s\<lparr>state := STATE_STOPPING\<rparr>;
          s = s\<lparr>manual_start := True\<rparr>;
          w = signal_main s w;
          (s, w) = signal_log s w
      in (s, write_status_file os s w))"

definition cmd_restart :: "os \<Rightarrow> bytes \<Rightarrow> service list \<Rightarrow> world \<Rightarrow> result" where
  "cmd_restart os arg services w = on_service ''usage: restart <name>'' arg services w
     (update_entry ''restarting'' (restart_entry os) services w)"

text \<open>Creating a marker file: opened for writing and closed.\<close>

definition touch_file :: "os \<Rightarrow> cstrbuf \<Rightarrow> world \<Rightarrow> world" where
  "touch_file os p w =
     (let (fd, w) = sys_open os (cs_cstr p) O_WR_CREAT_TRUNC w
      in if fd \<ge> 0 then libc_close fd w else w)"

definition down_entry :: "os \<Rightarrow> service \<Rightarrow> world \<Rightarrow> service \<times> world" where
  "down_entry os s w =
     (let s = s\<lparr>auto_start := False\<rparr>;
          w = touch_file os (svc_path s ''/down'') w;
          (s, w) =
            (if pid s > 0
             then let s = s\<lparr>stopping := True\<rparr>;
                      s = s\<lparr>state := STATE_STOPPING\<rparr>;
                      w = signal_main s w
                  in signal_log s w
             else (s, w))
      in (s, write_status_file os s w))"

definition cmd_down :: "os \<Rightarrow> bytes \<Rightarrow> service list \<Rightarrow> world \<Rightarrow> result" where
  "cmd_down os arg services w = on_service ''usage: down <name>'' arg services w
     (update_entry ''set down and stopping'' (down_entry os) services w)"

definition up_entry :: "os \<Rightarrow> service \<Rightarrow> world \<Rightarrow> service \<times> world" where
  "up_entry os s w =
     (let s = s\<lparr>auto_start := True\<rparr>;
          w = emit (EUnlink (cs_cstr (svc_path s ''/down''))) w;
          (t, w) = mono_now os w;
          s = s\<lparr>restart_at := t\<rparr>;
          s = s\<lparr>stopping := False\<rparr>
      in (s, write_status_file os s w))"

definition cmd_up :: "os \<Rightarrow> bytes \<Rightarrow> service list \<Rightarrow> world \<Rightarrow> result" where
  "cmd_up os arg services w = on_service ''usage: up <name>'' arg services w
     (update_entry ''set up'' (up_entry os) services w)"

definition once_entry :: "os \<Rightarrow> service \<Rightarrow> world \<Rightarrow> service \<times> world" where
  "once_entry os s w =
     (let s = s\<lparr>once := True\<rparr>;
          w = touch_file os (svc_path s ''/once'') w
      in (s, write_status_file os s w))"

definition cmd_once :: "os \<Rightarrow> bytes \<Rightarrow> service list \<Rightarrow> world \<Rightarrow> result" where
  "cmd_once os arg services w = on_service ''usage: once <name>'' arg services w
     (update_entry ''once flag set'' (once_entry os) services w)"

section \<open>The \<open>check\<close> command\<close>

definition check_child :: "os \<Rightarrow> service \<Rightarrow> world \<Rightarrow> world" where
  "check_child os s w =
     (let w = apply_security_restrictions os s w;
          (go, w) = child_enter os s w
      in if \<not> go then w
         else let (go, w) = child_drop os s w
              in if \<not> go then w
                 else let path = (if chroot_enabled s then ''/check''
                                  else cs_cstr (svc_path s ''/check''))
                      in child_exec os s path [path] 126 w)"

text \<open>The answer for a wait status. The line fits in the response buffer.\<close>

definition check_answer :: "int \<Rightarrow> bytes" where
  "check_answer status =
     (if status AND 0x7f = 0
      then let resp = format_ok ''check exited with '';
               extra = cs_bytes (cs_push [LF] (cs_push_i64 (drop_bit 8 status AND 0xff) cs_new))
           in if length resp + length extra < RESP_BUF then resp @ extra else resp
      else if status AND 0x7f = 0x7f then format_error (''check stopped'' @ [LF])
      else format_error (''check killed by signal'' @ [LF]))"

text \<open>The parent waits for the script. \<open>status\<close> stays 0 when \<open>waitpid\<close> fails.\<close>

definition check_wait :: "os \<Rightarrow> int \<Rightarrow> world \<Rightarrow> int \<times> world" where
  "check_wait os p w =
     (let ((r, status), w) = sys_waitpid os p w in (if r < 0 then 0 else status, w))"

definition run_check :: "os \<Rightarrow> service \<Rightarrow> world \<Rightarrow> bytes \<times> world" where
  "run_check os s w =
     (let check_path = svc_path s ''/check'';
          (s_clone, w) = prepare_service_env os s w;
          (r, w) = sys_access os (cs_cstr check_path) X_OK w
      in if r = 0
         then let (p, w) = sys_fork os (check_child os s_clone) w
              in if p > 0
                 then let (status, w) = check_wait os p w in (check_answer status, w)
                 else (format_error (''fork failed'' @ [LF]), w)
         else (format_error (''no check script'' @ [LF]), w))"

definition cmd_check :: "os \<Rightarrow> bytes \<Rightarrow> service list \<Rightarrow> world \<Rightarrow> result" where
  "cmd_check os arg services w = on_service ''usage: check <name>'' arg services w
     (\<lambda>idx. let (resp, w) = run_check os (services ! idx) w in (resp, services, w))"

section \<open>The dispatcher\<close>

definition cmd_reload :: "os \<Rightarrow> service list \<Rightarrow> world \<Rightarrow> result" where
  "cmd_reload os services w =
     (let w = supervisor_log os ''reload requested via control socket'' w;
          p = os_getpid os (trace w);
          w = emit (EAsk (QGetpid p)) w;
          w = sys_kill p SIGHUP w
      in (format_ok (''reload scheduled'' @ [LF]), services, w))"

definition unknown_command :: bytes where
  "unknown_command = ''unknown command. use: list|stat|status|start|stop|restart|down|up|once'' @
     ''|check|reload|signal|hup|term|kill|usr1|usr2|int|quit|alrm|cont'' @ [LF]"

definition answer :: "os \<Rightarrow> int \<Rightarrow> result \<Rightarrow> service list \<times> world" where
  "answer os client_fd res = (case res of (resp, services, w) \<Rightarrow> (services, respond os client_fd resp w))"

definition handle_control_command :: "os \<Rightarrow> int \<Rightarrow> bytes \<Rightarrow> service list \<Rightarrow> world \<Rightarrow> service list \<times> world" where
  "handle_control_command os client_fd cmd_line services w =
     (let (cmd, arg) = split_cmd cmd_line
      in if bytes_eq cmd ''list'' \<or> bytes_eq cmd ''stat'' then answer os client_fd (cmd_list os services w)
         else if bytes_eq cmd ''status'' then answer os client_fd (cmd_status os arg services w)
         else if bytes_eq cmd ''start'' then answer os client_fd (cmd_start os arg services w)
         else if bytes_eq cmd ''stop'' then answer os client_fd (cmd_stop os arg services w)
         else if bytes_eq cmd ''restart'' then answer os client_fd (cmd_restart os arg services w)
         else if bytes_eq cmd ''down'' then answer os client_fd (cmd_down os arg services w)
         else if bytes_eq cmd ''up'' then answer os client_fd (cmd_up os arg services w)
         else if bytes_eq cmd ''once'' then answer os client_fd (cmd_once os arg services w)
         else if bytes_eq cmd ''check'' then answer os client_fd (cmd_check os arg services w)
         else if bytes_eq cmd ''reload'' then answer os client_fd (cmd_reload os services w)
         else if signal_from_name cmd \<noteq> 0
              then (services, handle_signal_command os client_fd cmd arg services w)
         else if bytes_eq cmd ''signal'' then (services, signal_command os client_fd arg services w)
         else answer os client_fd (format_error unknown_command, services, w))"

section \<open>The steps keep the invariant\<close>

lemma respond_frame [simp]:
  "extends u w \<Longrightarrow> extends u (respond os fd b w)" "kill_log (respond os fd b w) = kill_log w"
  by (simp_all add: respond_def)

lemma touch_file_frame [simp]:
  "extends u w \<Longrightarrow> extends u (touch_file os p w)" "kill_log (touch_file os p w) = kill_log w"
  by (simp_all add: touch_file_def Let_def split_def)

text \<open>Told to stop, with or without a process.\<close>

lemma svc_ok_told: "svc_ok w s \<Longrightarrow> svc_ok w (s\<lparr>stopping := True, state := STATE_STOPPING\<rparr>)"
  by (auto simp: svc_ok_def svc_inv_def tracked_def valid_state_def)

lemma signal_main_ok:
  assumes "svc_ok w s" "pid t = pid s" "kills_ok w"
  shows "kills_ok (signal_main t w)"
  using kill_main_kills [of w s SIGTERM] assms by (simp add: signal_main_def)

lemma signal_main_frame [simp]: "extends u w \<Longrightarrow> extends u (signal_main s w)"
  by (simp add: signal_main_def sys_kill_def)

lemma signal_log_ok:
  "svc_ok w s \<Longrightarrow> svc_ok (snd (signal_log s w)) (fst (signal_log s w))"
  "svc_ok w s \<Longrightarrow> kills_ok w \<Longrightarrow> kills_ok (snd (signal_log s w))"
  by (auto simp: signal_log_def intro!: svc_ok_intros)

lemma signal_log_frame [simp]:
  "extends u w \<Longrightarrow> extends u (snd (signal_log s w))" "active (fst (signal_log s w)) = active s"
  "name_bytes (fst (signal_log s w)) = name_bytes s" "dir_bytes (fst (signal_log s w)) = dir_bytes s"
  by (simp_all add: signal_log_def sys_kill_def)

text \<open>Stop, restart and down share this step: mark, signal both processes, write the status.\<close>

definition told :: "os \<Rightarrow> (service \<Rightarrow> service) \<Rightarrow> service \<Rightarrow> world \<Rightarrow> service \<times> world" where
  "told os f s w = (let (s, w) = signal_log (f s) (signal_main (f s) w) in (s, write_status_file os s w))"

text \<open>An update of a record that keeps the invariant and what the searches see.\<close>

definition keeps :: "(service \<Rightarrow> service) \<Rightarrow> bool" where
  "keeps f \<longleftrightarrow> (\<forall>s. pid (f s) = pid s \<and> active (f s) = active s \<and> name_bytes (f s) = name_bytes s \<and>
     dir_bytes (f s) = dir_bytes s) \<and> (\<forall>s w. svc_ok w s \<longrightarrow> svc_ok w (f s))"

lemma told_step: "keeps f \<Longrightarrow> service_step (\<lambda>os. told os f)"
proof unfold_locales
  fix os s and w :: world
  assume f: "keeps f" and ok: "svc_ok w s"
  have ok': "svc_ok (signal_main (f s) w) (f s)"
    by (rule svc_ok_mono [of w]) (use f ok in \<open>simp_all add: keeps_def\<close>)
  show "svc_ok (snd (told os f s w)) (fst (told os f s w))"
    by (simp add: told_def Let_def split_def svc_ok_intros signal_log_ok(1) [OF ok'])
  show "kills_ok (snd (told os f s w))" if "kills_ok w"
  proof -
    have "kills_ok (signal_main (f s) w)" using f by (intro signal_main_ok [OF ok _ that]) (simp add: keeps_def)
    from signal_log_ok(2) [OF ok' this] show ?thesis by (simp add: told_def Let_def split_def kills_ok_status)
  qed
  show "extends w (snd (told os f s w))" by (simp add: told_def Let_def split_def)
qed (auto simp: told_def Let_def split_def keeps_def)

lemma keeps_told: "keeps mark_stopping" "keeps (\<lambda>s. (mark_stopping s)\<lparr>manual_start := True\<rparr>)"
proof -
  have "svc_ok w ((mark_stopping s)\<lparr>manual_start := True\<rparr>)" if "svc_ok w s" for w s
    using that by (auto simp: mark_stopping_def svc_ok_def svc_inv_def tracked_def valid_state_def)
  then show "keeps mark_stopping" "keeps (\<lambda>s. (mark_stopping s)\<lparr>manual_start := True\<rparr>)"
    using svc_ok_told by (simp_all add: keeps_def mark_stopping_def)
qed

lemma stop_entry_eq: "stop_entry = (\<lambda>os. told os mark_stopping)"
  by (intro ext) (simp add: stop_entry_def told_def mark_stopping_def Let_def)

lemma restart_entry_eq: "restart_entry = (\<lambda>os. told os (\<lambda>s. (mark_stopping s)\<lparr>manual_start := True\<rparr>))"
  by (intro ext) (simp add: restart_entry_def told_def mark_stopping_def Let_def)

interpretation stopping: service_step stop_entry
  unfolding stop_entry_eq by (rule told_step [OF keeps_told(1)])

interpretation restarting: service_step restart_entry
  unfolding restart_entry_eq by (rule told_step [OF keeps_told(2)])

interpretation starting: service_step start_entry
proof unfold_locales
  fix os s and w :: world
  assume ok: "svc_ok w s"
  have "svc_wf (s\<lparr>manual_start := True, restart_at := 0, stopping := False\<rparr>)"
    using svc_ok_wf [OF ok] by (simp add: in_i64_def)
  then show "svc_ok (snd (start_entry os s w)) (fst (start_entry os s w))"
    unfolding start_entry_def Let_def by (simp add: svc_ok_fields [OF ok])
qed (simp_all add: start_entry_def Let_def)

interpretation once_set: service_step once_entry
proof unfold_locales
  fix os s and w :: world
  assume ok: "svc_ok w s"
  let ?w = "touch_file os (svc_path (s\<lparr>once := True\<rparr>) ''/once'') w"
  have "svc_ok ?w s" by (rule svc_ok_mono [OF _ ok]) simp
  then have "svc_ok ?w (s\<lparr>once := True\<rparr>)" by (rule svc_ok_fields) (use svc_ok_wf [OF ok] in auto)
  then show "svc_ok (snd (once_entry os s w)) (fst (once_entry os s w))"
    by (simp add: once_entry_def Let_def svc_ok_intros)
  show "kills_ok w \<Longrightarrow> kills_ok (snd (once_entry os s w))"
    by (rule kills_ok_silent) (simp_all add: once_entry_def Let_def)
qed (simp_all add: once_entry_def Let_def)

interpretation up_set: service_step up_entry
proof unfold_locales
  fix os s and w :: world
  assume ok: "svc_ok w s"
  let ?m = "mono_now os (emit (EUnlink (cs_cstr (svc_path (s\<lparr>auto_start := True\<rparr>) ''/down''))) w)"
  have "svc_ok (snd ?m) s" by (rule svc_ok_mono [OF _ ok]) simp
  moreover have "svc_wf (s\<lparr>auto_start := True, restart_at := fst ?m, stopping := False\<rparr>)"
    using svc_ok_wf [OF ok] mono_now_in by simp
  ultimately have "svc_ok (snd ?m) (s\<lparr>auto_start := True, restart_at := fst ?m, stopping := False\<rparr>)"
    by (rule svc_ok_fields) simp_all
  then show "svc_ok (snd (up_entry os s w)) (fst (up_entry os s w))"
    by (simp add: up_entry_def Let_def split_def svc_ok_intros)
  show "kills_ok w \<Longrightarrow> kills_ok (snd (up_entry os s w))"
    by (rule kills_ok_silent) (simp_all add: up_entry_def Let_def split_def)
qed (simp_all add: up_entry_def Let_def split_def)

text \<open>\<open>down\<close> writes its marker first and stops the service only if it runs.\<close>

lemma down_entry_eq: "down_entry os s w =
  (let s = s\<lparr>auto_start := False\<rparr>; w = touch_file os (svc_path s ''/down'') w
   in if pid s > 0 then stop_entry os s w else (s, write_status_file os s w))"
  by (simp add: down_entry_def stop_entry_def Let_def split_def)

interpretation down_set: service_step down_entry
proof unfold_locales
  fix os s and w :: world
  assume ok: "svc_ok w s"
  let ?s = "s\<lparr>auto_start := False\<rparr>"
  let ?w = "touch_file os (svc_path ?s ''/down'') w"
  have "svc_ok ?w s" by (rule svc_ok_mono [OF _ ok]) simp
  then have ok': "svc_ok ?w ?s" by (rule svc_ok_fields) (use svc_ok_wf [OF ok] in auto)
  show "svc_ok (snd (down_entry os s w)) (fst (down_entry os s w))"
    using stopping.step_ok [OF ok'] ok' by (simp add: down_entry_eq Let_def svc_ok_intros)
  show "kills_ok (snd (down_entry os s w))" if "kills_ok w"
  proof -
    have "kills_ok ?w" by (rule kills_ok_silent [OF that]) simp_all
    then show ?thesis using stopping.step_kills [OF ok'] by (simp add: down_entry_eq Let_def svc_ok_intros)
  qed
  show "extends w (snd (down_entry os s w))"
    using stopping.step_extends [OF ok', of os] extends_trans [of w ?w]
    by (simp add: down_entry_eq Let_def)
qed (simp_all add: down_entry_def Let_def split_def)

section \<open>Commands keep the invariant\<close>

text \<open>What every command leaves behind: the invariant, and the same identities in the table.\<close>

definition table_ok :: "service list \<Rightarrow> service list \<times> world \<Rightarrow> bool" where
  "table_ok services res \<longleftrightarrow> sys_ok (fst res) (snd res) \<and> ids (fst res) = ids services"

lemma table_ok_same: "sys_ok services w \<Longrightarrow> extends w w' \<Longrightarrow> kill_log w' = kill_log w \<Longrightarrow>
  table_ok services (services, w')"
  using sys_ok_mono by (simp add: table_ok_def)

lemma on_service_ok:
  assumes "sys_ok services w"
    "\<And>idx. idx = find_service_by_name services arg \<Longrightarrow> idx < length services \<Longrightarrow>
       table_ok services (snd (body idx))"
  shows "table_ok services (snd (on_service usage arg services w body))"
proof -
  have "length services < usize_max" using assms(1) by (simp add: sys_ok_def)
  from by_name.found [OF this, of arg] show ?thesis
    using assms table_ok_same [OF assms(1)] by (auto simp: on_service_def Let_def)
qed

context service_step
begin

lemma update_entry_ok: "sys_ok services w \<Longrightarrow> idx < length services \<Longrightarrow>
  table_ok services (snd (update_entry msg (step os) services w idx))"
  using at_ok at_ids by (simp add: table_ok_def update_entry_def split_def Let_def)

end

lemma check_wait_frame [simp]:
  "extends u w \<Longrightarrow> extends u (snd (check_wait os p w))" "kill_log (snd (check_wait os p w)) = kill_log w"
  by (simp_all add: check_wait_def Let_def split_def sys_waitpid_def)

lemma run_check_frame: "extends w (snd (run_check os s w)) \<and> kill_log (snd (run_check os s w)) = kill_log w"
  by (simp add: run_check_def Let_def split_def)

lemma cmd_stop_ok: "sys_ok services w \<Longrightarrow> table_ok services (snd (cmd_stop os arg services w))"
  unfolding cmd_stop_def
proof (rule on_service_ok, assumption)
  fix idx assume ok: "sys_ok services w" and idx: "idx < length services"
  let ?t = "stop_transitive_deps os services w"
  have t: "sys_ok (fst ?t) (snd ?t)" "ids (fst ?t) = ids services"
    using stop_transitive_ok [OF ok] stop_transitive_ids [OF ok] by auto
  from ids_length [OF t(2)] idx have "idx < length (fst ?t)" by simp
  from stopping.update_entry_ok [OF t(1) this, of "''stopping''" os] t(2)
  show "table_ok services (snd (let (services, w) = ?t in update_entry ''stopping'' (stop_entry os) services w idx))"
    by (simp add: table_ok_def split_def Let_def)
qed

lemma cmd_ok:
  assumes ok: "sys_ok services w"
  shows "table_ok services (snd (cmd_list os services w))"
    "table_ok services (snd (cmd_status os arg services w))"
    "table_ok services (snd (cmd_start os arg services w))"
    "table_ok services (snd (cmd_restart os arg services w))"
    "table_ok services (snd (cmd_down os arg services w))"
    "table_ok services (snd (cmd_up os arg services w))"
    "table_ok services (snd (cmd_once os arg services w))"
    "table_ok services (snd (cmd_check os arg services w))"
    "table_ok services (snd (cmd_reload os services w))"
proof -
  show "table_ok services (snd (cmd_list os services w))"
    by (simp add: cmd_list_def Let_def split_def table_ok_same [OF ok])
  show "table_ok services (snd (cmd_status os arg services w))"
    unfolding cmd_status_def by (rule on_service_ok [OF ok]) (simp add: split_def Let_def table_ok_same [OF ok])
  show "table_ok services (snd (cmd_start os arg services w))"
    unfolding cmd_start_def by (rule on_service_ok [OF ok]) (simp add: starting.update_entry_ok [OF ok])
  show "table_ok services (snd (cmd_restart os arg services w))"
    unfolding cmd_restart_def by (rule on_service_ok [OF ok]) (simp add: restarting.update_entry_ok [OF ok])
  show "table_ok services (snd (cmd_down os arg services w))"
    unfolding cmd_down_def by (rule on_service_ok [OF ok]) (simp add: down_set.update_entry_ok [OF ok])
  show "table_ok services (snd (cmd_up os arg services w))"
    unfolding cmd_up_def by (rule on_service_ok [OF ok]) (simp add: up_set.update_entry_ok [OF ok])
  show "table_ok services (snd (cmd_once os arg services w))"
    unfolding cmd_once_def by (rule on_service_ok [OF ok]) (simp add: once_set.update_entry_ok [OF ok])
  show "table_ok services (snd (cmd_check os arg services w))"
    unfolding cmd_check_def
    by (rule on_service_ok [OF ok]) (simp add: split_def Let_def run_check_frame table_ok_same [OF ok])
  let ?w = "supervisor_log os ''reload requested via control socket'' w"
  let ?p = "os_getpid os (trace ?w)"
  let ?v = "emit (EAsk (QGetpid ?p)) ?w"
  have v: "sys_ok services ?v" by (rule sys_ok_mono [OF ok]) simp_all
  have "own_target ?v ?p" by (simp add: own_target_def self_pids_def)
  then have "kills_ok (sys_kill ?p SIGHUP ?v)" using v kills_ok_kill by (simp add: sys_ok_def)
  then have "sys_ok services (sys_kill ?p SIGHUP ?v)" using v svc_ok_status(2) by (simp add: sys_ok_def)
  then show "table_ok services (snd (cmd_reload os services w))"
    by (simp add: cmd_reload_def Let_def table_ok_def)
qed

lemma send_signal_ok:
  assumes ok: "sys_ok services w"
  shows "sys_ok services (send_signal os fd nm sig services w)"
proof -
  let ?i = "find_service_by_name services nm"
  have len: "length services < usize_max" using ok by (simp add: sys_ok_def)
  have "sys_ok services (sys_kill (- pid (services ! ?i)) sig w)"
    if "?i \<noteq> usize_max" "pid (services ! ?i) > 0"
  proof -
    have "svc_ok w (services ! ?i)" using by_name.found [OF len that(1)] sys_ok_nth [OF ok] by blast
    from kill_main_kills [OF this that(2)] have "kills_ok (sys_kill (- pid (services ! ?i)) sig w)"
      using ok by (simp add: sys_ok_def)
    then show ?thesis using ok svc_ok_status(2) by (simp add: sys_ok_def)
  qed
  moreover have "sys_ok services (respond os fd b v)" if "sys_ok services v" for b v
    by (rule sys_ok_mono [OF that]) simp_all
  ultimately show ?thesis using ok by (simp add: send_signal_def Let_def)
qed

lemma send_signum_eq: "send_signum = send_signal"
  by (intro ext) (simp only: send_signum_def send_signal_def)

lemma signal_commands_ok:
  assumes "sys_ok services w"
  shows "sys_ok services (handle_signal_command os fd nm arg services w)"
    "sys_ok services (signal_command os fd arg services w)"
proof -
  have "sys_ok services (respond os fd b w)" for b by (rule sys_ok_mono [OF assms]) simp_all
  then show "sys_ok services (handle_signal_command os fd nm arg services w)"
    "sys_ok services (signal_command os fd arg services w)"
    using send_signal_ok [OF assms]
    by (simp_all add: handle_signal_command_def signal_command_def send_signum_eq Let_def split_def
        split: option.split)
qed

lemma answer_ok: "table_ok services (snd res) \<Longrightarrow> table_ok services (answer os fd res)"
  using sys_ok_mono by (auto simp: answer_def table_ok_def split_def)

lemma table_ok_if: "table_ok services a \<Longrightarrow> table_ok services b \<Longrightarrow> table_ok services (if c then a else b)"
  by simp

lemma table_ok_pair: "sys_ok services w \<Longrightarrow> table_ok services (services, w)"
  by (simp add: table_ok_def)

lemma handle_control_ok:
  assumes "sys_ok services w"
  shows "table_ok services (handle_control_command os fd line services w)"
proof -
  have "table_ok services (snd (format_error unknown_command, services, w))"
    using assms by (simp add: table_ok_pair)
  then show ?thesis
    unfolding handle_control_command_def split_def Let_def
    by (intro table_ok_if table_ok_pair answer_ok cmd_ok [OF assms] cmd_stop_ok [OF assms]
        signal_commands_ok [OF assms])
qed

section \<open>Reading a command line\<close>

lemma split_cmd_eq: "split_cmd line =
  (takeWhile (\<lambda>c. \<not> is_sep c) line, rtrim is_sep (dropWhile is_sep (dropWhile (\<lambda>c. \<not> is_sep c) line)))"
proof -
  let ?n = "length line"
  let ?i = "scan_fwd (\<lambda>c. \<not> is_sep c) line 0 ?n"
  let ?rs = "scan_fwd is_sep line ?i ?n"
  have i: "?i \<le> ?n" by (simp add: scan_fwd_le)
  have "slice line 0 ?i = takeWhile (\<lambda>c. \<not> is_sep c) line"
    using scan_fwd_slice [of ?n line 0] by (simp add: slice_0)
  moreover have "slice line ?i ?n = dropWhile (\<lambda>c. \<not> is_sep c) line"
    using scan_fwd_rest [of 0 ?n line "\<lambda>c. \<not> is_sep c"] by (simp add: slice_0)
  moreover have "slice line ?rs ?n = dropWhile is_sep (slice line ?i ?n)"
    using i by (simp add: scan_fwd_rest)
  ultimately show ?thesis by (simp add: split_cmd_def rtrim_def Let_def scan_bwd_slice)
qed

lemma rtrim_trail: "list_all P ts \<Longrightarrow> xs = [] \<or> \<not> P (last xs) \<Longrightarrow> rtrim P (xs @ ts) = xs"
proof -
  assume ts: "list_all P ts" and xs: "xs = [] \<or> \<not> P (last xs)"
  have "dropWhile P (rev ts @ rev xs) = dropWhile P (rev xs)"
    using ts by (intro dropWhile_append2) (simp add: list_all_iff)
  then show ?thesis using rtrim_id [of xs P] xs by (simp add: rtrim_def)
qed

section \<open>What a command does\<close>

lemma signal_log_eq: "signal_log s w =
  (if log_pid s > 0 then (s\<lparr>log_stopping := True\<rparr>, sys_kill (log_pid s) SIGTERM w) else (s, w))"
  by (simp add: signal_log_def)

text \<open>The entry after \<open>stop\<close>, and the signals it is sent.\<close>

definition after_stop :: "service \<Rightarrow> service" where
  "after_stop s = (let s = mark_stopping s in if log_pid s > 0 then s\<lparr>log_stopping := True\<rparr> else s)"

definition stop_kills :: "service \<Rightarrow> (int \<times> int) list" where
  "stop_kills s = (if pid s > 0 then [(- pid s, SIGTERM)] else []) @
     (if log_pid s > 0 then [(log_pid s, SIGTERM)] else [])"

lemma told_effect: "fst (told os mark_stopping s w) = after_stop s"
  "kill_log (snd (told os mark_stopping s w)) = kill_log w @ stop_kills s"
  by (simp_all add: told_def signal_log_eq signal_main_def after_stop_def stop_kills_def
      mark_stopping_def Let_def split_def)

lemma after_stop_marked: "after_stop (mark_stopping s) = after_stop s"
  "stop_kills (mark_stopping s) = stop_kills s"
  by (simp_all add: after_stop_def mark_stopping_def stop_kills_def)

text \<open>The branch taken for each command.\<close>

lemma command_lines:
  "split_cmd line = (''status'', arg) \<Longrightarrow>
     handle_control_command os fd line services w = answer os fd (cmd_status os arg services w)"
  "split_cmd line = (''start'', arg) \<Longrightarrow>
     handle_control_command os fd line services w = answer os fd (cmd_start os arg services w)"
  "split_cmd line = (''stop'', arg) \<Longrightarrow>
     handle_control_command os fd line services w = answer os fd (cmd_stop os arg services w)"
  "split_cmd line = (''restart'', arg) \<Longrightarrow>
     handle_control_command os fd line services w = answer os fd (cmd_restart os arg services w)"
  "split_cmd line = (''down'', arg) \<Longrightarrow>
     handle_control_command os fd line services w = answer os fd (cmd_down os arg services w)"
  "split_cmd line = (''up'', arg) \<Longrightarrow>
     handle_control_command os fd line services w = answer os fd (cmd_up os arg services w)"
  "split_cmd line = (''once'', arg) \<Longrightarrow>
     handle_control_command os fd line services w = answer os fd (cmd_once os arg services w)"
  "split_cmd line = (''check'', arg) \<Longrightarrow>
     handle_control_command os fd line services w = answer os fd (cmd_check os arg services w)"
  "split_cmd line = (''signal'', arg) \<Longrightarrow>
     handle_control_command os fd line services w = (services, signal_command os fd arg services w)"
  by (simp_all add: handle_control_command_def signal_from_name_def)

lemma signal_lines:
  assumes "split_cmd line = (cmd, arg)" "signal_from_name cmd \<noteq> 0"
  shows "handle_control_command os fd line services w =
     (services, handle_signal_command os fd cmd arg services w)"
proof -
  have zero: "signal_from_name ''list'' = 0" "signal_from_name ''stat'' = 0"
    "signal_from_name ''status'' = 0" "signal_from_name ''start'' = 0" "signal_from_name ''stop'' = 0"
    "signal_from_name ''restart'' = 0" "signal_from_name ''down'' = 0" "signal_from_name ''up'' = 0"
    "signal_from_name ''once'' = 0" "signal_from_name ''check'' = 0" "signal_from_name ''reload'' = 0"
    by (simp_all add: signal_from_name_def)
  have ne: "bytes_eq cmd x = False" if "signal_from_name x = 0" for x using that assms(2) by auto
  have sig: "(signal_from_name cmd \<noteq> 0) = True" using assms(2) by simp
  show ?thesis
    by (simp only: handle_control_command_def assms(1) Let_def prod.case zero [THEN ne] sig
        if_True if_False simp_thms)
qed

lemma stop_effect:
  assumes ok: "length services < usize_max" and line: "split_cmd line = (''stop'', nm)" "nm \<noteq> []"
    and found: "find_service_by_name services nm = i" "i < length services"
  shows "\<exists>ks w'. handle_control_command os fd line services w =
      ((marked services (Collect (must_stop services)))[i := after_stop (services ! i)], w') \<and>
    distinct ks \<and> set ks = Collect (must_stop services) \<and>
    kill_log w' = kill_log w @ map (term_group services) ks @ stop_kills (services ! i)"
proof -
  let ?m = "marked services (Collect (must_stop services))"
  from stop_transitive_marked [OF ok, of "{}" os w] obtain ks w1
    where t: "stop_transitive_deps os services w = (?m, w1)" and ks: "distinct ks"
      "set ks = Collect (must_stop services)" "kill_log w1 = kill_log w @ map (term_group services) ks"
    by auto
  let ?e = "stop_entry os (?m ! i) w1"
  have e: "fst ?e = after_stop (services ! i)" "kill_log (snd ?e) = kill_log w1 @ stop_kills (services ! i)"
    using found(2) by (simp_all add: stop_entry_eq told_effect after_stop_marked)
  have "i \<noteq> usize_max" using ok found(2) by linarith
  then have cmd: "cmd_stop os nm services w = (format_ok (''stopping'' @ [LF]), ?m[i := fst ?e], snd ?e)"
    using line(2) found(1) by (simp add: cmd_stop_def on_service_def update_entry_def Let_def split_def t)
  have "handle_control_command os fd line services w =
      (?m[i := after_stop (services ! i)], respond os fd (format_ok (''stopping'' @ [LF])) (snd ?e))"
    unfolding command_lines(3) [OF line(1)] cmd answer_def e(1) by simp
  then show ?thesis using ks e(2) by (intro exI [of _ ks]) simp
qed

section \<open>The setup calls\<close>

text \<open>The calls that set up the socket, oldest first.\<close>

fun setups :: "event list \<Rightarrow> setup_call list" where
  "setups [] = []"
| "setups (e # es) = (case e of ESetup c \<Rightarrow> [c] | _ \<Rightarrow> []) @ setups es"

definition setup_log :: "world \<Rightarrow> setup_call list" where
  "setup_log w = setups (rev (trace w))"

lemma setups_append: "setups (es @ fs) = setups es @ setups fs"
  by (induction es) simp_all

lemma setup_log_emit [simp]:
  "setup_log (emit e w) = setup_log w @ (case e of ESetup c \<Rightarrow> [c] | _ \<Rightarrow> [])"
  by (simp add: setup_log_def setups_append)

lemma setup_log_close [simp]: "setup_log (close_fd os fd w) = setup_log w"
proof -
  have "setup_log (eintr_loop k (EClose fd) w) = setup_log w" for k
    by (induction k arbitrary: w) simp_all
  then show ?thesis by (simp add: close_fd_def retried_def)
qed

lemma setup_log_nonblock [simp]: "setup_log (snd (set_nonblock os fd w)) = setup_log w"
  by (simp add: set_nonblock_def sys_fcntl_get_def Let_def)

text \<open>The calls for a path, given the answers: the old mask and the results of \<open>socket\<close>, \<open>bind\<close> and
  \<open>listen\<close>.\<close>

definition socket_calls :: "os \<Rightarrow> bytes \<Rightarrow> int \<Rightarrow> int \<Rightarrow> int \<Rightarrow> int \<Rightarrow> setup_call list" where
  "socket_calls os path old fd b l =
     [SUmask 63, SSocket fd] @
     (if fd < 0 then [SUmask old]
      else [SBind fd (sun_path os path) (sun_addr_len os path) b, SUmask old] @
        (if b < 0 then [] else [SChmod path 432, SListen fd l]))"

section \<open>Claims\<close>

text \<open>C25. A command line made of a word, separators, an argument and more separators is split into
  the word and the argument, for every argument that neither starts nor ends with a separator.\<close>

theorem split_cmd_roundtrip:
  assumes "list_all (\<lambda>c. \<not> is_sep c) cmd" "list_all is_sep (s # seps)" "list_all is_sep trail"
    "arg = [] \<or> \<not> is_sep (hd arg) \<and> \<not> is_sep (last arg)"
  shows "split_cmd (cmd @ s # seps @ arg @ trail) = (cmd, arg)"
proof -
  have s: "is_sep s" using assms(2) by simp
  have "takeWhile (\<lambda>c. \<not> is_sep c) (cmd @ s # seps @ arg @ trail) = cmd"
    using assms(1) s by (subst takeWhile_append2) (auto simp: list_all_iff)
  moreover have "dropWhile (\<lambda>c. \<not> is_sep c) (cmd @ s # seps @ arg @ trail) = s # seps @ arg @ trail"
    using assms(1) s by (subst dropWhile_append2) (auto simp: list_all_iff)
  moreover have "rtrim is_sep (dropWhile is_sep (s # seps @ arg @ trail)) = arg"
  proof (cases "arg = []")
    case True
    have "list_all is_sep (s # seps @ trail)" using assms(2,3) by simp
    then have "dropWhile is_sep (s # seps @ trail) = []" unfolding dropWhile_eq_Nil_conv list_all_iff .
    then show ?thesis by (simp add: True rtrim_def)
  next
    case False
    have "dropWhile is_sep ((s # seps) @ arg @ trail) = dropWhile is_sep (arg @ trail)"
      using assms(2) by (intro dropWhile_append2) (auto simp: list_all_iff)
    also have "\<dots> = arg @ trail" using assms(4) False by (cases arg) auto
    finally show ?thesis using rtrim_trail [OF assms(3)] assms(4) False by simp
  qed
  ultimately show ?thesis by (simp add: split_cmd_eq)
qed

theorem split_cmd_roundtrip_witness:
  "split_cmd (''signal'' @ CHR '' '' # [] @ ''db 9'' @ [LF]) = (''signal'', ''db 9'')"
  by (rule split_cmd_roundtrip) (simp_all add: is_sep_def)

definition entry_commands :: "bytes list" where
  "entry_commands = [''status'', ''start'', ''stop'', ''restart'', ''down'', ''up'', ''once'', ''check'']"

definition signal_commands :: "bytes list" where
  "signal_commands = [''hup'', ''int'', ''term'', ''kill'', ''usr1'', ''usr2'', ''quit'', ''alrm'', ''cont'']"

text \<open>What is wrong with a command that names no service of the table. The command \<open>signal\<close> has the
  name and the number in its argument, and the number is looked at first.\<close>

definition unknown_answer :: "os \<Rightarrow> bytes \<Rightarrow> bytes \<Rightarrow> bytes" where
  "unknown_answer os cmd arg =
     (let number = snd (split_cmd arg)
      in if cmd = ''signal'' \<and> number = [] then ''usage: signal <name> <signum>''
         else if cmd = ''signal'' \<and> parse_signum os number = None then ''invalid signal number''
         else ''service not found'')"

lemma unknown_entry_command:
  assumes "split_cmd line = (cmd, arg)" "cmd \<in> set (entry_commands @ signal_commands)" "arg \<noteq> []"
    "find_service_by_name services arg = usize_max"
  shows "handle_control_command os fd line services w =
    (services, respond os fd (format_error (''service not found'' @ [LF])) w)"
proof -
  note missing = on_service_def assms(3,4)
  have cmds: "cmd_status os arg services w = (format_error (''service not found'' @ [LF]), services, w)"
    "cmd_start os arg services w = (format_error (''service not found'' @ [LF]), services, w)"
    "cmd_stop os arg services w = (format_error (''service not found'' @ [LF]), services, w)"
    "cmd_restart os arg services w = (format_error (''service not found'' @ [LF]), services, w)"
    "cmd_down os arg services w = (format_error (''service not found'' @ [LF]), services, w)"
    "cmd_up os arg services w = (format_error (''service not found'' @ [LF]), services, w)"
    "cmd_once os arg services w = (format_error (''service not found'' @ [LF]), services, w)"
    "cmd_check os arg services w = (format_error (''service not found'' @ [LF]), services, w)"
    by (simp_all only: cmd_status_def cmd_start_def cmd_stop_def cmd_restart_def cmd_down_def cmd_up_def
        cmd_once_def cmd_check_def missing Let_def if_True if_False simp_thms)
  show ?thesis
  proof (cases "signal_from_name cmd \<noteq> 0")
    case True
    then show ?thesis
      using assms(3,4) by (simp add: signal_lines [OF assms(1)] handle_signal_command_def send_signal_def)
  next
    case False
    have "signal_from_name x \<noteq> 0" if "x \<in> set signal_commands" for x
      using that unfolding signal_commands_def list.set
      by (elim insertE emptyE) (simp_all add: signal_from_name_def)
    then have "cmd \<in> set entry_commands" using assms(2) False by auto
    then show ?thesis
      using assms(1) unfolding entry_commands_def list.set
      by (elim insertE emptyE) (simp_all only: command_lines cmds answer_def prod.case)
  qed
qed

lemma unknown_signal_command:
  assumes "split_cmd line = (''signal'', arg)" "split_cmd arg = (nm, number)" "nm \<noteq> []"
    "find_service_by_name services nm = usize_max"
  shows "handle_control_command os fd line services w =
    (services, respond os fd (format_error (unknown_answer os ''signal'' arg @ [LF])) w)"
proof -
  have "arg \<noteq> []" using assms(2,3) by (auto simp: split_cmd_eq)
  then show ?thesis
    using assms(2-4) by (simp add: command_lines(9) [OF assms(1)] signal_command_def send_signum_def
        unknown_answer_def split: option.split)
qed

text \<open>C23. Every command that takes the name of a service, the numbered \<open>signal\<close> and the shortcuts for
  signals among them, answers with an error when the name is not in the table and has no other
  effect: no entry changes, no signal is sent, no call is made but the answer.\<close>

theorem unknown_service_error:
  assumes "split_cmd line = (cmd, arg)" "cmd \<in> set (''signal'' # entry_commands @ signal_commands)"
    "nm = (if cmd = ''signal'' then fst (split_cmd arg) else arg)" "nm \<noteq> []"
    "find_service_by_name services nm = usize_max"
  shows "handle_control_command os fd line services w =
    (services, respond os fd (format_error (unknown_answer os cmd arg @ [LF])) w)"
proof (cases "cmd = ''signal''")
  case True
  with assms show ?thesis
    using unknown_signal_command [of line arg nm "snd (split_cmd arg)" services os fd w] by simp
next
  case False
  then have "unknown_answer os cmd arg = ''service not found''" by (simp add: unknown_answer_def)
  with False assms show ?thesis using unknown_entry_command [OF assms(1), of services os fd w] by auto
qed

text \<open>C10. \<open>stop\<close> sends \<open>SIGTERM\<close> to the service and its logger and marks the entry. The only other
  services it stops are those that already had to be stopped before the command, because a
  dependency of theirs was down: the services that depend on the one being stopped keep running.\<close>

theorem stop_command_effect:
  assumes "length services < usize_max" "split_cmd line = (''stop'', nm)" "nm \<noteq> []"
    "find_service_by_name services nm = i" "i < length services"
  shows "\<exists>ks w'. handle_control_command os fd line services w =
      ((marked services (Collect (must_stop services)))[i := after_stop (services ! i)], w') \<and>
    distinct ks \<and> set ks = Collect (must_stop services) \<and>
    kill_log w' = kill_log w @ map (term_group services) ks @ stop_kills (services ! i)"
  by (rule stop_effect [OF assms])

text \<open>C24. The control socket is created under the mask \<open>077\<close> and made accessible to its group only
  after it is bound; the mask that was in force before is restored on every path, also when \<open>socket\<close> or \<open>bind\<close> fails, and
  the descriptor is returned only when no call failed.\<close>

theorem control_socket_calls:
  "(let path = cs_bytes (cs_push SOCK_SUFFIX (cs_from_bytes (cs_bytes root)));
      old = os_umask os (EUnlink path # trace w)
    in \<exists>fd b l. fst (create_control_socket os root w) = (if fd < 0 \<or> b < 0 \<or> l < 0 then -1 else fd) \<and>
      setup_log (snd (create_control_socket os root w)) = setup_log w @ socket_calls os path old fd b l)"
proof -
  let ?path = "cs_bytes (cs_push SOCK_SUFFIX (cs_from_bytes (cs_bytes root)))"
  let ?p = "cs_push SOCK_SUFFIX (cs_from_bytes (cs_bytes root))"
  let ?w0 = "emit (EUnlink (cs_cstr ?p)) w"
  define old where "old = os_umask os (trace ?w0)"
  define w1 where "w1 = setup_call (SUmask 63) ?w0"
  define fd where "fd = os_socket os (trace w1)"
  define w2 where "w2 = setup_call (SSocket fd) w1"
  define b where "b = os_bind os (trace w2) fd"
  define w3 where "w3 = setup_call (SBind fd (sun_path os ?path) (sun_addr_len os ?path) b) w2"
  define w4 where "w4 = setup_call (SChmod (cs_cstr ?p) 432) (setup_call (SUmask old) w3)"
  define l where "l = os_listen os (trace w4) fd"
  define w5 where "w5 = setup_call (SListen fd l) w4"
  have cstr: "cs_cstr ?p = ?path" by (rule cs_cstr_bytes) simp
  have mask: "old = os_umask os (EUnlink ?path # trace w)" by (simp only: old_def emit_sel cstr)
  have eq: "create_control_socket os root w =
      (if fd < 0 then (-1, setup_call (SUmask old) w2)
       else if b < 0 then (-1, setup_call (SUmask old) (close_fd os fd w3))
       else if l < 0 then (-1, close_fd os fd w5) else (fd, snd (set_nonblock os fd w5)))"
    by (simp add: create_control_socket_def Let_def old_def w1_def fd_def w2_def b_def w3_def
        w4_def l_def w5_def del: cs_push.simps)
  have logs: "setup_log w2 = setup_log w @ [SUmask 63, SSocket fd]"
    "setup_log w3 = setup_log w2 @ [SBind fd (sun_path os (?path)) (sun_addr_len os (?path)) b]"
    "setup_log w5 = setup_log w3 @ [SUmask old, SChmod (?path) 432, SListen fd l]"
    by (simp_all add: w1_def w2_def w3_def w4_def w5_def setup_call_def cstr del: cs_push.simps)
  show ?thesis
    unfolding Let_def mask [symmetric]
    by (rule exI [of _ fd], rule exI [of _ b], rule exI [of _ l])
      (simp add: eq logs socket_calls_def setup_call_def)
qed

theorem unknown_service_error_witness:
  "\<forall>fd w. handle_control_command os_idle fd (''signal web 15'' @ [LF]) [ex_service ''db'' 7 1] w =
     ([ex_service ''db'' 7 1], respond os_idle fd (format_error (''service not found'' @ [LF])) w)"
proof (intro allI)
  fix fd and w :: world
  have line: "split_cmd (''signal web 15'' @ [LF]) = (''signal'', ''web 15'')"
    "split_cmd ''web 15'' = (''web'', ''15'')"
    by (simp_all add: split_cmd_eq is_sep_def rtrim_def)
  have "parse_signum os_idle ''15'' = Some 15"
    by (simp add: parse_signum_def os_idle_def is_digit_def digit_val_def sat_add_def sat_mul_def wrap_i32_def)
  then have "unknown_answer os_idle ''signal'' ''web 15'' = ''service not found''"
    by (simp add: unknown_answer_def line)
  with unknown_service_error [OF line(1), of "''web''" "[ex_service ''db'' 7 1]" os_idle fd w]
  show "handle_control_command os_idle fd (''signal web 15'' @ [LF]) [ex_service ''db'' 7 1] w =
     ([ex_service ''db'' 7 1], respond os_idle fd (format_error (''service not found'' @ [LF])) w)"
    by (simp add: line(2) find_service_by_name_def)
qed

text \<open>A web service that needs a database, both running: \<open>stop db\<close> leaves the web service running.\<close>

theorem stop_command_effect_witness:
  "\<forall>os fd w. fst (handle_control_command os fd (''stop db'' @ [LF])
      [ex_needs ''db'' (ex_service ''web'' 7 1), ex_service ''db'' 8 1] w) =
    [ex_needs ''db'' (ex_service ''web'' 7 1), after_stop (ex_service ''db'' 8 1)]"
proof (intro allI)
  fix os fd and w :: world
  let ?ss = "[ex_needs ''db'' (ex_service ''web'' 7 1), ex_service ''db'' 8 1]"
  have line: "split_cmd (''stop db'' @ [LF]) = (''stop'', ''db'')"
    by (simp add: split_cmd_eq is_sep_def rtrim_def)
  have find: "find_service_by_name ?ss ''db'' = 1" by (simp add: find_service_by_name_def)
  have up: "is_up ?ss ''db''" by (simp add: is_up_def find_service_by_name_def Let_def)
  have False if "must_stop ?ss i" for i
    using that by induction (use up in \<open>auto simp: less_Suc_eq\<close>)
  then have none: "Collect (must_stop ?ss) = {}" by blast
  show "fst (handle_control_command os fd (''stop db'' @ [LF]) ?ss w) =
      [ex_needs ''db'' (ex_service ''web'' 7 1), after_stop (ex_service ''db'' 8 1)]"
    using stop_command_effect [OF _ line _ find, of os fd w] unfolding none by auto
qed

end
