(* ===== verification/Reap.thy ===== *)
theory Reap
  imports Ctrl
begin

text \<open>
  \<open>reap_children\<close> of \<open>src/main.rs\<close>: children that ended are taken off the table, services are
  given the time of their next start or are given up. The loop asks \<open>waitpid\<close> until it has no more
  children to report; that it returns is proved from the documented behaviour of \<open>waitpid\<close>
  (\<open>waits_for_children\<close>).
\<close>

section \<open>One child\<close>

text \<open>\<open>for s in services.iter_mut() { if .. { .. ; break; } }\<close>: the body runs on the first match and
  its flag is the result.\<close>

fun at_first :: "(service \<Rightarrow> bool) \<Rightarrow> (service \<Rightarrow> world \<Rightarrow> bool \<times> service \<times> world) \<Rightarrow>
    service list \<Rightarrow> world \<Rightarrow> bool \<times> service list \<times> world" where
  "at_first P f [] w = (False, [], w)"
| "at_first P f (s # ss) w =
     (if P s then let (b, s, w) = f s w in (b, s # ss, w)
      else let (b, ss, w) = at_first P f ss w in (b, s # ss, w))"

definition log_exit :: "os \<Rightarrow> service \<Rightarrow> world \<Rightarrow> service \<times> world" where
  "log_exit os s w =
     (let s = s\<lparr>log_pid := -1\<rparr>;
          s = s\<lparr>log_state := STATE_DOWN\<rparr>;
          s = s\<lparr>log_stopping := False\<rparr>;
          w = supervisor_log os ''log process exited for service: '' w
      in (s, supervisor_log os (name_bytes s) w))"

definition exit_record :: "int \<Rightarrow> service \<Rightarrow> service" where
  "exit_record status s =
     (let s = s\<lparr>pid := -1\<rparr>;
          s = s\<lparr>last_status := status\<rparr>;
          (st, code, sig) = decode_wait_status status;
          s = s\<lparr>state := st\<rparr>;
          s = s\<lparr>exit_code := code\<rparr>
      in s\<lparr>term_signal := sig\<rparr>)"

text \<open>The message after \<open>service exited: <name>\<close>.\<close>

definition exit_message :: "service \<Rightarrow> bytes" where
  "exit_message s =
     (let msg = cs_new;
          msg = cs_push '' exit='' msg;
          msg = cs_push_i64 (exit_code s) msg;
          msg = cs_push '' sig='' msg
      in cs_bytes (cs_push_i64 (term_signal s) msg))"

definition exit_log :: "service \<Rightarrow> world \<Rightarrow> service \<times> world" where
  "exit_log s w =
     (if log_pid s > 0 \<and> (stopping s \<or> state s = STATE_FAILED \<or> state s = STATE_DOWN)
      then let w = sys_kill (log_pid s) SIGTERM w in (s\<lparr>log_stopping := True\<rparr>, w)
      else (s, w))"

definition restart_policy :: "os \<Rightarrow> int \<Rightarrow> service \<Rightarrow> world \<Rightarrow> service \<times> world" where
  "restart_policy os t s w =
     (if stopping s \<or> once s
      then let s = s\<lparr>restart_at := i64_max\<rparr>
           in (if once s then s\<lparr>once := False\<rparr> else s, w)
      else let s = (if wrap_i64 (t - started_at s) > RESTART_WINDOW_S
                    then s\<lparr>restarts := 0\<rparr>
                    else s\<lparr>restarts := wrap_u32 (restarts s + 1)\<rparr>)
           in if restarts s > MAX_RESTARTS_IN_WINDOW
              then let s = s\<lparr>state := STATE_FAILED\<rparr>;
                       s = s\<lparr>restart_at := i64_max\<rparr>;
                       w = supervisor_log os ''service failed (too many restarts): '' w
                   in (s, supervisor_log os (name_bytes s) w)
              else let delay = (if restarts s < 5 then BACKOFF_SHORT
                                else if restarts s < 20 then BACKOFF_MED
                                else BACKOFF_LONG)
                   in (s\<lparr>restart_at := wrap_i64 (t + delay)\<rparr>, w))"

text \<open>The flag says that services above this one may have to stop.\<close>

definition main_exit :: "os \<Rightarrow> int \<Rightarrow> int \<Rightarrow> service \<Rightarrow> world \<Rightarrow> bool \<times> service \<times> world" where
  "main_exit os status t s w =
     (let s = exit_record status s;
          w = run_finish os s w;
          w = supervisor_log os ''service exited: '' w;
          w = supervisor_log os (name_bytes s) w;
          w = supervisor_log os (exit_message s) w;
          need_stop_deps = (\<not> stopping s \<and> state s \<noteq> STATE_RUNNING);
          (s, w) = exit_log s w;
          (s, w) = restart_policy os t s w
      in (need_stop_deps, s, write_status_file os s w))"

section \<open>The loop\<close>

definition reap_turn :: "os \<Rightarrow> bool \<Rightarrow> service list \<Rightarrow> world \<Rightarrow> bool \<times> bool \<times> service list \<times> world" where
  "reap_turn os need services w =
     (let ((p, status), w) = sys_waitpid os (-1) w
      in if p \<le> 0 then (False, need, services, w)
         else let (t, w) = mono_now os w;
                  (handled, services, w) = at_first (\<lambda>s. active s \<and> log_pid s = p)
                     (\<lambda>s w. (True, log_exit os s w)) services w
              in if handled then (True, need, services, w)
                 else let (stop, services, w) = at_first (\<lambda>s. active s \<and> pid s = p)
                            (main_exit os status t) services w
                      in (True, need \<or> stop, services, w))"

partial_function (option) reap_loop ::
    "os \<Rightarrow> bool \<Rightarrow> service list \<Rightarrow> world \<Rightarrow> (bool \<times> service list \<times> world) option" where
  "reap_loop os need services w =
     (case reap_turn os need services w of
        (go, need', services', w') \<Rightarrow>
          if go then reap_loop os need' services' w' else Some (need', services', w'))"

definition reap_children :: "os \<Rightarrow> service list \<Rightarrow> world \<Rightarrow> (service list \<times> world) option" where
  "reap_children os services w =
     (case reap_loop os False services w of
        None \<Rightarrow> None
      | Some (need, services, w) \<Rightarrow>
          let (services, w) = (if need then stop_transitive_deps os services w else (services, w))
          in Some (kill_main_on_log_death os services w))"

section \<open>The invariant is kept\<close>

lemma at_first_eq: "at_first P f ss w =
  (if list_all (\<lambda>s. \<not> P s) ss then (False, ss, w)
   else (let i = length (takeWhile (\<lambda>s. \<not> P s) ss); (b, s, w) = f (ss ! i) w in (b, ss[i := s], w)))"
  by (induction ss arbitrary: w) (auto simp: Let_def split_def)

lemma first_match: "\<not> list_all (\<lambda>s. \<not> P s) ss \<Longrightarrow>
  length (takeWhile (\<lambda>s. \<not> P s) ss) < length ss \<and> P (ss ! length (takeWhile (\<lambda>s. \<not> P s) ss))"
  by (induction ss) auto

context service_step
begin

lemma at_first_ok:
  assumes "sys_ok services w" "\<And>s w. snd (f s w) = step os s w"
  shows "table_ok services (snd (at_first P f services w))"
proof (cases "list_all (\<lambda>s. \<not> P s) services")
  case True
  then show ?thesis using assms(1) by (simp add: at_first_eq table_ok_def)
next
  case False
  let ?i = "length (takeWhile (\<lambda>s. \<not> P s) services)"
  have eq: "snd (at_first P f services w) =
      (services[?i := fst (step os (services ! ?i) w)], snd (step os (services ! ?i) w))"
    unfolding at_first_eq if_not_P [OF False] by (simp add: Let_def split_def assms(2))
  show ?thesis
    unfolding eq table_ok_def
    using at_ok [OF assms(1)] at_ids [OF assms(1)] first_match [OF False] by simp
qed

end

interpretation log_gone: service_step log_exit
proof unfold_locales
  fix os s and w :: world
  assume ok: "svc_ok w s"
  have "svc_ok w (s\<lparr>log_pid := -1, log_state := STATE_DOWN, log_stopping := False\<rparr>)"
    using ok by (auto simp: svc_ok_def svc_inv_def tracked_def in_i32_def)
  then show "svc_ok (snd (log_exit os s w)) (fst (log_exit os s w))"
    by (simp add: log_exit_def Let_def svc_ok_intros)
qed (simp_all add: log_exit_def Let_def kills_ok_log)

lemma exit_record_ok:
  assumes "svc_ok w s" "in_i32 status"
  shows "svc_ok w (exit_record status s)"
proof -
  obtain st code sig where d: "decode_wait_status status = (st, code, sig)"
    by (cases "decode_wait_status status")
  note r = decode_wait_status_range [OF d]
  show ?thesis
    using assms r
    by (auto simp: exit_record_def d Let_def svc_ok_def svc_inv_def tracked_def valid_state_def in_i32_def)
qed

lemma exit_record_sel [simp]:
  "pid (exit_record status s) = -1" "active (exit_record status s) = active s"
  "name_bytes (exit_record status s) = name_bytes s" "dir_bytes (exit_record status s) = dir_bytes s"
  "stopping (exit_record status s) = stopping s" "log_pid (exit_record status s) = log_pid s"
  "once (exit_record status s) = once s" "restarts (exit_record status s) = restarts s"
  "started_at (exit_record status s) = started_at s"
  by (simp_all add: exit_record_def Let_def split_def)

lemma run_finish_frame [simp]:
  "extends u w \<Longrightarrow> extends u (run_finish os s w)" "kill_log (run_finish os s w) = kill_log w"
  by (simp_all add: run_finish_def Let_def split_def)

interpretation exit_logging: service_step "\<lambda>os. exit_log"
  by unfold_locales (auto simp: exit_log_def intro!: svc_ok_intros)

lemma exit_log_pid [simp]: "pid (fst (exit_log s w)) = pid s"
  by (simp add: exit_log_def Let_def)

lemma restart_policy_frame [simp]:
  "extends u w \<Longrightarrow> extends u (snd (restart_policy os t s w))"
  "kill_log (snd (restart_policy os t s w)) = kill_log w"
  "active (fst (restart_policy os t s w)) = active s"
  "name_bytes (fst (restart_policy os t s w)) = name_bytes s"
  "dir_bytes (fst (restart_policy os t s w)) = dir_bytes s"
  by (simp_all add: restart_policy_def Let_def)

lemma restart_policy_ok:
  assumes ok: "svc_ok w s" "pid s \<le> 0"
  shows "svc_ok (snd (restart_policy os t s w)) (fst (restart_policy os t s w))"
proof -
  have wf: "svc_wf s" by (rule svc_ok_wf [OF ok(1)])
  have at: "svc_ok w (s\<lparr>restart_at := a\<rparr>)" if "in_i64 a" for a
    using wf that by (intro svc_ok_fields [OF ok(1)]) simp_all
  have once: "svc_ok w (s\<lparr>restart_at := a, once := False\<rparr>)" if "in_i64 a" for a
    using wf that by (intro svc_ok_fields [OF ok(1)]) simp_all
  have cnt: "svc_ok w (s\<lparr>restarts := n, restart_at := a\<rparr>)" if "n \<le> u32_max" "in_i64 a" for n a
    using wf that by (intro svc_ok_fields [OF ok(1)]) simp_all
  have bad: "svc_ok w (s\<lparr>restarts := n, state := STATE_FAILED, restart_at := a\<rparr>)"
    if "n \<le> u32_max" "in_i64 a" for n a
  proof -
    have "svc_wf (s\<lparr>restarts := n, state := STATE_FAILED, restart_at := a\<rparr>)" using wf that by simp
    then show ?thesis
      using ok by (auto simp: svc_ok_def svc_inv_def tracked_def valid_state_def)
  qed
  have n: "(if wrap_i64 (t - started_at s) > RESTART_WINDOW_S then 0 else wrap_u32 (restarts s + 1)) \<le> u32_max"
    using wrap_u32_le by simp
  have max: "in_i64 i64_max" by (simp add: in_i64_def)
  show ?thesis
  proof (cases "stopping s \<or> once s")
    case True
    then show ?thesis using at [OF max] once [OF max] by (simp add: restart_policy_def Let_def)
  next
    case False
    then show ?thesis
      using n cnt [OF _ wrap_i64_in] bad [OF _ max]
      by (auto simp: restart_policy_def Let_def wrap_u32_le intro!: svc_ok_intros)
  qed
qed

lemma main_exit_step:
  assumes status: "in_i32 status"
  shows "service_step (\<lambda>os s w. snd (main_exit os status t s w))"
proof unfold_locales
  fix os s and w :: world
  assume ok: "svc_ok w s"
  let ?s = "exit_record status s"
  let ?w = "supervisor_log os (exit_message ?s) (supervisor_log os (name_bytes ?s)
     (supervisor_log os ''service exited: '' (run_finish os ?s w)))"
  let ?l = "exit_log ?s ?w"
  let ?r = "restart_policy os t (fst ?l) (snd ?l)"
  have eq: "snd (main_exit os status t s w) = (fst ?r, write_status_file os (fst ?r) (snd ?r))"
    by (simp add: main_exit_def Let_def split_def)
  have ext: "extends w ?w" "kill_log ?w = kill_log w" by simp_all
  have s: "svc_ok ?w ?s" by (rule svc_ok_mono [OF ext(1) exit_record_ok [OF ok status]])
  note l = exit_logging.step_ok [OF s] exit_logging.step_extends [OF s]
  have r: "svc_ok (snd ?r) (fst ?r)" using restart_policy_ok [OF l(1)] by simp
  then show "svc_ok (snd (snd (main_exit os status t s w))) (fst (snd (main_exit os status t s w)))"
    by (simp add: eq svc_ok_intros)
  show "extends w (snd (snd (main_exit os status t s w)))"
    using extends_trans [OF ext(1) l(2)] by (simp add: eq)
  show "kills_ok (snd (snd (main_exit os status t s w)))" if "kills_ok w"
  proof -
    have "kills_ok ?w" by (rule kills_ok_silent [OF that ext])
    then have "kills_ok (snd ?l)" using exit_logging.step_kills [OF s] by blast
    then have "kills_ok (snd ?r)" by (rule kills_ok_silent) simp_all
    then show ?thesis by (simp add: eq kills_ok_status)
  qed
  show "active (fst (snd (main_exit os status t s w))) = active s"
    "name_bytes (fst (snd (main_exit os status t s w))) = name_bytes s"
    "dir_bytes (fst (snd (main_exit os status t s w))) = dir_bytes s"
    using exit_logging.step_id [OF s] by (simp_all add: eq)
qed

lemma reap_turn_ok:
  assumes "sys_ok services w" "reap_turn os need services w = (go, need', services', w')"
  shows "table_ok services (services', w')"
proof -
  let ?r = "sys_waitpid os (-1) w"
  let ?p = "fst (fst ?r)" and ?st = "snd (fst ?r)"
  let ?m = "mono_now os (snd ?r)"
  let ?l = "at_first (\<lambda>s. active s \<and> log_pid s = ?p) (\<lambda>s w. (True, log_exit os s w)) services (snd ?m)"
  let ?f = "at_first (\<lambda>s. active s \<and> pid s = ?p) (main_exit os ?st (fst ?m)) (fst (snd ?l)) (snd (snd ?l))"
  have r: "extends w (snd ?r)" "kill_log (snd ?r) = kill_log w" "in_i32 ?st"
    by (simp_all add: sys_waitpid_def Let_def wrap_i32_in)
  have m: "sys_ok services (snd ?r)" "sys_ok services (snd ?m)"
    using r by (auto intro!: sys_ok_mono [OF assms(1)])
  have l: "table_ok services (snd ?l)"
    by (rule log_gone.at_first_ok [OF m(2)]) simp
  then have "table_ok (fst (snd ?l)) (snd ?f)"
    by (intro service_step.at_first_ok [OF main_exit_step [OF r(3)]]) (simp_all add: table_ok_def)
  with l have f: "table_ok services (snd ?f)" by (simp add: table_ok_def)
  show ?thesis
    using assms(2) m l f
    by (auto simp: reap_turn_def Let_def split_def table_ok_def split: if_splits)
qed

text \<open>The loop that returns, as a relation to do induction on.\<close>

inductive reaps :: "os \<Rightarrow> bool \<Rightarrow> service list \<Rightarrow> world \<Rightarrow> bool \<Rightarrow> service list \<Rightarrow> world \<Rightarrow> bool" for os where
  last: "reap_turn os need ss w = (False, need', ss', w') \<Longrightarrow> reaps os need ss w need' ss' w'"
| more: "reap_turn os need ss w = (True, need1, ss1, w1) \<Longrightarrow> reaps os need1 ss1 w1 need' ss' w' \<Longrightarrow>
    reaps os need ss w need' ss' w'"

lemma reaps_returns: "reaps os need ss w need' ss' w' \<Longrightarrow>
  reap_loop os need ss w = Some (need', ss', w')"
proof (induction rule: reaps.induct)
  case (last need ss w need' ss' w')
  then show ?case by (subst reap_loop.simps) simp
next
  case (more need ss w need1 ss1 w1 need' ss' w')
  then show ?case by (subst reap_loop.simps) simp
qed

lemma returns_reaps:
  assumes "reap_loop os need ss w = Some r"
  shows "reaps os need ss w (fst r) (fst (snd r)) (snd (snd r))"
proof (rule reap_loop.raw_induct [where P = "\<lambda>os need ss w r. reaps os need ss w (fst r) (fst (snd r)) (snd (snd r))",
      OF _ assms])
  fix reap os need ss w r
  assume IH: "\<And>os need ss w r. reap os need ss w = Some r \<Longrightarrow>
      reaps os need ss w (fst r) (fst (snd r)) (snd (snd r))"
    and eq: "(case reap_turn os need ss w of (go, need', ss', w') \<Rightarrow>
        if go then reap os need' ss' w' else Some (need', ss', w')) = Some r"
  obtain go need1 ss1 w1 where t: "reap_turn os need ss w = (go, need1, ss1, w1)"
    by (cases "reap_turn os need ss w")
  show "reaps os need ss w (fst r) (fst (snd r)) (snd (snd r))"
  proof (cases go)
    case True
    then have "reaps os need1 ss1 w1 (fst r) (fst (snd r)) (snd (snd r))" using eq t by (intro IH) simp
    with t True show ?thesis by (auto intro: reaps.more)
  next
    case False
    with eq t show ?thesis by (auto intro: reaps.last)
  qed
qed

lemma reap_loop_iff: "reap_loop os need ss w = Some (need', ss', w') \<longleftrightarrow> reaps os need ss w need' ss' w'"
  using returns_reaps [of os need ss w "(need', ss', w')"] reaps_returns [of os need ss w need' ss' w']
  by auto

lemma reaps_ok: "reaps os need ss w need' ss' w' \<Longrightarrow> sys_ok ss w \<Longrightarrow> table_ok ss (ss', w')"
proof (induction rule: reaps.induct)
  case (last need ss w need' ss' w')
  then show ?case using reap_turn_ok by blast
next
  case (more need ss w need1 ss1 w1 need' ss' w')
  have "table_ok ss (ss1, w1)" by (rule reap_turn_ok [OF more.prems more.hyps(1)])
  then show ?case using more.IH by (simp add: table_ok_def)
qed

lemma reap_children_ok:
  assumes "sys_ok services w" "reap_children os services w = Some (ss, w')"
  shows "table_ok services (ss, w')"
proof -
  obtain need ss1 w1 where l: "reap_loop os False services w = Some (need, ss1, w1)"
    using assms(2) by (auto simp: reap_children_def split: option.splits)
  let ?t = "if need then stop_transitive_deps os ss1 w1 else (ss1, w1)"
  have 1: "sys_ok ss1 w1" "ids ss1 = ids services"
    using reaps_ok [OF l [unfolded reap_loop_iff] assms(1)] by (simp_all add: table_ok_def)
  then have t: "sys_ok (fst ?t) (snd ?t)" "ids (fst ?t) = ids services"
    using stop_transitive_ok stop_transitive_ids by auto
  have "(ss, w') = kill_main_on_log_death os (fst ?t) (snd ?t)"
    using assms(2) by (cases need) (simp_all add: reap_children_def l Let_def split_def)
  then show ?thesis
    using kill_main.each_ok [OF t(1), of os] kill_main.each_ids [of "fst ?t" "snd ?t" os] t
    by (simp add: table_ok_def kill_main_on_log_death_def sys_ok_def)
qed

section \<open>The loop returns\<close>

text \<open>The calls that create children and those that ask for one, newest first.\<close>

fun kin :: "event \<Rightarrow> bool" where
  "kin (EFork p c) = True"
| "kin (EAsk (QWaitpid q p st)) = True"
| "kin _ = False"

definition kin_log :: "world \<Rightarrow> event list" where
  "kin_log w = filter kin (trace w)"

fun births :: "event list \<Rightarrow> nat" where
  "births [] = 0"
| "births (e # es) = (case e of EFork p c \<Rightarrow> if p > 0 then 1 else 0 | _ \<Rightarrow> 0) + births es"

fun deaths :: "event list \<Rightarrow> nat" where
  "deaths [] = 0"
| "deaths (e # es) =
     (case e of EAsk (QWaitpid q p st) \<Rightarrow> if p > 0 then 1 else 0 | _ \<Rightarrow> 0) + deaths es"

text \<open>\<open>waitpid\<close> reports a child of the caller, and each one once.\<close>

definition waits_for_children :: "os \<Rightarrow> bool" where
  "waits_for_children os \<longleftrightarrow>
     (\<forall>tr q. wrap_i32 (fst (os_waitpid os tr q)) > 0 \<longrightarrow> deaths tr < births tr)"

lemma kin_log_emit [simp]: "kin_log (emit e w) = (if kin e then e # kin_log w else kin_log w)"
  by (simp add: kin_log_def)

lemma kin_log_statics [simp]:
  "kin_log (w\<lparr>SUPERVISOR_LOG_FD := x\<rparr>) = kin_log w" "kin_log (w\<lparr>SUPERVISOR_LOG_LEN := y\<rparr>) = kin_log w"
  by (simp_all add: kin_log_def)

lemma kin_log_retried [simp]: "\<not> kin e \<Longrightarrow> kin_log (retried os e w) = kin_log w"
proof -
  assume e: "\<not> kin e"
  have "kin_log (eintr_loop k e w) = kin_log w" for k using e by (induction k arbitrary: w) simp_all
  then show ?thesis by (simp add: retried_def)
qed

lemma kin_log_sys_write [simp]: "kin_log (snd (sys_write os fd b w)) = kin_log w"
  by (simp add: sys_write_def Let_def split: option.split)

lemma kin_log_write_all [simp]: "kin_log (snd (write_all os fd b w)) = kin_log w"
proof (induction os fd b w rule: write_all.induct)
  case (1 os fd b w)
  then show ?case by (subst write_all.simps) (simp add: Let_def)
qed

lemma kin_log_calls [simp]:
  "kin_log (close_fd os fd w) = kin_log w" "kin_log (libc_close fd w) = kin_log w"
  "kin_log (snd (sys_open os p m w)) = kin_log w" "kin_log (snd (sys_access os p am w)) = kin_log w"
  "kin_log (snd (read_all_nonblock os fd n w)) = kin_log w" "kin_log (sys_kill q sig w) = kin_log w"
  "kin_log (snd (sys_lseek_end os fd w)) = kin_log w" "kin_log (snd (wall_now os w)) = kin_log w"
  "kin_log (snd (mono_now os w)) = kin_log w"
  by (simp_all add: close_fd_def libc_close_def sys_open_def sys_access_def read_all_nonblock_def
      sys_read_def sys_kill_def sys_lseek_end_def wall_now_def mono_now_def Let_def split: option.split)

lemma kin_log_files [simp]:
  "kin_log (snd (read_file_to_buf os p n w)) = kin_log w"
  "kin_log (write_status_file os s w) = kin_log w"
  by (simp_all add: read_file_to_buf_def write_status_file_def split_def Let_def)

lemma kin_log_sup_init [simp]: "kin_log (supervisor_log_init os w) = kin_log w"
  by (simp add: supervisor_log_init_def split_def Let_def set_cloexec_def sys_fcntl_get_def)

lemma kin_log_supervisor [simp]:
  "kin_log (supervisor_log_rotate os w) = kin_log w" "kin_log (supervisor_log os msg w) = kin_log w"
  by (simp_all add: supervisor_log_rotate_def supervisor_log_def split_def Let_def)

lemma kin_log_panic [simp]: "kin_log (panic w) = kin_log w"
  by (simp add: panic_def)

lemma kin_log_prepare [simp]: "kin_log (snd (prepare_service_env os s w)) = kin_log w"
  by (simp add: prepare_service_env_def read_env_def check_chroot_def split_def Let_def split: option.split)

lemma births_kin: "births es = births (filter kin es)"
  and deaths_kin: "deaths es = deaths (filter kin es)"
  by (induction es) (auto split: event.split query.split)

text \<open>Children not yet reported.\<close>

definition waiting :: "world \<Rightarrow> nat" where
  "waiting w = births (trace w) - deaths (trace w)"

lemma waiting_kin: "kin_log w' = kin_log w \<Longrightarrow> waiting w' = waiting w"
  unfolding waiting_def births_kin [of "trace w"] births_kin [of "trace w'"]
    deaths_kin [of "trace w"] deaths_kin [of "trace w'"] by (simp add: kin_log_def)

lemma waiting_fork: "waiting (snd (sys_fork os c w)) \<le> waiting w + 1"
  by (simp add: sys_fork_def waiting_def Let_def split: option.split) arith

lemma waiting_waitpid:
  assumes "waits_for_children os" "sys_waitpid os q w = ((p, st), w')" "p > 0"
  shows "waiting w' + 1 = waiting w"
proof -
  have p: "p = wrap_i32 (fst (os_waitpid os (trace w) q))" "w' = emit (EAsk (QWaitpid q p st)) w"
    using assms(2) by (auto simp: sys_waitpid_def Let_def)
  then have "deaths (trace w) < births (trace w)"
    using assms(1,3) unfolding waits_for_children_def by blast
  then show ?thesis using assms(3) by (simp add: p(2) waiting_def)
qed

lemma waiting_run_finish: "waiting (run_finish os s w) \<le> waiting w + 1"
proof -
  let ?a = "sys_access os (cs_cstr (svc_path s ''/finish'')) X_OK w"
  let ?e = "prepare_service_env os s (snd ?a)"
  have a: "waiting (snd ?a) = waiting w" by (rule waiting_kin) simp
  have e: "waiting (snd ?e) = waiting w" by (rule waiting_kin) simp
  show ?thesis
    using a waiting_fork [of os "finish_child os (fst ?e)" "snd ?e"] e
    by (simp add: run_finish_def Let_def split_def)
qed

text \<open>Every child reported is one fewer to wait for. The end of a main process may start a
  \<open>finish\<close> script, but then one service fewer has a process.\<close>

definition busy :: "service list \<Rightarrow> nat" where
  "busy ss = length (filter (\<lambda>s. pid s > 0) ss)"

lemma busy_update: "i < length ss \<Longrightarrow>
  busy (ss[i := s]) + (if pid (ss ! i) > 0 then 1 else 0) = busy ss + (if pid s > 0 then 1 else 0)"
proof (induction ss arbitrary: i)
  case (Cons t ss)
  then show ?case by (cases i) (auto simp: busy_def)
qed simp

lemma log_exit_waiting: "waiting (snd (log_exit os s w)) = waiting w" "pid (fst (log_exit os s w)) = pid s"
  by (rule waiting_kin) (simp_all add: log_exit_def Let_def)

lemma restart_policy_pid [simp]: "pid (fst (restart_policy os t s w)) = pid s"
  by (simp add: restart_policy_def Let_def)

lemma main_exit_waiting:
  "waiting (snd (snd (main_exit os status t s w))) \<le> waiting w + 1"
  "pid (fst (snd (main_exit os status t s w))) = -1"
proof -
  let ?s = "exit_record status s"
  have "kin_log (snd (exit_log r v)) = kin_log v" "kin_log (snd (restart_policy os t r v)) = kin_log v" for r v
    by (simp_all add: exit_log_def restart_policy_def Let_def)
  then have "kin_log (snd (snd (main_exit os status t s w))) = kin_log (run_finish os ?s w)"
    by (simp add: main_exit_def Let_def split_def)
  then show "waiting (snd (snd (main_exit os status t s w))) \<le> waiting w + 1"
    using waiting_run_finish [of os ?s w] waiting_kin by metis
  show "pid (fst (snd (main_exit os status t s w))) = -1"
    by (simp add: main_exit_def Let_def split_def)
qed

definition to_reap :: "service list \<Rightarrow> world \<Rightarrow> nat" where
  "to_reap ss w = 2 * busy ss + waiting w"

lemma at_log_reap:
  "to_reap (fst (snd (at_first P (\<lambda>s w. (True, log_exit os s w)) ss w)))
     (snd (snd (at_first P (\<lambda>s w. (True, log_exit os s w)) ss w))) = to_reap ss w"
proof (cases "list_all (\<lambda>s. \<not> P s) ss")
  case True
  then show ?thesis by (simp add: at_first_eq)
next
  case False
  let ?i = "length (takeWhile (\<lambda>s. \<not> P s) ss)"
  have "snd (at_first P (\<lambda>s w. (True, log_exit os s w)) ss w) =
      (ss[?i := fst (log_exit os (ss ! ?i) w)], snd (log_exit os (ss ! ?i) w))"
    unfolding at_first_eq if_not_P [OF False] by (simp add: Let_def split_def)
  then show ?thesis
    using busy_update [of ?i ss "fst (log_exit os (ss ! ?i) w)"] first_match [OF False]
    by (simp add: to_reap_def log_exit_waiting split: if_splits)
qed

lemma at_main_reap:
  assumes "p > 0"
  shows "to_reap (fst (snd (at_first (\<lambda>s. active s \<and> pid s = p) (main_exit os status t) ss w)))
    (snd (snd (at_first (\<lambda>s. active s \<and> pid s = p) (main_exit os status t) ss w))) \<le> to_reap ss w"
proof (cases "list_all (\<lambda>s. \<not> (active s \<and> pid s = p)) ss")
  case True
  then show ?thesis by (simp add: at_first_eq)
next
  case False
  let ?i = "length (takeWhile (\<lambda>s. \<not> (active s \<and> pid s = p)) ss)"
  let ?m = "main_exit os status t (ss ! ?i) w"
  have "snd (at_first (\<lambda>s. active s \<and> pid s = p) (main_exit os status t) ss w) =
      (ss[?i := fst (snd ?m)], snd (snd ?m))"
    unfolding at_first_eq if_not_P [OF False] by (simp add: Let_def split_def)
  then show ?thesis
    using busy_update [of ?i ss "fst (snd ?m)"] first_match [OF False] assms
      main_exit_waiting [of os status t "ss ! ?i" w]
    by (simp add: to_reap_def)
qed

lemma reap_turn_progress:
  assumes "waits_for_children os" "reap_turn os need ss w = (True, need', ss', w')"
  shows "to_reap ss' w' < to_reap ss w"
proof -
  obtain p st w1 where wp: "sys_waitpid os (-1) w = ((p, st), w1)" by (metis prod.collapse)
  obtain t w2 where m: "mono_now os w1 = (t, w2)" by (cases "mono_now os w1")
  let ?l = "at_first (\<lambda>s. active s \<and> log_pid s = p) (\<lambda>s w. (True, log_exit os s w)) ss w2"
  obtain h ss3 w3 where l: "?l = (h, ss3, w3)" by (cases ?l)
  let ?f = "at_first (\<lambda>s. active s \<and> pid s = p) (main_exit os st t) ss3 w3"
  obtain b ss4 w4 where f: "?f = (b, ss4, w4)" by (cases ?f)
  have p: "p > 0" and res: "(ss', w') = (if h then (ss3, w3) else (ss4, w4))"
    using assms(2) by (auto simp: reap_turn_def wp m l f split: if_splits)
  have "waiting w1 + 1 = waiting w" by (rule waiting_waitpid [OF assms(1) wp p])
  moreover have "waiting w2 = waiting w1" using waiting_kin [of w2 w1] m by (metis kin_log_calls(9) snd_conv)
  ultimately have "to_reap ss w2 < to_reap ss w" by (simp add: to_reap_def)
  moreover have "to_reap ss3 w3 = to_reap ss w2"
    using at_log_reap [of "\<lambda>s. active s \<and> log_pid s = p" os ss w2] by (simp add: l)
  moreover have "to_reap ss4 w4 \<le> to_reap ss3 w3"
    using at_main_reap [OF p, of os st t ss3 w3] by (simp add: f)
  ultimately show ?thesis using res by (auto split: if_splits)
qed

lemma reaps_total:
  assumes "waits_for_children os"
  shows "\<exists>need' ss' w'. reaps os need ss w need' ss' w'"
proof (induction "to_reap ss w" arbitrary: need ss w rule: less_induct)
  case less
  obtain go need1 ss1 w1 where t: "reap_turn os need ss w = (go, need1, ss1, w1)"
    by (cases "reap_turn os need ss w")
  show ?case
  proof (cases go)
    case False
    with t have "reaps os need ss w need1 ss1 w1" by (intro reaps.last) simp
    then show ?thesis by blast
  next
    case True
    with t have "to_reap ss1 w1 < to_reap ss w" using reap_turn_progress [OF assms] by simp
    from less [OF this] obtain need' ss' w' where r: "reaps os need1 ss1 w1 need' ss' w'" by blast
    from t True have "reap_turn os need ss w = (True, need1, ss1, w1)" by simp
    from reaps.more [OF this r] show ?thesis by blast
  qed
qed

section \<open>The restart policy, field by field\<close>

definition next_restarts :: "int \<Rightarrow> service \<Rightarrow> nat" where
  "next_restarts t s =
     (if wrap_i64 (t - started_at s) > RESTART_WINDOW_S then 0 else wrap_u32 (restarts s + 1))"

lemma restart_policy_sel:
  "stopping (fst (restart_policy os t s w)) = stopping s"
  "last_status (fst (restart_policy os t s w)) = last_status s"
  "exit_code (fst (restart_policy os t s w)) = exit_code s"
  "term_signal (fst (restart_policy os t s w)) = term_signal s"
  "\<not> once (fst (restart_policy os t s w))"
  "restarts (fst (restart_policy os t s w)) = (if stopping s \<or> once s then restarts s else next_restarts t s)"
  "restart_at (fst (restart_policy os t s w)) = (if stopping s \<or> once s \<or> next_restarts t s > 5 then i64_max
     else if next_restarts t s < 5 then wrap_i64 (t + 2) else wrap_i64 (t + 10))"
  "state (fst (restart_policy os t s w)) =
     (if \<not> stopping s \<and> \<not> once s \<and> next_restarts t s > 5 then STATE_FAILED else state s)"
  by (simp_all add: restart_policy_def next_restarts_def Let_def)

lemma exit_log_sel:
  "stopping (fst (exit_log s w)) = stopping s" "last_status (fst (exit_log s w)) = last_status s"
  "exit_code (fst (exit_log s w)) = exit_code s" "term_signal (fst (exit_log s w)) = term_signal s"
  "once (fst (exit_log s w)) = once s" "restarts (fst (exit_log s w)) = restarts s"
  "started_at (fst (exit_log s w)) = started_at s" "state (fst (exit_log s w)) = state s"
  by (simp_all add: exit_log_def Let_def)

lemma exit_record_exit:
  "last_status (exit_record status s) = status"
  "(state (exit_record status s), exit_code (exit_record status s), term_signal (exit_record status s)) =
     decode_wait_status status"
  by (simp_all add: exit_record_def Let_def split_def)

lemma main_exit_policy: "\<exists>v. fst (snd (main_exit os status t s w)) =
  fst (restart_policy os t (fst (exit_log (exit_record status s) v)) (snd (exit_log (exit_record status s) v)))"
  by (rule exI [of _ "supervisor_log os (exit_message (exit_record status s))
       (supervisor_log os (name_bytes (exit_record status s))
         (supervisor_log os ''service exited: '' (run_finish os (exit_record status s) w)))"])
    (simp add: main_exit_def Let_def split_def)

section \<open>Claims\<close>

text \<open>C7. The loop over \<open>waitpid\<close> ends: when \<open>waitpid\<close> reports only children, each of them once,
  \<open>reap_children\<close> returns, although the end of a service may create a \<open>finish\<close> script that has to
  be waited for in turn.\<close>

theorem reap_children_returns:
  assumes "waits_for_children os"
  shows "\<exists>ss w'. reap_children os services w = Some (ss, w')"
proof -
  obtain need ss1 w1 where "reaps os False services w need ss1 w1" using reaps_total [OF assms] by blast
  then have "reap_loop os False services w = Some (need, ss1, w1)" by (simp add: reap_loop_iff)
  then show ?thesis by (simp add: reap_children_def Let_def split_def)
qed

text \<open>C8. When the main process of a service ends, its exit is recorded and the next start is
  decided. A service told to stop, or one that runs once, is not due again; otherwise it is due
  after two seconds, after ten from the fifth quick end in a row, and at the sixth it has failed
  and is not due again. A run of more than a minute resets the count. The delay of sixty seconds
  for twenty restarts is never used.\<close>

theorem restart_decision:
  assumes "0 \<le> started_at s" "started_at s \<le> t" "t \<le> 4611686018427387904" "restarts s < u32_max"
  shows "(let s' = fst (snd (main_exit os status t s w));
      n = (if t - started_at s > RESTART_WINDOW_S then 0 else restarts s + 1)
    in pid s' = -1 \<and> last_status s' = status \<and>
       (state s', exit_code s', term_signal s') =
         (if \<not> stopping s \<and> \<not> once s \<and> n > 5 then (STATE_FAILED, snd (decode_wait_status status))
          else decode_wait_status status) \<and>
       stopping s' = stopping s \<and> \<not> once s' \<and>
       (if stopping s \<or> once s then restart_at s' = i64_max \<and> restarts s' = restarts s
        else restarts s' = n \<and>
          restart_at s' = (if n > 5 then i64_max else if n < 5 then t + 2 else t + 10)))"
proof -
  let ?r = "exit_record status s"
  obtain v where v: "fst (snd (main_exit os status t s w)) =
      fst (restart_policy os t (fst (exit_log ?r v)) (snd (exit_log ?r v)))"
    using main_exit_policy by blast
  have n: "next_restarts t (fst (exit_log ?r v)) =
      (if t - started_at s > RESTART_WINDOW_S then 0 else restarts s + 1)"
    using assms by (simp add: next_restarts_def exit_log_sel wrap_i64_id wrap_u32_id in_i64_def)
  have w: "wrap_i64 (t + 2) = t + 2" "wrap_i64 (t + 10) = t + 10"
    using assms by (simp_all add: wrap_i64_id in_i64_def)
  show ?thesis
    unfolding v Let_def restart_policy_sel n w exit_log_sel
    using exit_record_exit [of status s]
    by (cases "decode_wait_status status") (simp add: exit_log_sel restart_policy_sel(5))
qed

text \<open>A kernel that reports process 7 with exit code 1, once for every child created.\<close>

definition os_reports :: os where
  "os_reports = os_idle\<lparr>os_waitpid := \<lambda>tr q. if deaths tr < births tr then (7, 256) else (0, 0)\<rparr>"

theorem reap_children_returns_witness:
  "\<exists>ss w'. reap_children os_reports ex_gone (world_forked 7) = Some (ss, w')"
proof -
  have "waits_for_children os_reports" by (simp add: waits_for_children_def os_reports_def wrap_i32_def)
  then show ?thesis by (rule reap_children_returns)
qed

theorem restart_decision_witness:
  "\<forall>os w. restart_at (fst (snd (main_exit os 256 100 (ex_service ''db'' 7 1) w))) = 102"
proof (intro allI)
  fix os and w :: world
  show "restart_at (fst (snd (main_exit os 256 100 (ex_service ''db'' 7 1) w))) = 102"
    using restart_decision [of "ex_service ''db'' 7 1" 100 os 256 w] by (simp add: Let_def)
qed

end
