(* ===== verification/Main_Loop.thy ===== *)
theory Main_Loop
  imports Reap
begin

text \<open>
  \<open>main\<close> of \<open>src/main.rs\<close>: the setup, one pass of the loop as the function \<open>main_pass\<close> (reaping,
  scanning, starting, polling, dispatching), the loop over it, and the shutdown. A pass that does
  not return (a pipe that never runs dry) is \<open>None\<close>. \<open>reachable\<close> is the inductive relation of the
  states between passes, over which the invariants of the supervisor are proved.
\<close>

section \<open>Starting services\<close>

text \<open>What is kept between passes.\<close>

record sup =
  table :: "service list"
  next_scan :: int
  reload_needed :: bool

text \<open>The test of the start loop, on the time read at the beginning of the pass.\<close>

definition due :: "int \<Rightarrow> service \<Rightarrow> bool" where
  "due t s \<longleftrightarrow> (active s \<and> present s \<and> \<not> stopping s \<and> pid s \<le> 0 \<and> t \<ge> restart_at s) \<and>
     (manual_start s \<or> auto_start s \<and> \<not> once s)"

definition start_one :: "os \<Rightarrow> int \<Rightarrow> nat \<Rightarrow> service list \<times> world \<Rightarrow> service list \<times> world" where
  "start_one os t i st =
     (case st of (services, w) \<Rightarrow>
        let svc = services ! i
        in if due t svc
           then if \<not> deps_satisfied svc services
                then let (now, w) = mono_now os w
                     in (services[i := svc\<lparr>restart_at := wrap_i64 (now + 1)\<rparr>], w)
                else let (s, w) = start_service os svc w in (services[i := s], w)
           else (services, w))"

definition start_phase :: "os \<Rightarrow> int \<Rightarrow> service list \<Rightarrow> world \<Rightarrow> service list \<times> world" where
  "start_phase os t services w = fold (start_one os t) [0..<MAX_SERVICES] (services, w)"

definition scan_phase :: "os \<Rightarrow> cstrbuf \<Rightarrow> int \<Rightarrow> sup \<Rightarrow> world \<Rightarrow> sup \<times> world" where
  "scan_phase os root t st w =
     (if t \<ge> next_scan st \<or> reload_needed st
      then let (found, services, w) = scan_services os root (table st) w;
               (services, w) = (if found then handle_missing_services os services w else (services, w));
               st = st\<lparr>table := services\<rparr>;
               st = st\<lparr>next_scan := wrap_i64 (t + 15)\<rparr>;
               st = st\<lparr>reload_needed := False\<rparr>
           in (st, supervisor_log os ''configuration reloaded'' w)
      else (st, w))"

section \<open>Polling\<close>

text \<open>A slot of the arrays \<open>pfds\<close>, \<open>map_service\<close>, \<open>map_stream\<close>: the first \<open>n\<close> slots are a list.\<close>

record poll_slot =
  poll_fd :: int
  map_service :: nat
  map_stream :: nat

definition add_stream :: "service list \<Rightarrow> nat \<Rightarrow> nat \<Rightarrow> poll_slot list \<Rightarrow> poll_slot list" where
  "add_stream services i strm ps =
     (if read_fd (streams (services ! i) ! strm) \<ge> 0
      then ps @ [\<lparr>poll_fd = read_fd (streams (services ! i) ! strm), map_service = i, map_stream = strm\<rparr>]
      else ps)"

definition add_streams :: "service list \<Rightarrow> nat \<Rightarrow> poll_slot list \<Rightarrow> poll_slot list" where
  "add_streams services i ps =
     (if active (services ! i) then fold (add_stream services i) [0..<2] ps else ps)"

definition poll_slots :: "int \<Rightarrow> int \<Rightarrow> service list \<Rightarrow> nat \<times> nat \<times> poll_slot list" where
  "poll_slots sig_fd ctrl_fd services =
     (let ps = [];
          (sig_idx, ps) = (if sig_fd \<ge> 0
             then (length ps, ps @ [\<lparr>poll_fd = sig_fd, map_service = 0, map_stream = 0\<rparr>])
             else (usize_max, ps));
          (ctrl_idx, ps) = (if ctrl_fd \<ge> 0
             then (length ps, ps @ [\<lparr>poll_fd = ctrl_fd, map_service = 0, map_stream = 0\<rparr>])
             else (usize_max, ps))
      in (sig_idx, ctrl_idx, fold (add_streams services) [0..<MAX_SERVICES] ps))"

text \<open>\<open>POLLIN | POLLHUP | POLLERR\<close> is 25; \<open>poll\<close> answers with the \<open>revents\<close> of the slots.\<close>

definition is_ready :: "nat list \<Rightarrow> nat \<Rightarrow> bool" where
  "is_ready revents j \<longleftrightarrow> j < length revents \<and> (revents ! j) AND 25 \<noteq> 0"

definition sys_poll :: "os \<Rightarrow> int list \<Rightarrow> world \<Rightarrow> poll_result \<times> world" where
  "sys_poll os fds w = (os_poll os (trace w) fds, emit (EAsk (QPoll fds POLL_TIMEOUT_MS)) w)"

section \<open>Dispatching\<close>

definition accept_client :: "os \<Rightarrow> int \<Rightarrow> service list \<Rightarrow> world \<Rightarrow> service list \<times> world" where
  "accept_client os ctrl_fd services w =
     (let client = os_accept os (trace w) ctrl_fd;
          w = emit (EAsk (QAccept ctrl_fd client)) w
      in if client \<ge> 0
         then let w = snd (set_cloexec os client w);
                  (nr, w) = read_all_nonblock os client CMD_BUF w;
                  (services, w) = (if rd_data nr \<noteq> []
                     then handle_control_command os client (rd_data nr) services w
                     else (services, w))
              in (services, close_fd os client w)
         else (services, w))"

text \<open>The signal slot: whether to shut down, and the new state.\<close>

definition on_signal :: "os \<Rightarrow> int \<Rightarrow> sup \<Rightarrow> world \<Rightarrow> (bool \<times> sup \<times> world) option" where
  "on_signal os sig_fd st w =
     Option.bind (drain_signal_pipe os sig_fd w) (\<lambda>(sig, w).
       Some (case sig of
           None \<Rightarrow> (False, st, w)
         | Some sig \<Rightarrow>
             if sig = SIGTERM \<or> sig = SIGINT then (True, st, w)
             else if sig = SIGHUP then (False, st\<lparr>reload_needed := True\<rparr>, w)
             else (False, st, w)))"

definition dispatch_slot :: "os \<Rightarrow> int \<Rightarrow> int \<Rightarrow> nat \<Rightarrow> nat \<Rightarrow> poll_slot list \<Rightarrow> nat \<Rightarrow> sup \<Rightarrow> world \<Rightarrow>
    (bool \<times> sup \<times> world) option" where
  "dispatch_slot os sig_fd ctrl_fd sig_idx ctrl_idx ps j st w =
     (if j = sig_idx then on_signal os sig_fd st w
      else if j = ctrl_idx
           then let (services, w) = accept_client os ctrl_fd (table st) w
                in Some (False, st\<lparr>table := services\<rparr>, w)
           else let idx = map_service (ps ! j);
                    strm = map_stream (ps ! j)
                in Option.bind (drain_stream os strm (table st ! idx) w) (\<lambda>(s, w).
                     Some (False, st\<lparr>table := (table st)[idx := s]\<rparr>, w)))"

fun dispatch :: "os \<Rightarrow> int \<Rightarrow> int \<Rightarrow> nat \<Rightarrow> nat \<Rightarrow> poll_slot list \<Rightarrow> nat list \<Rightarrow> nat list \<Rightarrow> sup \<Rightarrow> world \<Rightarrow>
    (bool \<times> sup \<times> world) option" where
  "dispatch os sig_fd ctrl_fd sig_idx ctrl_idx ps revents [] st w = Some (False, st, w)"
| "dispatch os sig_fd ctrl_fd sig_idx ctrl_idx ps revents (j # js) st w =
     (if is_ready revents j
      then Option.bind (dispatch_slot os sig_fd ctrl_fd sig_idx ctrl_idx ps j st w) (\<lambda>(stop, st, w).
             if stop then Some (True, st, w)
             else dispatch os sig_fd ctrl_fd sig_idx ctrl_idx ps revents js st w)
      else dispatch os sig_fd ctrl_fd sig_idx ctrl_idx ps revents js st w)"

definition poll_phase :: "os \<Rightarrow> int \<Rightarrow> int \<Rightarrow> sup \<Rightarrow> world \<Rightarrow> (bool \<times> sup \<times> world) option" where
  "poll_phase os sig_fd ctrl_fd st w =
     (let (sig_idx, ctrl_idx, ps) = poll_slots sig_fd ctrl_fd (table st);
          (r, w) = sys_poll os (map poll_fd ps) w
      in case r of
           PollEintr \<Rightarrow> Some (False, st, w)
         | PollFail \<Rightarrow> Some (False, st, sleep_ms os 50 w)
         | PollReady revents \<Rightarrow>
             dispatch os sig_fd ctrl_fd sig_idx ctrl_idx ps revents [0..<length ps] st w)"

text \<open>One pass of the loop: whether to shut down, and the state for the next pass.\<close>

definition main_pass :: "os \<Rightarrow> cstrbuf \<Rightarrow> int \<Rightarrow> int \<Rightarrow> sup \<Rightarrow> world \<Rightarrow> (bool \<times> sup \<times> world) option" where
  "main_pass os root sig_fd ctrl_fd st w =
     Option.bind (reap_children os (table st) w) (\<lambda>(services, w).
       let st = st\<lparr>table := services\<rparr>;
           (t, w) = mono_now os w;
           (st, w) = scan_phase os root t st w;
           (services, w) = start_phase os t (table st) w;
           st = st\<lparr>table := services\<rparr>
       in poll_phase os sig_fd ctrl_fd st w)"

partial_function (option) main_loop ::
    "os \<Rightarrow> cstrbuf \<Rightarrow> int \<Rightarrow> int \<Rightarrow> sup \<Rightarrow> world \<Rightarrow> (sup \<times> world) option" where
  "main_loop os root sig_fd ctrl_fd st w =
     (case main_pass os root sig_fd ctrl_fd st w of
        None \<Rightarrow> None
      | Some (stop, st', w') \<Rightarrow>
          if stop then Some (st', w') else main_loop os root sig_fd ctrl_fd st' w')"

section \<open>Setup and shutdown\<close>

text \<open>The directory: the first argument, or \<open>/etc/svc\<close> when there is none or it is empty.\<close>

definition main_root :: "bytes option \<Rightarrow> cstrbuf" where
  "main_root arg =
     (let root = (case arg of None \<Rightarrow> cs_new | Some a \<Rightarrow> cs_push (c_read a) cs_new)
      in if cs_len root = 0 then cs_push ''/etc/svc'' root else root)"

definition main_setup :: "os \<Rightarrow> bytes option \<Rightarrow> world \<Rightarrow> int \<times> int \<times> sup \<times> world" where
  "main_setup os arg w =
     (let w = setup_call (SSigIgn SIGPIPE) w;
          w = ensure_stdio os w;
          root = main_root arg;
          w = supervisor_log_init os w;
          w = supervisor_log os ''svc-rs starting'' w;
          (sig_fd, w) = init_signal_pipe os w;
          w = (if sig_fd \<ge> 0 then install_signal_handlers w else w);
          (ctrl_fd, w) = create_control_socket os root w;
          (now, w) = mono_now os w
      in (sig_fd, ctrl_fd, \<lparr>table = table_start, next_scan = now, reload_needed = False\<rparr>, w))"

text \<open>The two waiting loops of the shutdown.\<close>

definition wait_turn :: "os \<Rightarrow> int \<Rightarrow> int \<Rightarrow> service list \<Rightarrow> world \<Rightarrow> (bool \<times> service list \<times> world) option" where
  "wait_turn os deadline ms services w =
     Option.bind (reap_children os services w) (\<lambda>(services, w).
       Option.bind (drain_all_once os services w) (\<lambda>(services, w).
         Some (if \<not> any_open_services services then (False, services, w)
               else let (now, w) = mono_now os w
                    in if now \<ge> deadline then (False, services, w)
                       else (True, services, sleep_ms os ms w))))"

partial_function (option) wait_loop ::
    "os \<Rightarrow> int \<Rightarrow> int \<Rightarrow> service list \<Rightarrow> world \<Rightarrow> (service list \<times> world) option" where
  "wait_loop os deadline ms services w =
     (case wait_turn os deadline ms services w of
        None \<Rightarrow> None
      | Some (go, services', w') \<Rightarrow>
          if go then wait_loop os deadline ms services' w' else Some (services', w'))"

definition kill_hard :: "os \<Rightarrow> service \<Rightarrow> world \<Rightarrow> service \<times> world" where
  "kill_hard os s w =
     (let w = (if active s \<and> pid s > 0 then sys_kill (- pid s) SIGKILL w else w);
          w = (if active s \<and> log_pid s > 0 then sys_kill (log_pid s) SIGKILL w else w)
      in (s, w))"

definition final_close :: "os \<Rightarrow> service \<Rightarrow> world \<Rightarrow> service \<times> world" where
  "final_close os s w =
     (if active s
      then let (s, w) = close_service_fds os s w;
               s = s\<lparr>pid := -1\<rparr>;
               s = s\<lparr>log_pid := -1\<rparr>;
               s = s\<lparr>state := STATE_DOWN\<rparr>;
               s = s\<lparr>log_state := STATE_DOWN\<rparr>
           in (s, write_status_file os s w)
      else (s, w))"

definition main_cleanup :: "os \<Rightarrow> cstrbuf \<Rightarrow> int \<Rightarrow> world \<Rightarrow> world" where
  "main_cleanup os root ctrl_fd w =
     (let w = close_fd os ctrl_fd w;
          sock_path = cs_push SOCK_SUFFIX (cs_from_bytes (cs_bytes root));
          w = emit (EUnlink (cs_cstr sock_path)) w
      in close_fd os (SUPERVISOR_LOG_FD w) w)"

definition main_shutdown :: "os \<Rightarrow> cstrbuf \<Rightarrow> int \<Rightarrow> service list \<Rightarrow> world \<Rightarrow> (service list \<times> world) option" where
  "main_shutdown os root ctrl_fd services w =
     (let w = supervisor_log os ''shutting down services'' w;
          (services, w) = stop_all_in_order os services w;
          (now, w) = mono_now os w
      in Option.bind (wait_loop os (wrap_i64 (now + SHUTDOWN_TIMEOUT_S)) 100 services w) (\<lambda>(services, w).
           let (services, w) = each (kill_hard os) services w;
               (now, w) = mono_now os w
           in Option.bind (wait_loop os (wrap_i64 (now + 2)) 50 services w) (\<lambda>(services, w).
                let (services, w) = each (final_close os) services w;
                    w = supervisor_log os ''shutdown complete'' w
                in Some (services, main_cleanup os root ctrl_fd w))))"

definition main_program :: "os \<Rightarrow> bytes option \<Rightarrow> world \<Rightarrow> (service list \<times> world) option" where
  "main_program os arg w =
     (let (sig_fd, ctrl_fd, st, w) = main_setup os arg w
      in Option.bind (main_loop os (main_root arg) sig_fd ctrl_fd st w) (\<lambda>(st, w).
           main_shutdown os (main_root arg) ctrl_fd (table st) w))"

section \<open>The start phase\<close>

definition postpone :: "os \<Rightarrow> service \<Rightarrow> world \<Rightarrow> service \<times> world" where
  "postpone os s w = (let (now, w) = mono_now os w in (s\<lparr>restart_at := wrap_i64 (now + 1)\<rparr>, w))"

interpretation postponing: service_step postpone
proof unfold_locales
  fix os s and w :: world
  assume ok: "svc_ok w s"
  have "svc_ok (snd (mono_now os w)) s" by (rule svc_ok_mono [OF _ ok]) simp
  then show "svc_ok (snd (postpone os s w)) (fst (postpone os s w))"
    using svc_ok_wf [OF ok] unfolding postpone_def Let_def split_def
    by (simp add: svc_ok_fields wrap_i64_in)
  show "kills_ok w \<Longrightarrow> kills_ok (snd (postpone os s w))"
    by (rule kills_ok_silent) (simp_all add: postpone_def Let_def split_def)
qed (simp_all add: postpone_def Let_def split_def)

lemma start_one_eq: "start_one os t i (services, w) =
  (if due t (services ! i)
   then let step = (if deps_satisfied (services ! i) services then start_service os else postpone os)
        in (services[i := fst (step (services ! i) w)], snd (step (services ! i) w))
   else (services, w))"
  by (simp add: start_one_def postpone_def Let_def split_def)

lemma start_one_ok:
  assumes "sys_ok services w" "i < length services"
  shows "table_ok services (start_one os t i (services, w))"
  using start.at_ok [OF assms] start.at_ids [OF assms] postponing.at_ok [OF assms]
    postponing.at_ids [OF assms] assms(1)
  by (simp add: start_one_eq table_ok_def Let_def)

text \<open>A service that runs already is left alone, so what runs stays up for the rest of the phase.\<close>

lemma start_one_running:
  assumes "sys_ok services w" "i < length services" "k < length services"
    "state (services ! k) = STATE_RUNNING"
  shows "fst (start_one os t i (services, w)) ! k = services ! k"
proof -
  have "pid (services ! k) > 0"
    using sys_ok_nth [OF assms(1,3)] assms(4) by (simp add: svc_ok_def svc_inv_def)
  then have "\<not> due t (services ! k)" by (simp add: due_def)
  then show ?thesis by (cases "k = i") (simp_all add: start_one_eq Let_def)
qed

lemma start_one_up:
  assumes "sys_ok services w" "i < length services" "is_up services nm"
  shows "is_up (fst (start_one os t i (services, w))) nm"
proof -
  let ?ss = "fst (start_one os t i (services, w))" and ?k = "find_service_by_name services nm"
  note tab = start_one_ok [OF assms(1,2), of os t]
  have len: "length services < usize_max" "length ?ss = length services"
    using assms(1) tab ids_length [of ?ss services] by (simp_all add: sys_ok_def table_ok_def)
  have same: "find_service_by_name ?ss nm = ?k"
  proof (rule by_name.cong [OF len])
    fix j assume "j < length services"
    from ids_nth [OF _ this, of ?ss] tab
    show "(active (?ss ! j) \<and> name_bytes (?ss ! j) = nm) = (active (services ! j) \<and> name_bytes (services ! j) = nm)"
      by (auto simp: table_ok_def)
  qed
  have up: "?k \<noteq> usize_max" "state (services ! ?k) = STATE_RUNNING"
    using assms(3) by (simp_all add: is_up_def Let_def)
  then have "?k < length services" using by_name.found [OF len(1)] by blast
  from start_one_running [OF assms(1,2) this up(2), of os t] same up show ?thesis
    by (simp add: is_up_def Let_def)
qed

text \<open>The entries after the first \<open>n\<close> turns.\<close>

definition started_right :: "int \<Rightarrow> service list \<Rightarrow> service list \<Rightarrow> nat \<Rightarrow> bool" where
  "started_right t ss0 ss i \<longleftrightarrow>
     (if pid (ss0 ! i) \<le> 0 \<and> pid (ss ! i) > 0
      then due t (ss0 ! i) \<and> (\<forall>nm \<in> set (hard_deps (ss ! i)). is_up ss nm) \<and>
           state (ss ! i) = STATE_RUNNING
      else True)"

lemma hard_deps_same: "same_id s s' \<Longrightarrow> hard_deps s' = hard_deps s"
  by (simp add: same_id_def hard_deps_def)

lemma deps_ok_iff: "deps_satisfied s ss \<longleftrightarrow> (\<forall>nm \<in> set (hard_deps s). is_up ss nm)"
  by (rule deps_satisfied_iff)

lemma start_phase_inv:
  assumes "sys_ok services w" "n \<le> length services"
    "fold (start_one os t) [0..<n] (services, w) = (ss, w')"
  shows "table_ok services (ss, w') \<and> (\<forall>i. n \<le> i \<longrightarrow> ss ! i = services ! i) \<and>
    (\<forall>i < n. started_right t services ss i)"
  using assms(2,3)
proof (induction n arbitrary: ss w')
  case 0
  then show ?case using assms(1) by (simp add: table_ok_def)
next
  case (Suc n)
  obtain ss1 w1 where 1: "fold (start_one os t) [0..<n] (services, w) = (ss1, w1)"
    by (cases "fold (start_one os t) [0..<n] (services, w)")
  have IH: "table_ok services (ss1, w1)" "\<forall>i. n \<le> i \<longrightarrow> ss1 ! i = services ! i"
    "\<forall>i < n. started_right t services ss1 i"
    using Suc.IH [OF _ 1] Suc.prems(1) by simp_all
  have ok1: "sys_ok ss1 w1" and n: "n < length ss1"
    using IH(1) ids_length [of ss1 services] Suc.prems(1) by (auto simp: table_ok_def)
  have step: "start_one os t n (ss1, w1) = (ss, w')" using Suc.prems(2) 1 by simp
  note tab = start_one_ok [OF ok1 n, of os t, unfolded step]
  have up: "is_up ss nm" if "is_up ss1 nm" for nm using start_one_up [OF ok1 n that, of os t] step by simp
  have keep: "ss ! i = ss1 ! i" if "i \<noteq> n" for i
    using step that by (auto simp: start_one_eq Let_def split: if_splits)
  have old: "started_right t services ss i" if "i < n" for i
    using IH(3) that keep [of i] up unfolding started_right_def by (auto split: if_splits)
  moreover have "started_right t services ss n"
  proof (cases "due t (ss1 ! n) \<and> deps_satisfied (ss1 ! n) ss1")
    case True
    let ?r = "start_service os (ss1 ! n) w1"
    have ss: "ss ! n = fst ?r" using step True n by (auto simp: start_one_eq Let_def)
    have go: "\<not> refuses (ss1 ! n)" using True by (auto simp: due_def refuses_def)
    note out = start_service_both [OF sys_ok_nth [OF ok1 n] go, of os]
    have "hard_deps (fst ?r) = hard_deps (ss1 ! n)"
      using out by (intro hard_deps_same) (simp add: start_step_def)
    moreover have "\<forall>nm \<in> set (hard_deps (ss1 ! n)). is_up ss nm"
      using True up by (simp add: deps_ok_iff)
    moreover have "pid (fst ?r) > 0 \<Longrightarrow> state (fst ?r) = STATE_RUNNING"
      using out by (auto simp: start_outcome_def)
    ultimately show ?thesis using True IH(2) by (simp add: started_right_def ss)
  next
    case False
    then have "pid (ss ! n) = pid (ss1 ! n)"
      using step n by (auto simp: start_one_eq Let_def postpone_def split_def split: if_splits)
    then have "\<not> (pid (services ! n) \<le> 0 \<and> pid (ss ! n) > 0)" using IH(2) by simp
    then show ?thesis unfolding started_right_def by (subst if_not_P) simp_all
  qed
  ultimately have "\<forall>i < Suc n. started_right t services ss i" by (simp add: less_Suc_eq)
  then show ?case using tab IH(1,2) keep by (simp add: table_ok_def)
qed

lemma start_phase_ok:
  assumes "sys_ok services w"
  shows "table_ok services (start_phase os t services w)"
proof -
  obtain ss w' where r: "fold (start_one os t) [0..<MAX_SERVICES] (services, w) = (ss, w')"
    by (cases "fold (start_one os t) [0..<MAX_SERVICES] (services, w)")
  have "MAX_SERVICES \<le> length services" using assms by (simp add: sys_ok_def)
  from start_phase_inv [OF assms this r] show ?thesis by (simp add: start_phase_def r)
qed

section \<open>A pass keeps the invariant\<close>

definition sup_inv :: "sup \<Rightarrow> world \<Rightarrow> bool" where
  "sup_inv st w \<longleftrightarrow> sys_ok (table st) w \<and> dirs_distinct (table st)"

lemma sup_invI: "table_ok (table st) (ss, w') \<Longrightarrow> sup_inv st w \<Longrightarrow> table st' = ss \<Longrightarrow> sup_inv st' w'"
  using dirs_distinct_ids [of ss "table st"] by (simp add: sup_inv_def table_ok_def)

lemma sup_inv_mono: "sup_inv st w \<Longrightarrow> extends w w' \<Longrightarrow> kill_log w' = kill_log w \<Longrightarrow>
  table st' = table st \<Longrightarrow> sup_inv st' w'"
  using sys_ok_mono [of "table st" w w'] by (simp add: sup_inv_def)

lemma scan_phase_inv:
  assumes "sup_inv st w"
  shows "sup_inv (fst (scan_phase os root t st w)) (snd (scan_phase os root t st w))"
proof -
  obtain found ss w1 where s: "scan_services os root (table st) w = (found, ss, w1)"
    by (metis prod.collapse)
  let ?m = "if found then handle_missing_services os ss w1 else (ss, w1)"
  have ok: "sys_ok ss w1" "dirs_distinct ss"
    using scan_services_ok [OF _ s] scan_services_distinct [OF _ _ s] assms by (simp_all add: sup_inv_def)
  have m: "sys_ok (fst ?m) (snd ?m)" "dirs_distinct (fst ?m)"
    using ok handle_missing_ok [OF ok(1) prod.collapse [symmetric]]
      handle_missing_distinct [OF ok prod.collapse [symmetric]]
    by (cases found; simp)+
  have "sys_ok (fst ?m) (supervisor_log os msg (snd ?m))" for msg by (rule sys_ok_mono [OF m(1)]) simp_all
  then show ?thesis
    using assms m(2) by (cases found) (simp_all add: scan_phase_def s Let_def split_def sup_inv_def)
qed

lemma drain_signal_frame:
  assumes "drain_signal_pipe os fd w = Some (sig, w')"
  shows "extends w w' \<and> kill_log w' = kill_log w"
proof -
  have "extends w (snd r) \<and> kill_log (snd r) = kill_log w" if "drain_signal_pipe os fd w = Some r" for r
    using that
  proof (rule drain_signal_pipe.raw_induct
      [where P = "\<lambda>os fd w r. extends w (snd r) \<and> kill_log (snd r) = kill_log w", rotated])
    fix drain os fd w r
    assume IH: "\<And>os fd w r. drain os fd w = Some r \<Longrightarrow> extends w (snd r) \<and> kill_log (snd r) = kill_log w"
      and eq: "(case sys_read os fd 64 w of (r, w) \<Rightarrow>
          (if rd_data r = [] then Some (None, w)
           else case find_signal (rd_data r) of Some s \<Rightarrow> Some (Some s, w) | None \<Rightarrow> drain os fd w)) = Some r"
    have one: "extends w (snd (sys_read os fd 64 w))" by (simp add: sys_read_def)
    show "extends w (snd r) \<and> kill_log (snd r) = kill_log w"
      using eq IH [of os fd "snd (sys_read os fd 64 w)" r] one extends_trans [OF one]
      by (auto simp: split_def split: if_splits option.splits)
  qed
  from this [OF assms] show ?thesis by simp
qed

lemma on_signal_inv:
  assumes "sup_inv st w" "on_signal os fd st w = Some (stop, st', w')"
  shows "sup_inv st' w'"
proof -
  obtain sig where d: "drain_signal_pipe os fd w = Some (sig, w')" and "table st' = table st"
    using assms(2) by (auto simp: on_signal_def bind_eq_Some_conv split: option.splits if_splits)
  then show ?thesis using sup_inv_mono [OF assms(1)] drain_signal_frame [OF d] by simp
qed

lemma accept_client_ok:
  assumes "sys_ok services w"
  shows "table_ok services (accept_client os fd services w)"
proof -
  let ?c = "os_accept os (trace w) fd"
  let ?r = "read_all_nonblock os ?c CMD_BUF (snd (set_cloexec os ?c (emit (EAsk (QAccept fd ?c)) w)))"
  have r: "sys_ok services (snd ?r)" by (rule sys_ok_mono [OF assms]) simp_all
  note h = handle_control_ok [OF r, of os ?c "rd_data (fst ?r)"]
  have close: "table_ok services (ss, close_fd os ?c v)" if "table_ok services (ss, v)" for ss v
    using that sys_ok_mono [of ss v "close_fd os ?c v"] by (simp add: table_ok_def)
  have "sys_ok services (emit (EAsk (QAccept fd ?c)) w)" by (rule sys_ok_mono [OF assms]) simp_all
  then show ?thesis
    using close [of "fst (handle_control_command os ?c (rd_data (fst ?r)) services (snd ?r))"
        "snd (handle_control_command os ?c (rd_data (fst ?r)) services (snd ?r))"] h
      close [of services "snd ?r"] r
    by (simp add: accept_client_def Let_def split_def table_ok_pair)
qed

section \<open>The poll slots\<close>

definition slot_ok :: "poll_slot \<Rightarrow> bool" where
  "slot_ok p \<longleftrightarrow> map_service p < MAX_SERVICES \<and> map_stream p < 2"

lemma add_stream_bound:
  "list_all slot_ok ps \<Longrightarrow> i < MAX_SERVICES \<Longrightarrow> strm < 2 \<Longrightarrow>
   list_all slot_ok (add_stream services i strm ps) \<and>
   length (add_stream services i strm ps) \<le> length ps + 1"
  by (simp add: add_stream_def slot_ok_def)

lemma add_streams_bound:
  assumes "list_all slot_ok ps" "i < MAX_SERVICES"
  shows "list_all slot_ok (add_streams services i ps) \<and>
    length (add_streams services i ps) \<le> length ps + 2"
proof -
  have two: "[0..<2::nat] = [0, 1]" by (simp add: upt_rec)
  note a = add_stream_bound [OF assms, of 0 services]
  note b = add_stream_bound [of "add_stream services i 0 ps" i 1 services]
  show ?thesis using a b assms by (simp add: add_streams_def two)
qed

lemma fold_streams_bound:
  "list_all slot_ok ps \<Longrightarrow> n \<le> MAX_SERVICES \<Longrightarrow>
   list_all slot_ok (fold (add_streams services) [0..<n] ps) \<and>
   length (fold (add_streams services) [0..<n] ps) \<le> length ps + 2 * n"
proof (induction n)
  case (Suc n)
  then show ?case
    using add_streams_bound [of "fold (add_streams services) [0..<n] ps" n services] by simp
qed simp

lemma poll_slots_bound:
  assumes "poll_slots sig_fd ctrl_fd services = (si, ci, ps)"
  shows "list_all slot_ok ps" "length ps \<le> MAX_POLL_FDS"
proof -
  obtain p0 where p0: "list_all slot_ok p0" "length p0 \<le> 2"
    "ps = fold (add_streams services) [0..<MAX_SERVICES] p0"
    by (rule that [of "(if sig_fd \<ge> 0 then [\<lparr>poll_fd = sig_fd, map_service = 0, map_stream = 0\<rparr>] else []) @
        (if ctrl_fd \<ge> 0 then [\<lparr>poll_fd = ctrl_fd, map_service = 0, map_stream = 0\<rparr>] else [])"])
      (use assms in \<open>auto simp: poll_slots_def Let_def slot_ok_def split: if_splits\<close>)
  from fold_streams_bound [OF p0(1), of MAX_SERVICES services] p0(2,3)
  show "list_all slot_ok ps" "length ps \<le> MAX_POLL_FDS" by simp_all
qed

section \<open>Dispatching keeps the invariant\<close>

lemma dispatch_slot_inv:
  assumes inv: "sup_inv st w" and ps: "list_all slot_ok ps" "j < length ps"
    and res: "dispatch_slot os sf cf si ci ps j st w = Some (stop, st', w')"
  shows "sup_inv st' w'"
proof -
  let ?i = "map_service (ps ! j)" and ?s = "map_stream (ps ! j)"
  consider (sig) "on_signal os sf st w = Some (stop, st', w')"
    | (ctl) "st' = st\<lparr>table := fst (accept_client os cf (table st) w)\<rparr>" "w' = snd (accept_client os cf (table st) w)"
    | (drain) s where "drain_stream os ?s (table st ! ?i) w = Some (s, w')" "st' = st\<lparr>table := (table st)[?i := s]\<rparr>"
    using res by (auto simp: dispatch_slot_def Let_def split_def bind_eq_Some_conv split: if_splits)
  then show ?thesis
  proof cases
    case sig
    then show ?thesis by (rule on_signal_inv [OF inv])
  next
    case ctl
    have "sys_ok (table st) w" using inv by (simp add: sup_inv_def)
    from accept_client_ok [OF this, of os cf] ctl show ?thesis
      by (intro sup_invI [of st "fst (accept_client os cf (table st) w)", OF _ inv]) simp_all
  next
    case drain
    note f = drain_stream_frame [OF drain(1)]
    note k = stream_only_keeps [OF f(1)]
    have ok: "sys_ok (table st) w" using inv by (simp add: sup_inv_def)
    have i: "?i < length (table st)"
      using ps ok by (auto simp: list_all_length slot_ok_def sys_ok_def)
    have "svc_ok w' s" unfolding k(1) by (rule svc_ok_mono [OF f(2) sys_ok_nth [OF ok i]])
    then have "sys_ok ((table st)[?i := s]) w'"
      using sys_ok_update [OF ok f(2)] kills_ok_silent [OF _ f(2,3)] ok by (simp add: sys_ok_def)
    moreover have "ids ((table st)[?i := s]) = ids (table st)" by (rule ids_update) (rule k)+
    ultimately show ?thesis using drain(2) by (intro sup_invI [OF _ inv]) (simp_all add: table_ok_def)
  qed
qed

lemma dispatch_inv:
  "sup_inv st w \<Longrightarrow> list_all slot_ok ps \<Longrightarrow> \<forall>j \<in> set js. j < length ps \<Longrightarrow>
   dispatch os sf cf si ci ps revents js st w = Some (stop, st', w') \<Longrightarrow> sup_inv st' w'"
proof (induction js arbitrary: st w)
  case (Cons j js)
  show ?case
  proof (cases "is_ready revents j")
    case False
    then show ?thesis using Cons by simp
  next
    case True
    with Cons.prems(4) obtain stop1 st1 w1
      where d: "dispatch_slot os sf cf si ci ps j st w = Some (stop1, st1, w1)"
        and rest: "if stop1 then (stop, st', w') = (True, st1, w1)
          else dispatch os sf cf si ci ps revents js st1 w1 = Some (stop, st', w')"
      by (auto simp: bind_eq_Some_conv split: if_splits)
    have "j < length ps" using Cons.prems(3) by simp
    from dispatch_slot_inv [OF Cons.prems(1,2) this d] Cons.IH [of st1 w1] Cons.prems(2,3) rest
    show ?thesis by (auto split: if_splits)
  qed
qed simp

lemma poll_phase_inv:
  assumes inv: "sup_inv st w" and res: "poll_phase os sf cf st w = Some (stop, st', w')"
  shows "sup_inv st' w'"
proof -
  obtain si ci ps where ps: "poll_slots sf cf (table st) = (si, ci, ps)" by (metis prod.collapse)
  let ?p = "sys_poll os (map poll_fd ps) w"
  have p: "extends w (snd ?p)" "kill_log (snd ?p) = kill_log w" by (simp_all add: sys_poll_def)
  have q: "sup_inv st (snd ?p)" by (rule sup_inv_mono [OF inv p refl])
  show ?thesis
  proof (cases "fst ?p")
    case (PollReady revents)
    then have "dispatch os sf cf si ci ps revents [0..<length ps] st (snd ?p) = Some (stop, st', w')"
      using res by (simp add: poll_phase_def ps Let_def split_def)
    then show ?thesis by (rule dispatch_inv [OF q poll_slots_bound(1) [OF ps], rotated]) simp
  next
    case PollEintr
    then show ?thesis using res q by (simp add: poll_phase_def ps Let_def split_def)
  next
    case PollFail
    then have "st' = st" "w' = sleep_ms os 50 (snd ?p)"
      using res by (simp_all add: poll_phase_def ps Let_def split_def)
    then show ?thesis using sup_inv_mono [OF q] by simp
  qed
qed

lemma main_pass_inv:
  assumes inv: "sup_inv st w" and res: "main_pass os root sf cf st w = Some (stop, st', w')"
  shows "sup_inv st' w'"
proof -
  obtain ss w1 where r: "reap_children os (table st) w = Some (ss, w1)"
    using res by (auto simp: main_pass_def bind_eq_Some_conv)
  let ?st1 = "st\<lparr>table := ss\<rparr>"
  let ?t = "mono_now os w1"
  let ?c = "scan_phase os root (fst ?t) ?st1 (snd ?t)"
  let ?s = "start_phase os (fst ?t) (table (fst ?c)) (snd ?c)"
  have ok: "sys_ok (table st) w" using inv by (simp add: sup_inv_def)
  have 1: "sup_inv ?st1 w1" by (rule sup_invI [OF reap_children_ok [OF ok r] inv]) simp
  have "sup_inv ?st1 (snd ?t)" by (rule sup_inv_mono [OF 1]) simp_all
  then have c: "sup_inv (fst ?c) (snd ?c)" by (rule scan_phase_inv)
  then have tab: "table_ok (table (fst ?c)) ?s" by (intro start_phase_ok) (simp add: sup_inv_def)
  have s: "sup_inv ((fst ?c)\<lparr>table := fst ?s\<rparr>) (snd ?s)"
    by (rule sup_invI [of "fst ?c" "fst ?s" "snd ?s", OF _ c]) (use tab in simp_all)
  have "poll_phase os sf cf ((fst ?c)\<lparr>table := fst ?s\<rparr>) (snd ?s) = Some (stop, st', w')"
    using res by (simp add: main_pass_def r Let_def split_def)
  then show ?thesis by (rule poll_phase_inv [OF s])
qed

section \<open>Reachable states\<close>

lemma kill_log_setup [simp]:
  "kill_log (setup_call c w) = kill_log w" "kill_log (ensure_stdio os w) = kill_log w"
  "kill_log (snd (init_signal_pipe os w)) = kill_log w"
  "kill_log (install_signal_handlers w) = kill_log w"
  "kill_log (snd (create_control_socket os root w)) = kill_log w"
proof -
  show s: "kill_log (setup_call c w) = kill_log w" for c and w :: world by (simp add: setup_call_def)
  have "kill_log (ensure_stdio_fd os fd v) = kill_log v" for fd v
    by (simp add: ensure_stdio_fd_def Let_def split_def)
  then show "kill_log (ensure_stdio os w) = kill_log w" by (simp add: ensure_stdio_def)
  show "kill_log (snd (init_signal_pipe os w)) = kill_log w"
    using kill_log_pipe_new [of os w] by (simp add: init_signal_pipe_def split_def split: option.split)
  show "kill_log (install_signal_handlers w) = kill_log w"
    by (simp add: install_signal_handlers_def set_signal_action_def Let_def)
  show "kill_log (snd (create_control_socket os root w)) = kill_log w"
    by (simp add: create_control_socket_def s Let_def del: cs_push.simps)
qed

lemma kill_log_start: "kill_log world_start = []"
  by (simp add: kill_log_def world_start_def)

lemma main_setup_inv:
  assumes "main_setup os arg world_start = (sf, cf, st, w)"
  shows "sup_inv st w"
proof -
  have "kill_log w = []" "table st = table_start"
    using assms by (auto simp: main_setup_def Let_def split_def kill_log_start)
  then show ?thesis
    using table_start_ok svc_ok_ZERO
    by (auto simp: sup_inv_def sys_ok_def kills_ok_def table_start_def)
qed

text \<open>The states between the passes of the loop, after any number of passes.\<close>

inductive reachable :: "os \<Rightarrow> bytes option \<Rightarrow> int \<Rightarrow> int \<Rightarrow> sup \<Rightarrow> world \<Rightarrow> bool" for os arg where
  booted: "main_setup os arg world_start = (sf, cf, st, w) \<Longrightarrow> reachable os arg sf cf st w"
| passed: "reachable os arg sf cf st w \<Longrightarrow>
    main_pass os (main_root arg) sf cf st w = Some (False, st', w') \<Longrightarrow> reachable os arg sf cf st' w'"

lemma reachable_inv: "reachable os arg sf cf st w \<Longrightarrow> sup_inv st w"
proof (induction rule: reachable.induct)
  case (booted sf cf st w)
  then show ?case by (rule main_setup_inv)
next
  case (passed sf cf st w st' w')
  show ?case by (rule main_pass_inv [OF passed.IH passed.hyps(2)])
qed

text \<open>The loop ends in a state that a pass from a reachable one has reached.\<close>

lemma main_loop_last:
  assumes "main_loop os root sf cf st w = Some r"
    "\<And>st w st' w'. Q st w \<Longrightarrow> main_pass os root sf cf st w = Some (False, st', w') \<Longrightarrow> Q st' w'" "Q st w"
  shows "\<exists>st1 w1. Q st1 w1 \<and> main_pass os root sf cf st1 w1 = Some (True, fst r, snd r)"
proof -
  let ?P = "\<lambda>os root sf cf st w r. \<forall>Q. (\<forall>st w st' w'. Q st w \<longrightarrow>
      main_pass os root sf cf st w = Some (False, st', w') \<longrightarrow> Q st' w') \<longrightarrow> Q st w \<longrightarrow>
      (\<exists>st1 w1. Q st1 w1 \<and> main_pass os root sf cf st1 w1 = Some (True, fst r, snd r))"
  have "?P os root sf cf st w r"
  proof (rule main_loop.raw_induct [where P = ?P, OF _ assms(1)], intro allI impI)
    fix loop os root sf cf st w r Q
    assume IH: "\<And>os root sf cf st w r. loop os root sf cf st w = Some r \<Longrightarrow> ?P os root sf cf st w r"
      and eq: "(case main_pass os root sf cf st w of None \<Rightarrow> None
        | Some (stop, st', w') \<Rightarrow> if stop then Some (st', w') else loop os root sf cf st' w') = Some r"
      and step: "\<forall>st w st' w'. Q st w \<longrightarrow> main_pass os root sf cf st w = Some (False, st', w') \<longrightarrow> Q st' w'"
      and q: "Q st w"
    obtain stop st1 w1 where p: "main_pass os root sf cf st w = Some (stop, st1, w1)"
      using eq by (cases "main_pass os root sf cf st w") auto
    show "\<exists>st1 w1. Q st1 w1 \<and> main_pass os root sf cf st1 w1 = Some (True, fst r, snd r)"
    proof (cases stop)
      case True
      then have "r = (st1, w1)" using eq p by simp
      then show ?thesis using p True q by auto
    next
      case False
      then have "loop os root sf cf st1 w1 = Some r" "Q st1 w1" using eq p step q by auto
      then show ?thesis using IH step by blast
    qed
  qed
  then show ?thesis using assms(2,3) by blast
qed

section \<open>The shutdown\<close>

lemma wait_turn_ok:
  assumes "sys_ok services w" "wait_turn os dl ms services w = Some (go, ss, w')"
  shows "sys_ok ss w'"
proof -
  obtain s1 w1 s2 w2 where r: "reap_children os services w = Some (s1, w1)"
    and d: "drain_all_once os s1 w1 = Some (s2, w2)"
    using assms(2) by (auto simp: wait_turn_def bind_eq_Some_conv)
  have ok1: "sys_ok s1 w1" using reap_children_ok [OF assms(1) r] by (simp add: table_ok_def)
  note f = drain_all_frame [OF d]
  have ok2: "sys_ok s2 w2"
  proof -
    have "svc_ok w2 (s2 ! i)" if "i < length s2" for i
      using f that svc_ok_mono [OF _ sys_ok_nth [OF ok1, of i]] by auto
    moreover have "kills_ok w2" using kills_ok_silent [of w1 w2] ok1 f by (simp add: sys_ok_def)
    ultimately show ?thesis using f ok1 by (auto simp: sys_ok_def all_set_conv_all_nth)
  qed
  have "ss = s2 \<and> extends w2 w' \<and> kill_log w' = kill_log w2"
    using assms(2) r d
    by (auto simp: wait_turn_def bind_eq_Some_conv Let_def split_def split: if_splits)
  then show ?thesis using sys_ok_mono [OF ok2] by auto
qed

lemma wait_loop_ok:
  assumes "wait_loop os dl ms services w = Some r" "sys_ok services w"
  shows "sys_ok (fst r) (snd r)"
proof -
  have "sys_ok services w \<longrightarrow> sys_ok (fst r) (snd r)"
  proof (rule wait_loop.raw_induct [where P = "\<lambda>os dl ms services w r. sys_ok services w \<longrightarrow> sys_ok (fst r) (snd r)",
        OF _ assms(1)], rule impI)
    fix loop os dl ms services w r
    assume IH: "\<And>os dl ms services w r. loop os dl ms services w = Some r \<Longrightarrow>
        sys_ok services w \<longrightarrow> sys_ok (fst r) (snd r)"
      and eq: "(case wait_turn os dl ms services w of None \<Rightarrow> None
        | Some (go, s', w') \<Rightarrow> if go then loop os dl ms s' w' else Some (s', w')) = Some r"
      and ok: "sys_ok services w"
    obtain go s1 w1 where t: "wait_turn os dl ms services w = Some (go, s1, w1)"
      using eq by (cases "wait_turn os dl ms services w") auto
    have "sys_ok s1 w1" by (rule wait_turn_ok [OF ok t])
    then show "sys_ok (fst r) (snd r)" using eq t IH by (cases go) auto
  qed
  then show ?thesis using assms(2) by blast
qed

interpretation killing: service_step kill_hard
  by unfold_locales (auto simp: kill_hard_def Let_def intro!: svc_ok_intros)

text \<open>What is left of an entry at the end.\<close>

definition closed_down :: "service \<Rightarrow> bool" where
  "closed_down s \<longleftrightarrow> (if active s then pid s = -1 \<and> log_pid s = -1 \<and> state s = STATE_DOWN \<and>
     log_state s = STATE_DOWN \<and> read_fd (streams s ! 0) < 0 \<and> read_fd (streams s ! 1) < 0 else True)"

lemma close_fds_closed:
  assumes "svc_wf s"
  shows "read_fd (streams (fst (close_service_fds os s w)) ! 0) < 0 \<and>
    read_fd (streams (fst (close_service_fds os s w)) ! 1) < 0"
  using assms
  by (simp add: close_fds_two close_stream_fds_def upd_stream_def svc_wf_def Let_def)

lemma final_close_closed: "svc_wf s \<Longrightarrow> closed_down (fst (final_close os s w))"
  using close_fds_closed [of s os w]
  by (cases "close_service_fds os s w") (auto simp: final_close_def closed_down_def Let_def)

lemma each_closed: "\<forall>s \<in> set ss. svc_wf s \<Longrightarrow> list_all closed_down (fst (each (final_close os) ss w))"
  using final_close_closed by (induction ss arbitrary: w) (simp_all add: Let_def split_def)

lemma each_final_frame:
  "extends w (snd (each (final_close os) ss w)) \<and> kill_log (snd (each (final_close os) ss w)) = kill_log w"
proof (induction ss arbitrary: w)
  case (Cons s ss)
  have one: "extends w (snd (final_close os s w))" "kill_log (snd (final_close os s w)) = kill_log w"
    by (simp_all add: final_close_def close_fds_two close_stream_fds_def Let_def split_def)
  from Cons.IH [of "snd (final_close os s w)"] extends_trans [OF one(1)] one(2) show ?case
    by (simp add: Let_def split_def)
qed simp

lemma shutdown_end:
  assumes ok: "sys_ok services w" and res: "main_shutdown os root cf services w = Some (ss, w')"
  shows "kills_ok w' \<and> list_all closed_down ss"
proof -
  let ?s = "stop_all_in_order os services (supervisor_log os ''shutting down services'' w)"
  let ?n = "mono_now os (snd ?s)"
  obtain s2 w2 where l1: "wait_loop os (wrap_i64 (fst ?n + SHUTDOWN_TIMEOUT_S)) 100 (fst ?s) (snd ?n) = Some (s2, w2)"
    using res by (auto simp: main_shutdown_def Let_def split_def bind_eq_Some_conv)
  let ?k = "each (kill_hard os) s2 w2"
  let ?m = "mono_now os (snd ?k)"
  obtain s3 w3 where l2: "wait_loop os (wrap_i64 (fst ?m + 2)) 50 (fst ?k) (snd ?m) = Some (s3, w3)"
    using res l1 by (auto simp: main_shutdown_def Let_def split_def bind_eq_Some_conv)
  let ?f = "each (final_close os) s3 w3"
  have fin: "ss = fst ?f" "w' = main_cleanup os root cf (supervisor_log os ''shutdown complete'' (snd ?f))"
    using res l1 l2 by (auto simp: main_shutdown_def Let_def split_def)
  have "sys_ok services (supervisor_log os ''shutting down services'' w)"
    by (rule sys_ok_mono [OF ok]) simp_all
  then have "sys_ok (fst ?s) (snd ?s)" by (rule stop_all_ok)
  then have "sys_ok (fst ?s) (snd ?n)" by (rule sys_ok_mono) simp_all
  from wait_loop_ok [OF l1 this] have "sys_ok (fst ?k) (snd ?k)" by (intro killing.each_ok) simp
  then have "sys_ok (fst ?k) (snd ?m)" by (rule sys_ok_mono) simp_all
  from wait_loop_ok [OF l2 this] have ok3: "sys_ok s3 w3" by simp
  then have "list_all closed_down ss" unfolding fin(1) by (intro each_closed) (auto simp: sys_ok_def dest: svc_ok_wf)
  moreover have "kills_ok w'"
    unfolding fin(2)
    by (rule kills_ok_silent [of w3])
      (use ok3 each_final_frame [of w3 os s3] in \<open>simp_all add: sys_ok_def main_cleanup_def Let_def del: cs_push.simps\<close>)
  ultimately show ?thesis by blast
qed

section \<open>Claims\<close>

text \<open>C1. In every state the supervisor can reach between two passes of its loop, whatever the kernel
  answered: the table has 256 entries, each well-formed, with a state that agrees with its process
  ids; every process id in it was returned by \<open>fork\<close>; and no two active entries have the same
  directory.\<close>

theorem supervisor_invariant:
  assumes "reachable os arg sf cf st w"
  shows "length (table st) = MAX_SERVICES \<and> list_all (svc_ok w) (table st) \<and> dirs_distinct (table st)"
  using reachable_inv [OF assms] by (simp add: sup_inv_def sys_ok_def list_all_iff)

text \<open>C2. Every signal the supervisor has sent in a reachable state went to a child it created, to the
  process group of one, or to itself; in particular never to its own group or to all processes of
  the group zero.\<close>

theorem signals_own_processes:
  assumes "reachable os arg sf cf st w"
  shows "list_all (\<lambda>(p, sig). p \<in> forked w \<or> - p \<in> forked w \<or> p \<in> self_pids w) (kill_log w)"
  using reachable_inv [OF assms]
  by (auto simp: sup_inv_def sys_ok_def kills_ok_def own_target_def list_all_iff)

text \<open>C6. A service the start phase of a pass has started was due by the clock of the pass, and when
  the phase is over all its hard dependencies are running and so is the service.\<close>

theorem start_phase_respects_deps:
  assumes "sys_ok services w" "i < MAX_SERVICES" "start_phase os t services w = (ss, w')"
    "pid (services ! i) \<le> 0" "pid (ss ! i) > 0"
  shows "due t (services ! i) \<and> deps_satisfied (ss ! i) ss \<and> state (ss ! i) = STATE_RUNNING"
proof -
  have "MAX_SERVICES \<le> length services" using assms(1) by (simp add: sys_ok_def)
  from start_phase_inv [OF assms(1) this] assms(2,3)
  have "started_right t services ss i" by (simp add: start_phase_def)
  then show ?thesis using assms(4,5) by (simp add: started_right_def deps_ok_iff)
qed

text \<open>C21. The command \<open>restart\<close> stops a service for good: when its process has ended, the entry is
  still marked as stopping, so \<open>start_service\<close> refuses it, and its next start is at the end of
  time, so it is not due even after a scan has cleared the mark.\<close>

theorem restart_never_restarts:
  "(let s' = fst (snd (main_exit os status t (fst (restart_entry os' s w')) w))
    in refuses s' \<and> restart_at s' = i64_max \<and> \<not> (now < i64_max \<and> due now (s'\<lparr>stopping := False\<rparr>)))"
proof -
  let ?r = "fst (restart_entry os' s w')"
  have st: "stopping ?r" by (simp add: restart_entry_def signal_log_def Let_def split_def)
  obtain v where v: "fst (snd (main_exit os status t ?r w)) =
      fst (restart_policy os t (fst (exit_log (exit_record status ?r) v)) (snd (exit_log (exit_record status ?r) v)))"
    using main_exit_policy by blast
  have "stopping (fst (snd (main_exit os status t ?r w)))"
    "restart_at (fst (snd (main_exit os status t ?r w))) = i64_max"
    unfolding v restart_policy_sel exit_log_sel using st by simp_all
  then show ?thesis by (simp add: refuses_def due_def Let_def)
qed

text \<open>C22. The poll arrays never overflow: the two descriptors of the supervisor and the streams of 256
  services fit in the 514 slots, and every slot names a service and a stream that exist.\<close>

theorem poll_slots_fit:
  "(case poll_slots sig_fd ctrl_fd services of (si, ci, ps) \<Rightarrow>
     length ps \<le> MAX_POLL_FDS \<and> list_all (\<lambda>p. map_service p < MAX_SERVICES \<and> map_stream p < 2) ps)"
proof -
  obtain si ci ps where ps: "poll_slots sig_fd ctrl_fd services = (si, ci, ps)" by (metis prod.collapse)
  show ?thesis using poll_slots_bound [OF ps] by (simp add: ps list_all_iff slot_ok_def)
qed

text \<open>When the program ends, no service has a process id or an open stream any more, every active
  one is down, and all signals of the whole run went to own processes.\<close>

lemma program_end:
  assumes "main_program os arg world_start = Some (ss, w')"
  shows "list_all closed_down ss \<and> \<not> any_open_services ss \<and> kills_ok w'"
proof -
  obtain sf cf st w where s: "main_setup os arg world_start = (sf, cf, st, w)"
    by (metis prod.collapse)
  obtain st1 w1 where l: "main_loop os (main_root arg) sf cf st w = Some (st1, w1)"
    and e: "main_shutdown os (main_root arg) cf (table st1) w1 = Some (ss, w')"
    using assms by (auto simp: main_program_def s bind_eq_Some_conv)
  have "\<exists>st2 w2. sup_inv st2 w2 \<and>
      main_pass os (main_root arg) sf cf st2 w2 = Some (True, fst (st1, w1), snd (st1, w1))"
    by (rule main_loop_last [OF l]) (erule (1) main_pass_inv, rule main_setup_inv [OF s])
  then obtain st2 w2 where "sup_inv st2 w2"
    "main_pass os (main_root arg) sf cf st2 w2 = Some (True, st1, w1)" by auto
  then have "sup_inv st1 w1" by (rule main_pass_inv)
  then have last: "kills_ok w' \<and> list_all closed_down ss"
    using shutdown_end [OF _ e] by (simp add: sup_inv_def)
  have "\<not> any_open_services ss"
    using last by (auto simp: any_open_services_def list_ex_iff list_all_iff closed_down_def)
  with last show ?thesis by simp
qed

section \<open>A run that ends\<close>

text \<open>With a table of free slots every operation of a pass and of the shutdown does nothing to it.\<close>

definition all_free :: "service list \<Rightarrow> bool" where
  "all_free ss \<longleftrightarrow> list_all (\<lambda>s. \<not> active s) ss"

lemma each_free: "all_free ss \<Longrightarrow> (\<And>s w. \<not> active s \<Longrightarrow> f s w = (s, w)) \<Longrightarrow> each f ss w = (ss, w)"
  by (induction ss) (simp_all add: all_free_def)

lemma free_nth: "all_free ss \<Longrightarrow> i < length ss \<Longrightarrow> \<not> active (ss ! i)"
  by (simp add: all_free_def list_all_length)

lemma fold_id: "(\<And>x. x \<in> set xs \<Longrightarrow> f x y = y) \<Longrightarrow> fold f xs y = y"
  by (induction xs) simp_all

lemma free_reap:
  assumes "all_free ss" "fst (os_waitpid os (trace w) (-1)) = 0"
  shows "\<exists>w'. reap_children os ss w = Some (ss, w')"
proof -
  have "reap_turn os False ss w = (False, False, ss, snd (sys_waitpid os (-1) w))"
    using assms(2) by (simp add: reap_turn_def sys_waitpid_def Let_def wrap_i32_def)
  then have "reap_loop os False ss w = Some (False, ss, snd (sys_waitpid os (-1) w))"
    by (subst reap_loop.simps) simp
  then show ?thesis
    using each_free [OF assms(1), of "kill_main_step os"]
    by (simp add: reap_children_def kill_main_on_log_death_def kill_main_step_def)
qed

lemma free_start: "all_free ss \<Longrightarrow> length ss = MAX_SERVICES \<Longrightarrow> start_phase os t ss w = (ss, w)"
  unfolding start_phase_def by (rule fold_id) (simp add: start_one_eq due_def free_nth)

lemma free_poll: "all_free ss \<Longrightarrow> length ss = MAX_SERVICES \<Longrightarrow>
  fold (add_streams ss) [0..<MAX_SERVICES] ps = ps"
  by (rule fold_id) (simp add: add_streams_def free_nth)

lemma free_drain: "all_free ss \<Longrightarrow> drain_all_once os ss w = Some (ss, w)"
  by (induction ss) (simp_all add: all_free_def)

lemma free_any_open: "all_free ss \<Longrightarrow> \<not> any_open_services ss"
  by (auto simp: all_free_def any_open_services_def list_ex_iff list_all_iff)

lemma free_wait:
  assumes "all_free ss" "\<And>v :: world. fst (os_waitpid os (trace v) (-1)) = 0"
  shows "\<exists>w'. wait_loop os dl ms ss w = Some (ss, w')"
proof -
  obtain w1 where "reap_children os ss w = Some (ss, w1)" using free_reap [OF assms] by blast
  then have "wait_turn os dl ms ss w = Some (False, ss, w1)"
    using free_drain [OF assms(1)] free_any_open [OF assms(1)] by (simp add: wait_turn_def)
  then show ?thesis by (subst wait_loop.simps) simp
qed

lemma free_shutdown:
  assumes "all_free ss" "length ss = MAX_SERVICES" "\<And>v :: world. fst (os_waitpid os (trace v) (-1)) = 0"
  shows "\<exists>w'. main_shutdown os root cf ss w = Some (ss, w')"
proof -
  let ?v = "supervisor_log os ''shutting down services'' w"
  obtain ord r where "stop_order ss = (ord, r)" by (cases "stop_order ss")
  moreover have "to_stop ss = {}" using assms(1,2) free_nth by (auto simp: to_stop_def)
  ultimately obtain v1 where s: "stop_all_in_order os ss ?v = (ss, v1)"
    using stop_all_effect [of ss ord r os ?v] assms(2) map_nth [of ss] by auto
  have k: "each (kill_hard os) ss v = (ss, v)" "each (final_close os) ss v = (ss, v)" for v
    by (simp_all add: each_free [OF assms(1)] kill_hard_def final_close_def)
  obtain v2 where 2: "wait_loop os (wrap_i64 (fst (mono_now os v1) + SHUTDOWN_TIMEOUT_S)) 100 ss
      (snd (mono_now os v1)) = Some (ss, v2)" using free_wait [OF assms(1,3)] by blast
  obtain v3 where 3: "wait_loop os (wrap_i64 (fst (mono_now os v2) + 2)) 50 ss (snd (mono_now os v2)) =
      Some (ss, v3)" using free_wait [OF assms(1,3)] by blast
  show ?thesis using 2 3 by (simp add: main_shutdown_def s k Let_def split_def)
qed

text \<open>A kernel that has nothing but a signal pipe, in which \<open>SIGTERM\<close> waits.\<close>

definition os_term :: os where
  "os_term = os_idle\<lparr>os_pipe := \<lambda>_. Some (3, 4), os_poll := \<lambda>_ _. PollReady [1],
     os_read := \<lambda>_ fd _. if fd = 3 then RData [CHR 0x0F] else RAgain\<rparr>"

lemma table_free: "all_free table_start" "length table_start = MAX_SERVICES"
  by (simp_all add: all_free_def table_start_def list_all_length)

lemma term_drain: "\<exists>w'. drain_signal_pipe os_term 3 w = Some (Some SIGTERM, w')"
  by (subst drain_signal_pipe.simps) (simp add: sys_read_def os_term_def)

lemma term_setup: "\<exists>t w. main_setup os_term None world_start =
  (3, -1, \<lparr>table = table_start, next_scan = t, reload_needed = False\<rparr>, w)"
proof -
  have p: "fst (init_signal_pipe os_term w) = 3" for w
    by (simp add: init_signal_pipe_def pipe_new_def os_term_def Let_def split_def guard_from_raw_def)
  have c: "fst (create_control_socket os_term root w) = -1" for root w
    by (simp add: create_control_socket_def os_term_def os_idle_def Let_def del: cs_push.simps)
  show ?thesis by (simp add: main_setup_def p c Let_def split_def)
qed

lemma term_pass:
  "\<exists>st' w'. main_pass os_term root 3 (-1) \<lparr>table = table_start, next_scan = t, reload_needed = False\<rparr> w =
     Some (True, st', w') \<and> table st' = table_start"
proof -
  have wait: "fst (os_waitpid os_term (trace v) (-1)) = 0" for v :: world by (simp add: os_term_def os_idle_def)
  obtain w1 where r: "reap_children os_term table_start w = Some (table_start, w1)"
    using free_reap [OF table_free(1) wait] by blast
  let ?st = "\<lparr>table = table_start, next_scan = t, reload_needed = False\<rparr>"
  obtain now w2 where m: "mono_now os_term w1 = (now, w2)" by (cases "mono_now os_term w1")
  have dir: "os_readdir os_term tr d = None" for tr d by (simp add: os_term_def os_idle_def)
  obtain st w3 where s: "scan_phase os_term root now ?st w2 = (st, w3)"
    by (cases "scan_phase os_term root now ?st w2")
  then have tab: "table st = table_start"
    by (auto simp: scan_phase_def scan_services_def dir Let_def split: if_splits)
  have slots: "poll_slots 3 (-1) table_start =
      (0, usize_max, [\<lparr>poll_fd = 3, map_service = 0, map_stream = 0\<rparr>])"
    using free_poll [OF table_free] by (simp add: poll_slots_def)
  have poll: "fst (sys_poll os_term fds v) = PollReady [1]" for fds v by (simp add: sys_poll_def os_term_def)
  have ready: "is_ready [1] 0" by (simp add: is_ready_def)
  obtain w4 where d: "drain_signal_pipe os_term 3 (snd (sys_poll os_term [3] w3)) = Some (Some SIGTERM, w4)"
    using term_drain by blast
  have "poll_phase os_term 3 (-1) (st\<lparr>table := table_start\<rparr>) w3 = Some (True, st\<lparr>table := table_start\<rparr>, w4)"
    using d ready
    by (simp add: poll_phase_def slots poll Let_def split_def dispatch_slot_def on_signal_def upt_rec)
  then show ?thesis
    using free_start [OF table_free] by (simp add: main_pass_def r m s tab)
qed

text \<open>So \<open>main\<close> returns, and what \<open>program_end\<close> says of the end is not vacuous.\<close>

lemma term_run: "\<exists>ss w'. main_program os_term None world_start = Some (ss, w')"
proof -
  obtain t w where s: "main_setup os_term None world_start =
      (3, -1, \<lparr>table = table_start, next_scan = t, reload_needed = False\<rparr>, w)" using term_setup by blast
  obtain st' w1 where p: "main_pass os_term (main_root None) 3 (-1)
      \<lparr>table = table_start, next_scan = t, reload_needed = False\<rparr> w = Some (True, st', w1)"
    "table st' = table_start" using term_pass by blast
  have l: "main_loop os_term (main_root None) 3 (-1)
      \<lparr>table = table_start, next_scan = t, reload_needed = False\<rparr> w = Some (st', w1)"
    by (subst main_loop.simps) (simp add: p(1))
  have wait: "fst (os_waitpid os_term (trace v) (-1)) = 0" for v :: world by (simp add: os_term_def os_idle_def)
  obtain w2 where "main_shutdown os_term (main_root None) (-1) table_start w1 = Some (table_start, w2)"
    using free_shutdown [OF table_free wait] by blast
  then show ?thesis by (simp add: main_program_def s l p(2))
qed

section \<open>Witnesses\<close>

theorem supervisor_invariant_witness:
  "\<forall>os arg. case main_setup os arg world_start of (sf, cf, st, w) \<Rightarrow> dirs_distinct (table st)"
proof (intro allI)
  fix os arg
  obtain sf cf st w where s: "main_setup os arg world_start = (sf, cf, st, w)" by (metis prod.collapse)
  from supervisor_invariant [OF reachable.booted [OF s]] s
  show "case main_setup os arg world_start of (sf, cf, st, w) \<Rightarrow> dirs_distinct (table st)" by simp
qed

theorem signals_own_processes_witness:
  "\<forall>os arg. case main_setup os arg world_start of (sf, cf, st, w) \<Rightarrow>
     list_all (\<lambda>(p, sig). p \<in> forked w \<or> - p \<in> forked w \<or> p \<in> self_pids w) (kill_log w)"
proof (intro allI)
  fix os arg
  obtain sf cf st w where s: "main_setup os arg world_start = (sf, cf, st, w)" by (metis prod.collapse)
  from signals_own_processes [OF reachable.booted [OF s]] s
  show "case main_setup os arg world_start of (sf, cf, st, w) \<Rightarrow>
     list_all (\<lambda>(p, sig). p \<in> forked w \<or> - p \<in> forked w \<or> p \<in> self_pids w) (kill_log w)" by simp
qed

text \<open>A kernel that grants pipes and children.\<close>

definition os_runs :: os where
  "os_runs = os_idle\<lparr>os_pipe := \<lambda>_. Some (5, 6), os_fork := \<lambda>_. Some 7\<rparr>"

lemma runs_pipes: "fst (start_pipes os_runs w) = Some ((5, 6), (5, 6))"
proof -
  have pipe: "\<exists>w'. pipe_new os_runs v = (Some (5, 6), w')" for v :: world
    by (simp add: pipe_new_def os_runs_def Let_def split_def guard_from_raw_def)
  obtain v where v: "pipe_new os_runs w = (Some (5, 6), v)" using pipe by blast
  obtain u where "pipe_new os_runs v = (Some (5, 6), u)" using pipe by blast
  then show ?thesis by (simp add: start_pipes_def v)
qed

lemma runs_parent: "\<not> has_log s \<Longrightarrow> pid (fst (start_parent os 8 s o2 e2 w)) = 8"
  by (simp add: start_parent_def Let_def split_def stream_only_keeps(7) [OF open_log_frame [OF stream_only_refl]])

lemma runs_start: "pid (fst (start_service os_runs (ex_service ''db'' (-1) 0) w)) = 8"
proof -
  have fork: "fst (sys_fork os_runs c v) = 8" for c and v :: world
    by (simp add: sys_fork_def os_runs_def Let_def)
  show ?thesis
    by (simp add: start_service_def start_logger_def start_main_def fork runs_pipes runs_parent
        Let_def split_def)
qed

theorem start_phase_respects_deps_witness:
  "(let ss = fst (start_phase os_runs 0 ex_down world_start)
    in pid (ss ! 0) = 8 \<and> deps_satisfied (ss ! 0) ss \<and> state (ss ! 0) = STATE_RUNNING)"
proof -
  obtain ss w' where r: "start_phase os_runs 0 ex_down world_start = (ss, w')" by (metis prod.collapse)
  let ?s = "ex_service ''db'' (-1) 0"
  have "due 0 ?s" by (simp add: due_def ex_service_def set_name_def SERVICE_EMPTY_def)
  moreover have "deps_satisfied ?s ex_down" by (simp add: deps_ok_iff)
  ultimately have "start_one os_runs 0 0 (ex_down, world_start) =
      (ex_down[0 := fst (start_service os_runs ?s world_start)], snd (start_service os_runs ?s world_start))"
    by (simp add: start_one_def ex_down_def Let_def split_def)
  note first = this
  have rest: "fold (start_one os_runs 0) [1..<MAX_SERVICES] (s # replicate 255 SERVICE_ZERO, v) =
      (s # replicate 255 SERVICE_ZERO, v)" for s v
    by (rule fold_id) (auto simp: start_one_def due_def nth_Cons split: nat.split)
  have "[0..<MAX_SERVICES] = 0 # [1..<MAX_SERVICES]" by (simp add: upt_conv_Cons)
  then have "pid (ss ! 0) = 8"
    using r first rest runs_start by (auto simp: start_phase_def ex_down_def)
  moreover have "pid (ex_down ! 0) \<le> 0" by (simp add: ex_down_def)
  ultimately show ?thesis using start_phase_respects_deps [OF ex_down_ok _ r, of 0] by (simp add: r)
qed

end
