(* ===== verification/Shutdown.thy ===== *)
theory Shutdown
  imports Main_Loop
begin

text \<open>
  What the shutdown of \<open>main\<close> (\<open>src/main.rs\<close>, \<open>main_shutdown\<close> in \<open>Main_Loop\<close>) does to the processes
  that run when it begins: each is asked to stop, has five seconds, is killed if it has not been
  reported by \<open>waitpid\<close> by then, and has two more seconds to be reported.
\<close>

section \<open>Signals sent and children reported in a stretch of a run\<close>

definition sent :: "world \<Rightarrow> world \<Rightarrow> (int \<times> int) set" where
  "sent w w' = set (kills (new_events w w'))"

definition reported :: "world \<Rightarrow> world \<Rightarrow> int \<Rightarrow> bool" where
  "reported w w' p \<longleftrightarrow> (\<exists>st. EAsk (QWaitpid (-1) p st) \<in> set (new_events w w'))"

lemma sent_kill_log:
  assumes "extends w w'" "kill_log w' = kill_log w @ ks"
  shows "sent w w' = set ks"
proof -
  obtain es where es: "trace w' = es @ trace w" using assms(1) by (auto simp: extends_def)
  then have "kill_log w' = kill_log w @ kills (new_events w w')"
    by (simp add: kill_log_def kills_append new_events_eq [OF es])
  with assms(2) show ?thesis by (simp add: sent_def)
qed

lemma sent_trans: "extends u v \<Longrightarrow> extends v w \<Longrightarrow> sent u w = sent u v \<union> sent v w"
  unfolding sent_def using new_events_trans [of u v w] by (simp only: kills_append set_append)

lemma reported_trans:
  "extends u v \<Longrightarrow> extends v w \<Longrightarrow> reported u w p \<longleftrightarrow> reported u v p \<or> reported v w p"
  unfolding reported_def using new_events_trans [of u v w] by (simp only: set_append Un_iff ex_disj_distrib)

section \<open>A process id leaves the table only when it is reported\<close>

definition held :: "world \<Rightarrow> world \<Rightarrow> service \<Rightarrow> service \<Rightarrow> bool" where
  "held w w' s s' \<longleftrightarrow> active s' = active s \<and>
     (pid s > 0 \<longrightarrow> pid s' = pid s \<or> reported w w' (pid s)) \<and>
     (log_pid s > 0 \<longrightarrow> log_pid s' = log_pid s \<or> reported w w' (log_pid s))"

definition all_held :: "service list \<Rightarrow> world \<Rightarrow> service list \<Rightarrow> world \<Rightarrow> bool" where
  "all_held services w ss w' \<longleftrightarrow> length ss = length services \<and> extends w w' \<and>
     (\<forall>i < length services. held w w' (services ! i) (ss ! i))"

definition same_pids :: "service \<Rightarrow> service \<Rightarrow> bool" where
  "same_pids s s' \<longleftrightarrow> active s' = active s \<and> pid s' = pid s \<and> log_pid s' = log_pid s"

lemma same_pids_held [simp]: "same_pids s s' \<Longrightarrow> held w w' s s'"
  by (simp add: same_pids_def held_def)

lemma held_trans: "held u v s t \<Longrightarrow> held v w t r \<Longrightarrow> extends u v \<Longrightarrow> extends v w \<Longrightarrow> held u w s r"
  unfolding held_def using reported_trans [of u v w] by metis

lemma all_held_trans:
  assumes "all_held services u ss v" "all_held ss v ss' w"
  shows "all_held services u ss' w"
  using assms held_trans extends_trans unfolding all_held_def by metis

lemma all_held_refl: "extends w w' \<Longrightarrow> all_held ss w ss w'"
  by (simp add: all_held_def same_pids_def)

lemma all_held_at: "held w w' (services ! i) s \<Longrightarrow> extends w w' \<Longrightarrow> all_held services w (services[i := s]) w'"
proof -
  assume h: "held w w' (services ! i) s" "extends w w'"
  have "held w w' (services ! j) (services[i := s] ! j)" if "j < length services" for j
    using h(1) that by (cases "j = i") (simp_all add: same_pids_def)
  with h(2) show ?thesis by (simp add: all_held_def)
qed

lemma each_same_pids:
  assumes "\<And>s w. same_pids s (fst (f s w))"
  shows "length (fst (each f ss w)) = length ss \<and>
    (\<forall>i < length ss. same_pids (ss ! i) (fst (each f ss w) ! i))"
proof (induction ss arbitrary: w)
  case (Cons s ss)
  from Cons.IH [of "snd (f s w)"] assms [of s w] show ?case
    by (auto simp: Let_def split_def nth_Cons' less_Suc_eq_0_disj)
qed simp

section \<open>Reaping\<close>

lemma log_exit_held: "held w w' s (fst (log_exit os s v))" if "log_pid s = p" "reported w w' p"
  using that by (simp add: held_def log_exit_def Let_def)

lemma main_exit_held: "held w w' s (fst (snd (main_exit os st t s v)))" if "pid s = p" "reported w w' p"
proof -
  have "log_pid (fst (exit_log x u)) = log_pid x" "active (fst (exit_log x u)) = active x" for x u
    by (simp_all add: exit_log_def Let_def)
  moreover have "log_pid (fst (restart_policy os t x u)) = log_pid x"
    "active (fst (restart_policy os t x u)) = active x" for x u
    by (simp_all add: restart_policy_def Let_def)
  ultimately show ?thesis using that by (simp add: held_def main_exit_def Let_def split_def)
qed

lemma at_first_held:
  assumes "\<And>s w. P s \<Longrightarrow> held u v s (fst (snd (f s w)))" "extends u v"
  shows "all_held services u (fst (snd (at_first P f services w))) v"
proof (cases "list_all (\<lambda>s. \<not> P s) services")
  case True
  then show ?thesis using all_held_refl [OF assms(2)] by (simp add: at_first_eq)
next
  case False
  let ?i = "length (takeWhile (\<lambda>s. \<not> P s) services)"
  have "P (services ! ?i)" using first_match [OF False] by simp
  then show ?thesis
    unfolding at_first_eq if_not_P [OF False]
    by (simp add: Let_def split_def all_held_at [OF assms(1) assms(2)])
qed

lemma at_first_extends:
  "(\<And>s w. extends w (snd (snd (f s w)))) \<Longrightarrow> extends w (snd (snd (at_first P f ss w)))"
  by (simp add: at_first_eq Let_def split_def)

lemma exits_extend:
  "extends w (snd (log_exit os s w))" "extends w (snd (snd (main_exit os st t s w)))"
proof -
  show "extends w (snd (log_exit os s w))" by (simp add: log_exit_def Let_def)
  have "extends u (snd (exit_log x v))" if "extends u v" for u v x
    using that by (simp add: exit_log_def sys_kill_def Let_def)
  then show "extends w (snd (snd (main_exit os st t s w)))" by (simp add: main_exit_def Let_def split_def)
qed

lemma reported_now:
  assumes "sys_waitpid os (-1) w = ((p, st), v)" "extends v w'"
  shows "reported w w' p"
proof -
  obtain es where "trace w' = es @ trace v" using assms(2) by (auto simp: extends_def)
  then have "trace w' = (es @ [EAsk (QWaitpid (-1) p st)]) @ trace w"
    using assms(1) by (auto simp: sys_waitpid_def Let_def)
  from new_events_eq [OF this] show ?thesis by (auto simp: reported_def)
qed

lemma reap_turn_held:
  assumes "reap_turn os need services w = (go, need', ss, w')"
  shows "all_held services w ss w'"
proof -
  obtain p st v where r: "sys_waitpid os (-1) w = ((p, st), v)" by (metis prod.collapse)
  have v: "extends w v" using sys_extends(7) [OF extends_refl, of w os "-1"] by (simp add: r)
  obtain t m where m: "mono_now os v = (t, m)" by (cases "mono_now os v")
  have vm: "extends v m" using sys_extends(12) [OF extends_refl, of v os] by (simp add: m)
  let ?P = "\<lambda>s. active s \<and> log_pid s = p" and ?f = "\<lambda>s w. (True, log_exit os s w)"
  let ?Q = "\<lambda>s. active s \<and> pid s = p" and ?g = "main_exit os st t"
  consider (none) "p \<le> 0" | (log) "p > 0" "\<not> list_all (\<lambda>s. \<not> ?P s) services"
    | (main) "p > 0" "list_all (\<lambda>s. \<not> ?P s) services" by linarith
  then show ?thesis
  proof cases
    case none
    then show ?thesis using assms r v by (auto simp: reap_turn_def intro: all_held_refl)
  next
    case log
    let ?l = "at_first ?P ?f services m"
    have "fst ?l" using log(2) by (simp add: at_first_eq Let_def split_def)
    then have res: "ss = fst (snd ?l)" "w' = snd (snd ?l)"
      using assms r m log(1) by (auto simp: reap_turn_def Let_def split_def)
    have "extends m w'" unfolding res(2) by (rule at_first_extends) (simp add: exits_extend)
    then have e: "extends v w'" by (rule extends_trans [OF vm])
    have "all_held services w (fst (snd ?l)) w'"
      by (rule at_first_held [OF _ extends_trans [OF v e]])
        (use log_exit_held [OF _ reported_now [OF r e]] in simp)
    then show ?thesis by (simp add: res(1))
  next
    case main
    then have l: "at_first ?P ?f services m = (False, services, m)" by (simp add: at_first_eq)
    let ?l = "at_first ?Q ?g services m"
    have res: "ss = fst (snd ?l)" "w' = snd (snd ?l)"
      using assms r m main(1) l by (auto simp: reap_turn_def Let_def split_def)
    have "extends m w'" unfolding res(2) by (rule at_first_extends) (rule exits_extend)
    then have e: "extends v w'" by (rule extends_trans [OF vm])
    have "all_held services w (fst (snd ?l)) w'"
      by (rule at_first_held [OF _ extends_trans [OF v e]])
        (use main_exit_held [OF _ reported_now [OF r e]] in simp)
    then show ?thesis by (simp add: res(1))
  qed
qed

lemma reaps_held: "reaps os need ss w need' ss' w' \<Longrightarrow> all_held ss w ss' w'"
proof (induction rule: reaps.induct)
  case (last need ss w need' ss' w')
  then show ?case by (rule reap_turn_held)
next
  case (more need ss w need1 ss1 w1 need' ss' w')
  then show ?case using all_held_trans [OF reap_turn_held] by blast
qed

lemma std_fold_extends: "extends (snd (snd st)) (snd (snd (fold (std_step os) is st)))"
proof (induction "is" arbitrary: st)
  case (Cons i js)
  have "extends (snd (snd st)) (snd (snd (std_step os i st)))"
    by (simp add: std_step_def sys_kill_def Let_def split_def)
  from extends_trans [OF this Cons.IH] show ?case by simp
qed simp

lemma stop_transitive_extends: "extends w (snd (stop_transitive_deps os services w))"
proof (induction os services w rule: stop_transitive_deps.induct)
  case (1 os services w)
  obtain c s1 w1 where p: "std_pass os services w = (c, s1, w1)" by (cases "std_pass os services w")
  have "extends w w1"
    using std_fold_extends [of "(False, services, w)" os "[0..<length services]"] p by (simp add: std_pass_def)
  moreover have "extends w1 (snd (stop_transitive_deps os s1 w1))" if c
    using "1.IH" p that by simp
  ultimately show ?case
    using p extends_trans by (subst stop_transitive_deps.simps) auto
qed

lemma stop_transitive_held:
  assumes "sys_ok services w"
  shows "all_held services w (fst (stop_transitive_deps os services w)) (snd (stop_transitive_deps os services w))"
proof -
  obtain S where S: "fst (stop_transitive_deps os services w) = marked services S"
    using stop_transitive_entry [OF assms] by blast
  have "same_pids (services ! i) (marked services S ! i)" if "i < length services" for i
    using that by (simp add: same_pids_def mark_stopping_def)
  then show ?thesis unfolding S all_held_def by (simp add: stop_transitive_extends)
qed

lemma reap_children_held:
  assumes "sys_ok services w" "reap_children os services w = Some (ss, w')"
  shows "all_held services w ss w'"
proof -
  obtain need ss1 w1 where l: "reap_loop os False services w = Some (need, ss1, w1)"
    using assms(2) by (auto simp: reap_children_def split: option.splits)
  let ?t = "if need then stop_transitive_deps os ss1 w1 else (ss1, w1)"
  have 1: "all_held services w ss1 w1" "sys_ok ss1 w1"
    using reaps_held reaps_ok [OF _ assms(1)] l [unfolded reap_loop_iff] by (auto simp: table_ok_def)
  then have "all_held ss1 w1 (fst ?t) (snd ?t)" "sys_ok (fst ?t) (snd ?t)"
    using stop_transitive_held stop_transitive_ok all_held_refl [of w1 w1] by auto
  note t = all_held_trans [OF 1(1) this(1)] this(2)
  have k: "(ss, w') = each (kill_main_step os) (fst ?t) (snd ?t)"
    using assms(2) by (cases need) (simp_all add: reap_children_def kill_main_on_log_death_def l Let_def split_def)
  define ft st where "ft = fst ?t" and "st = snd ?t"
  have "same_pids s (fst (kill_main_step os s w))" for s w
    by (simp add: kill_main_step_def same_pids_def Let_def)
  note same = each_same_pids [of "kill_main_step os", OF this, of ft st]
  have "extends st (snd (each (kill_main_step os) ft st))"
    using kill_main.each_svc_ok [of ft st os] t(2) by (simp add: sys_ok_def ft_def st_def)
  moreover have "ss = fst (each (kill_main_step os) ft st)" "w' = snd (each (kill_main_step os) ft st)"
    using arg_cong [OF k, of fst] arg_cong [OF k, of snd] by (simp_all add: ft_def st_def)
  ultimately have "all_held ft st ss w'" using same by (simp add: all_held_def)
  then have "all_held (fst ?t) (snd ?t) ss w'" unfolding ft_def st_def .
  from all_held_trans [OF t(1) this] show ?thesis .
qed

lemma drain_all_held: "drain_all_once os ss w = Some (ss', w') \<Longrightarrow> all_held ss w ss' w'"
  using drain_all_frame [of os ss w ss' w'] by (simp add: all_held_def same_pids_def)

section \<open>Waiting\<close>

text \<open>The end of a wait: nothing is open any more, or the clock has reached the deadline.\<close>

definition wait_over :: "os \<Rightarrow> int \<Rightarrow> world \<Rightarrow> service list \<Rightarrow> world \<Rightarrow> bool" where
  "wait_over os dl w ss w' \<longleftrightarrow> \<not> any_open_services ss \<or>
     (\<exists>x. extends w x \<and> w' = snd (mono_now os x) \<and> dl \<le> fst (mono_now os x))"

lemma wait_turn_held:
  assumes "sys_ok services w" "wait_turn os dl ms services w = Some (go, ss, w')"
  shows "all_held services w ss w' \<and> (if go then True else wait_over os dl w ss w')"
proof -
  obtain s1 w1 s2 w2 where r: "reap_children os services w = Some (s1, w1)"
    and d: "drain_all_once os s1 w1 = Some (s2, w2)"
    using assms(2) by (auto simp: wait_turn_def bind_eq_Some_conv)
  have h: "all_held services w s2 w2"
    by (rule all_held_trans [OF reap_children_held [OF assms(1) r] drain_all_held [OF d]])
  have "ss = s2" "extends w2 w'" using assms(2) r d
    by (auto simp: wait_turn_def bind_eq_Some_conv Let_def split_def split: if_splits)
  then have "all_held services w ss w'" using all_held_trans [OF h all_held_refl] by blast
  moreover have "wait_over os dl w ss w'" if "\<not> go"
    using assms(2) r d h that
    by (auto simp: wait_turn_def wait_over_def all_held_def Let_def split_def split: if_splits)
  ultimately show ?thesis by simp
qed

lemma wait_over_before: "extends u w \<Longrightarrow> wait_over os dl w ss w' \<Longrightarrow> wait_over os dl u ss w'"
  unfolding wait_over_def using extends_trans by blast

lemma wait_loop_held:
  assumes "wait_loop os dl ms services w = Some r" "sys_ok services w"
  shows "all_held services w (fst r) (snd r) \<and> wait_over os dl w (fst r) (snd r)"
proof -
  let ?P = "\<lambda>os dl ms services w r. sys_ok services w \<longrightarrow>
      all_held services w (fst r) (snd r) \<and> wait_over os dl w (fst r) (snd r)"
  have "?P os dl ms services w r"
  proof (rule wait_loop.raw_induct [where P = ?P, OF _ assms(1)], rule impI)
    fix loop os dl ms services w r
    assume IH: "\<And>os dl ms services w r. loop os dl ms services w = Some r \<Longrightarrow> ?P os dl ms services w r"
      and eq: "(case wait_turn os dl ms services w of None \<Rightarrow> None
        | Some (go, s', w') \<Rightarrow> if go then loop os dl ms s' w' else Some (s', w')) = Some r"
      and ok: "sys_ok services w"
    obtain go s1 w1 where t: "wait_turn os dl ms services w = Some (go, s1, w1)"
      using eq by (cases "wait_turn os dl ms services w") auto
    note h = wait_turn_held [OF ok t]
    show "all_held services w (fst r) (snd r) \<and> wait_over os dl w (fst r) (snd r)"
    proof (cases go)
      case True
      then have "loop os dl ms s1 w1 = Some r" using eq t by simp
      from IH [OF this] wait_turn_ok [OF ok t]
      have "all_held s1 w1 (fst r) (snd r)" "wait_over os dl w1 (fst r) (snd r)" by simp_all
      moreover have "extends w w1" using h by (simp add: all_held_def)
      ultimately show ?thesis using h all_held_trans wait_over_before by blast
    next
      case False
      then have "r = (s1, w1)" using eq t by simp
      with h False show ?thesis by simp
    qed
  qed
  then show ?thesis using assms(2) by blast
qed

section \<open>The end of a process\<close>

text \<open>A process is given \<open>secs\<close> seconds from \<open>u\<close> on: it is reported, or the clock has moved on that far.\<close>

definition waited :: "os \<Rightarrow> int \<Rightarrow> int \<Rightarrow> world \<Rightarrow> world \<Rightarrow> bool" where
  "waited os secs p u v \<longleftrightarrow> extends u v \<and> (reported u v p \<or>
     (\<exists>x. extends u x \<and> v = snd (mono_now os x) \<and>
        wrap_i64 (fst (mono_now os u) + secs) \<le> fst (mono_now os x)))"

text \<open>It is asked to stop (or had been asked before), has five seconds, and if it has not been reported
  then, it is killed and has two seconds more.\<close>

definition ended :: "os \<Rightarrow> world \<Rightarrow> world \<Rightarrow> bool \<Rightarrow> int \<Rightarrow> int \<Rightarrow> bool" where
  "ended os w w' asked p target \<longleftrightarrow> (\<exists>u v. extends w u \<and> (asked \<or> (target, SIGTERM) \<in> sent w u) \<and>
     waited os 5 p u v \<and> extends v w' \<and>
     (reported u v p \<or> (\<exists>k z. extends v k \<and> (target, SIGKILL) \<in> sent v k \<and> waited os 2 p k z \<and> extends z w')))"

lemma wait_loop_waited:
  assumes "wait_loop os (wrap_i64 (fst (mono_now os u) + secs)) ms services (snd (mono_now os u)) = Some (ss, v)"
    "sys_ok services (snd (mono_now os u))" "i < length services" "active (services ! i)"
  shows "active (ss ! i) \<and> i < length ss \<and>
    (pid (services ! i) > 0 \<longrightarrow> waited os secs (pid (services ! i)) u v \<and>
      (reported u v (pid (services ! i)) \<or> pid (ss ! i) = pid (services ! i))) \<and>
    (log_pid (services ! i) > 0 \<longrightarrow> waited os secs (log_pid (services ! i)) u v \<and>
      (reported u v (log_pid (services ! i)) \<or> log_pid (ss ! i) = log_pid (services ! i)))"
proof -
  have u: "extends u (snd (mono_now os u))" by simp
  have h: "all_held services (snd (mono_now os u)) ss v"
    "wait_over os (wrap_i64 (fst (mono_now os u) + secs)) (snd (mono_now os u)) ss v"
    using wait_loop_held [OF assms(1,2)] by simp_all
  have uv: "extends u v" using h(1) extends_trans [OF u] by (simp add: all_held_def)
  have len: "i < length ss" using h(1) assms(3) by (simp add: all_held_def)
  have rep: "reported (snd (mono_now os u)) v p \<Longrightarrow> reported u v p" for p
    using reported_trans [OF u, of v p] h(1) by (simp add: all_held_def)
  have held: "held (snd (mono_now os u)) v (services ! i) (ss ! i)"
    using h(1) assms(3) by (simp add: all_held_def)
  then have act: "active (ss ! i)" using assms(4) by (simp add: held_def)
  have "waited os secs p u v" if "reported u v p \<or> any_open_services ss" for p
    using that h(2) uv extends_trans [OF u] unfolding waited_def wait_over_def by blast
  moreover have "any_open_services ss" if "pid (ss ! i) > 0 \<or> log_pid (ss ! i) > 0"
    using that act nth_mem [OF len] unfolding any_open_services_def list_ex_iff by blast
  ultimately show ?thesis using held rep act len unfolding held_def by metis
qed

lemma kill_hard_each:
  "fst (each (kill_hard os) ss w) = ss \<and> extends w (snd (each (kill_hard os) ss w)) \<and>
   (\<forall>s \<in> set ss. active s \<longrightarrow>
      (pid s > 0 \<longrightarrow> (- pid s, SIGKILL) \<in> sent w (snd (each (kill_hard os) ss w))) \<and>
      (log_pid s > 0 \<longrightarrow> (log_pid s, SIGKILL) \<in> sent w (snd (each (kill_hard os) ss w))))"
proof (induction ss arbitrary: w)
  case (Cons s ss)
  let ?w = "snd (kill_hard os s w)"
  let ?r = "snd (each (kill_hard os) ss ?w)"
  let ?ks = "(if active s \<and> pid s > 0 then [(- pid s, SIGKILL)] else []) @
    (if active s \<and> log_pid s > 0 then [(log_pid s, SIGKILL)] else [])"
  have one: "fst (kill_hard os s w) = s" "extends w ?w" "kill_log ?w = kill_log w @ ?ks"
    by (simp_all add: kill_hard_def sys_kill_def Let_def)
  have ih: "fst (each (kill_hard os) ss ?w) = ss" "extends ?w ?r"
    "\<forall>s \<in> set ss. active s \<longrightarrow> (pid s > 0 \<longrightarrow> (- pid s, SIGKILL) \<in> sent ?w ?r) \<and>
      (log_pid s > 0 \<longrightarrow> (log_pid s, SIGKILL) \<in> sent ?w ?r)"
    using Cons.IH [of ?w] by simp_all
  have "sent w ?r = set ?ks \<union> sent ?w ?r"
    using sent_trans [OF one(2) ih(2)] sent_kill_log [OF one(2,3)] by simp
  moreover have "each (kill_hard os) (s # ss) w = (s # ss, ?r)"
    using one(1) ih(1) by (simp add: Let_def split_def)
  ultimately show ?case using ih(3) extends_trans [OF one(2) ih(2)] by simp
qed simp

text \<open>The phases of the shutdown.\<close>

lemma shutdown_phases:
  assumes "sys_ok services w" "main_shutdown os root cf services w = Some (ss, w')"
  shows "\<exists>s1 u s2 v k s3 z. stop_all_in_order os services (supervisor_log os ''shutting down services'' w) = (s1, u) \<and>
    sys_ok s1 (snd (mono_now os u)) \<and>
    wait_loop os (wrap_i64 (fst (mono_now os u) + 5)) 100 s1 (snd (mono_now os u)) = Some (s2, v) \<and>
    each (kill_hard os) s2 v = (s2, k) \<and> sys_ok s2 (snd (mono_now os k)) \<and>
    wait_loop os (wrap_i64 (fst (mono_now os k) + 2)) 50 s2 (snd (mono_now os k)) = Some (s3, z) \<and>
    extends z w'"
proof -
  obtain s1 u where s: "stop_all_in_order os services (supervisor_log os ''shutting down services'' w) = (s1, u)"
    by (metis prod.collapse)
  obtain s2 v where l1: "wait_loop os (wrap_i64 (fst (mono_now os u) + 5)) 100 s1 (snd (mono_now os u)) = Some (s2, v)"
    using assms(2) s by (auto simp: main_shutdown_def Let_def split_def bind_eq_Some_conv)
  obtain k where k: "each (kill_hard os) s2 v = (s2, k)" using kill_hard_each by (metis prod.collapse)
  obtain s3 z where l2: "wait_loop os (wrap_i64 (fst (mono_now os k) + 2)) 50 s2 (snd (mono_now os k)) = Some (s3, z)"
    using assms(2) s l1 k by (auto simp: main_shutdown_def Let_def split_def bind_eq_Some_conv)
  let ?f = "each (final_close os) s3 z"
  have "w' = main_cleanup os root cf (supervisor_log os ''shutdown complete'' (snd ?f))"
    using assms(2) s l1 k l2 by (auto simp: main_shutdown_def Let_def split_def)
  moreover have "extends z (snd ?f)" using each_final_frame by blast
  ultimately have "extends z w'" by (simp add: main_cleanup_def Let_def del: cs_push.simps)
  have "sys_ok services (supervisor_log os ''shutting down services'' w)"
    by (rule sys_ok_mono [OF assms(1)]) simp_all
  from stop_all_ok [OF this, of os] have "sys_ok s1 u" by (simp add: s)
  then have o1: "sys_ok s1 (snd (mono_now os u))" by (rule sys_ok_mono) simp_all
  from wait_loop_ok [OF l1 this] have "sys_ok s2 v" by simp
  from killing.each_ok [OF this, of os] have "sys_ok s2 k" by (simp add: k)
  then have "sys_ok s2 (snd (mono_now os k))" by (rule sys_ok_mono) simp_all
  with s l1 k l2 o1 \<open>extends z w'\<close> show ?thesis by blast
qed

lemma stop_all_asks:
  assumes "sys_ok services w" "stop_all_in_order os services w = (ss, w')" "i < length services"
    "active (services ! i)"
  shows "extends w w' \<and> i < length ss \<and> same_pids (services ! i) (ss ! i) \<and>
    (pid (services ! i) > 0 \<longrightarrow> (- pid (services ! i), SIGTERM) \<in> sent w w') \<and>
    (log_pid (services ! i) > 0 \<longrightarrow> log_stopping (services ! i) \<or> i \<notin> to_stop services \<or>
       (log_pid (services ! i), SIGTERM) \<in> sent w w')"
proof -
  obtain ord r where so: "stop_order services = (ord, r)" by (cases "stop_order services")
  have len: "length services \<le> MAX_SERVICES" using assms(1) by (simp add: sys_ok_def)
  let ?idx = "ord @ filter (\<lambda>i. i \<in> still r) [0..<length services]"
  obtain v where v: "stop_all_in_order os services w = (map (\<lambda>i. if i \<in> to_stop services
      then stopped (services ! i) else services ! i) [0..<length services], v)"
    "kill_log v = kill_log w @ concat (map (\<lambda>i. stop_signals (services ! i)) ?idx)"
    using stop_all_effect [OF len so] by blast
  then have w': "w' = v" and ss: "ss ! i = (if i \<in> to_stop services then stopped (services ! i) else services ! i)"
    "length ss = length services" using assms(2,3) by auto
  have ext: "extends w w'" using extends_stop_all [of w os services] assms(2) by simp
  have "set ?idx = to_stop services"
    using stop_order_spec(2,3) [OF len so] by (auto simp: to_stop_def)
  then have "set (stop_signals (services ! i)) \<subseteq> sent w w'" if "i \<in> to_stop services"
    using sent_kill_log [OF ext v(2) [folded w']] that by auto
  moreover have "i \<in> to_stop services" if "pid (services ! i) > 0"
    using sys_ok_nth [OF assms(1,3)] assms(3,4) that by (auto simp: to_stop_def svc_ok_def svc_inv_def)
  moreover have "same_pids (services ! i) (ss ! i)"
    by (simp add: ss(1) same_pids_def stopped_def mark_stopping_def Let_def)
  ultimately show ?thesis using ext ss(2) assms(3,4) by (auto simp: stop_signals_def)
qed

text \<open>What becomes of the processes of an entry.\<close>

lemma shutdown_ended:
  assumes "sys_ok services w" "main_shutdown os root cf services w = Some (ss, w')"
    "s \<in> set services" "active s"
  shows "(pid s > 0 \<longrightarrow> ended os w w' False (pid s) (- pid s)) \<and>
    (log_pid s > 0 \<longrightarrow> ended os w w'
       (log_stopping s \<or> state s \<noteq> STATE_RUNNING \<and> state s \<noteq> STATE_STOPPING) (log_pid s) (log_pid s))"
proof -
  obtain i where i: "i < length services" "services ! i = s" using assms(3) by (auto simp: in_set_conv_nth)
  obtain s1 u s2 v k s3 z where
    stop: "stop_all_in_order os services (supervisor_log os ''shutting down services'' w) = (s1, u)"
    and o1: "sys_ok s1 (snd (mono_now os u))"
    and l1: "wait_loop os (wrap_i64 (fst (mono_now os u) + 5)) 100 s1 (snd (mono_now os u)) = Some (s2, v)"
    and k: "each (kill_hard os) s2 v = (s2, k)" and o2: "sys_ok s2 (snd (mono_now os k))"
    and l2: "wait_loop os (wrap_i64 (fst (mono_now os k) + 2)) 50 s2 (snd (mono_now os k)) = Some (s3, z)"
    and z: "extends z w'"
    using shutdown_phases [OF assms(1,2)] by auto
  let ?w = "supervisor_log os ''shutting down services'' w"
  have ok: "sys_ok services ?w" by (rule sys_ok_mono [OF assms(1)]) simp_all
  have act: "active (services ! i)" using i(2) assms(4) by simp
  note asks = stop_all_asks [OF ok stop i(1) act, unfolded i(2)]
  have w: "extends w ?w" "extends ?w u" using asks by simp_all
  have sent: "sent w u = sent ?w u" using sent_trans [OF w] sent_kill_log [OF w(1), of "[]"] by simp
  have p1: "active (s1 ! i)" "pid (s1 ! i) = pid s" "log_pid (s1 ! i) = log_pid s" "i < length s1"
    using asks assms(4) by (simp_all add: same_pids_def)
  note w1 = wait_loop_waited [OF l1 o1 p1(4,1), unfolded p1(2,3)]
  then have a2: "active (s2 ! i)" "i < length s2" by simp_all
  note w2 = wait_loop_waited [OF l2 o2 a2(2,1)]
  have kill: "extends v k" "(pid (s2 ! i) > 0 \<longrightarrow> (- pid (s2 ! i), SIGKILL) \<in> sent v k) \<and>
      (log_pid (s2 ! i) > 0 \<longrightarrow> (log_pid (s2 ! i), SIGKILL) \<in> sent v k)"
    using kill_hard_each [of os s2 v] a2 nth_mem [OF a2(2)] unfolding k by auto
  have wu: "extends w u" by (rule extends_trans [OF w])
  have kz: "extends k z" using all_held_def wait_loop_held [OF l2 o2] extends_trans [of k "snd (mono_now os k)" z]
    by simp
  have vw: "extends v w'" using extends_trans [OF extends_trans [OF kill(1) kz] z] .
  have "ended os w w' False (pid s) (- pid s)" if "pid s > 0"
    unfolding ended_def using that asks wu sent w1 w2 kill vw z by metis
  moreover have "ended os w w' (log_stopping s \<or> i \<notin> to_stop services) (log_pid s) (log_pid s)" if "log_pid s > 0"
    unfolding ended_def using that asks wu sent w1 w2 kill vw z by metis
  moreover have "i \<notin> to_stop services \<longleftrightarrow> state s \<noteq> STATE_RUNNING \<and> state s \<noteq> STATE_STOPPING"
    using i act by (auto simp: to_stop_def)
  ultimately show ?thesis by simp
qed


section \<open>The shutdown returns\<close>

text \<open>The sleeps of a run, and a kernel whose clock reaches every value when the program only sleeps
  often enough, and whose descriptors all run dry.\<close>

fun sleeps :: "event list \<Rightarrow> nat" where
  "sleeps [] = 0"
| "sleeps (e # es) = (case e of EAsk (QNanosleep _ _) \<Rightarrow> 1 | _ \<Rightarrow> 0) + sleeps es"

definition clock_moves :: "os \<Rightarrow> bool" where
  "clock_moves os \<longleftrightarrow> (\<forall>d. in_i64 d \<longrightarrow>
     (\<exists>n. \<forall>tr. n \<le> sleeps tr \<longrightarrow> (\<exists>t. os_clock os tr = Some t \<and> in_i64 t \<and> d \<le> t)))"

definition pipes_run_dry :: "os \<Rightarrow> bool" where
  "pipes_run_dry os \<longleftrightarrow> (\<forall>fd. \<exists>n. runs_dry os fd n world_start)"

lemma sleeps_append: "sleeps (es @ fs) = sleeps es + sleeps fs"
  by (induction es) simp_all

lemma sleeps_mono: "extends w w' \<Longrightarrow> sleeps (trace w) \<le> sleeps (trace w')"
  by (auto simp: extends_def sleeps_append)

lemma sleep_ms_sleeps: "sleeps (trace w) < sleeps (trace (sleep_ms os ms w))"
proof -
  have "sleeps (trace w) < sleeps (trace (sleep_loop os k a b w))" for k a b
    by (induction k arbitrary: a b w) (force simp: Let_def split_def intro: less_trans [rotated])+
  then show ?thesis by (simp add: sleep_ms_def Let_def)
qed

lemma dry_anywhere: "runs_dry os fd n world_start \<Longrightarrow> runs_dry os fd n w"
  unfolding runs_dry_def by (intro allI impI, erule allE, erule mp) (simp add: world_start_def)

lemma drain_one_returns:
  assumes "pipes_run_dry os" "i < length (streams s)"
  shows "\<exists>r. drain_one os i s w = Some r"
proof -
  obtain n where "runs_dry os (read_fd (streams s ! i)) n w"
    using assms(1) dry_anywhere unfolding pipes_run_dry_def by blast
  from drain_stream_dry [OF this refl _ assms(2)] show ?thesis by (auto simp: drain_one_def)
qed

lemma drain_all_returns:
  assumes "pipes_run_dry os"
  shows "\<forall>s \<in> set ss. length (streams s) = 2 \<Longrightarrow> \<exists>r. drain_all_once os ss w = Some r"
proof (induction ss arbitrary: w)
  case (Cons s ss)
  have "\<exists>s' w'. (if active s then Option.bind (drain_one os 0 s w) (\<lambda>(s, w). drain_one os 1 s w)
      else Some (s, w)) = Some (s', w')"
  proof (cases "active s")
    case True
    obtain s0 w0 where r0: "drain_one os 0 s w = Some (s0, w0)"
      using drain_one_returns [OF assms, of 0 s w] Cons.prems by auto
    then have "length (streams s0) = 2"
      using stream_only_keeps(11) [OF drain_one_frame(1) [OF r0]] Cons.prems by simp
    with drain_one_returns [OF assms, of 1 s0 w0] r0 True show ?thesis by auto
  qed simp
  then obtain s1 w1 where one: "(if active s then Option.bind (drain_one os 0 s w) (\<lambda>(s, w). drain_one os 1 s w)
      else Some (s, w)) = Some (s1, w1)" by blast
  obtain ss1 w2 where "drain_all_once os ss w1 = Some (ss1, w2)" using Cons by fastforce
  with one show ?case by simp
qed simp

lemma wait_turn_returns:
  assumes "waits_for_children os" "pipes_run_dry os" "sys_ok services w"
  shows "\<exists>go ss w'. wait_turn os dl ms services w = Some (go, ss, w') \<and>
    (go \<longrightarrow> sleeps (trace w) < sleeps (trace w') \<and>
      (\<exists>x. sleeps (trace x) < sleeps (trace w') \<and> sleeps (trace w) \<le> sleeps (trace x) \<and> fst (mono_now os x) < dl))"
proof -
  obtain need s0 w0 where "reaps os False services w need s0 w0" using reaps_total [OF assms(1)] by blast
  then have "reap_loop os False services w = Some (need, s0, w0)" by (simp add: reap_loop_iff)
  then have "\<exists>s1 w1. reap_children os services w = Some (s1, w1)"
    by (simp add: reap_children_def Let_def split_def)
  then obtain s1 w1 where r: "reap_children os services w = Some (s1, w1)" by blast
  have "sys_ok s1 w1" using reap_children_ok [OF assms(3) r] by (simp add: table_ok_def)
  then have "\<forall>s \<in> set s1. length (streams s) = 2"
    by (auto simp: sys_ok_def svc_ok_def svc_inv_def svc_wf_def list_all_iff)
  then obtain s2 w2 where d: "drain_all_once os s1 w1 = Some (s2, w2)"
    using drain_all_returns [OF assms(2)] by fastforce
  have e: "sleeps (trace w) \<le> sleeps (trace w2)"
    using sleeps_mono all_held_trans [OF reap_children_held [OF assms(3) r] drain_all_held [OF d]]
    by (simp add: all_held_def)
  have m: "sleeps (trace w2) \<le> sleeps (trace (snd (mono_now os w2)))" by (rule sleeps_mono) simp
  have l: "sleeps (trace (snd (mono_now os w2))) < sleeps (trace (sleep_ms os ms (snd (mono_now os w2))))"
    by (rule sleep_ms_sleeps)
  have t: "wait_turn os dl ms services w = Some (if \<not> any_open_services s2 then (False, s2, w2)
      else if fst (mono_now os w2) \<ge> dl then (False, s2, snd (mono_now os w2))
      else (True, s2, sleep_ms os ms (snd (mono_now os w2))))"
    using r d by (simp add: wait_turn_def Let_def split_def)
  show ?thesis
  proof (cases "any_open_services s2 \<and> fst (mono_now os w2) < dl")
    case True
    let ?v = "sleep_ms os ms (snd (mono_now os w2))"
    have "wait_turn os dl ms services w = Some (True, s2, ?v)" using t True by simp
    moreover have "sleeps (trace w2) < sleeps (trace ?v)" using m l by linarith
    ultimately show ?thesis using e True less_le_trans le_less_trans by blast
  next
    case False
    then have "\<exists>x. wait_turn os dl ms services w = Some (False, s2, x)" using t by auto
    then show ?thesis by blast
  qed
qed

lemma wait_loop_returns:
  assumes "waits_for_children os" "pipes_run_dry os"
    "\<forall>tr. n \<le> sleeps tr \<longrightarrow> (\<exists>t. os_clock os tr = Some t \<and> in_i64 t \<and> dl \<le> t)"
  shows "sys_ok services w \<Longrightarrow> \<exists>r. wait_loop os dl ms services w = Some r"
proof (induction "n - sleeps (trace w)" arbitrary: services w rule: less_induct)
  case less
  obtain go ss w' where t: "wait_turn os dl ms services w = Some (go, ss, w')"
    "go \<Longrightarrow> sleeps (trace w) < sleeps (trace w')"
    "go \<Longrightarrow> \<exists>x. sleeps (trace x) < sleeps (trace w') \<and> sleeps (trace w) \<le> sleeps (trace x) \<and> fst (mono_now os x) < dl"
    using wait_turn_returns [OF assms(1,2) less.prems, of dl ms] by blast
  show ?case
  proof (cases go)
    case True
    then obtain x where x: "sleeps (trace w) \<le> sleeps (trace x)" "fst (mono_now os x) < dl" using t(3) by blast
    have "\<not> n \<le> sleeps (trace x)"
      using x(2) assms(3) by (auto simp: mono_now_def wrap_i64_id dest!: spec [of _ "trace x"])
    then have "n - sleeps (trace w') < n - sleeps (trace w)" using x(1) t(2) True by linarith
    from less.hyps [OF this wait_turn_ok [OF less.prems t(1)]] t(1) True show ?thesis
      by (subst wait_loop.simps) simp
  qed (use t(1) in \<open>subst wait_loop.simps, simp\<close>)
qed

lemma shutdown_returns:
  assumes "waits_for_children os" "pipes_run_dry os" "clock_moves os" "sys_ok services w"
  shows "\<exists>ss w'. main_shutdown os root cf services w = Some (ss, w')"
proof -
  have loop: "\<exists>ss w'. wait_loop os (wrap_i64 d) ms services w = Some (ss, w') \<and> sys_ok ss w'"
    if ok: "sys_ok services w" for d ms services w
  proof -
    obtain n where n: "\<forall>tr. n \<le> sleeps tr \<longrightarrow> (\<exists>t. os_clock os tr = Some t \<and> in_i64 t \<and> wrap_i64 d \<le> t)"
      using assms(3) wrap_i64_in unfolding clock_moves_def by blast
    from wait_loop_returns [OF assms(1,2) n ok] obtain r where r: "wait_loop os (wrap_i64 d) ms services w = Some r"
      by blast
    from r wait_loop_ok [OF r ok] show ?thesis by (cases r) simp
  qed
  define s1 u where "s1 = fst (stop_all_in_order os services (supervisor_log os ''shutting down services'' w))"
    and "u = snd (stop_all_in_order os services (supervisor_log os ''shutting down services'' w))"
  have "sys_ok services (supervisor_log os ''shutting down services'' w)"
    by (rule sys_ok_mono [OF assms(4)]) simp_all
  from stop_all_ok [OF this, of os] have "sys_ok s1 u" by (simp add: s1_def u_def)
  then have "sys_ok s1 (snd (mono_now os u))" by (rule sys_ok_mono) simp_all
  from loop [OF this] obtain s2 v
    where l1: "wait_loop os (wrap_i64 (fst (mono_now os u) + 5)) 100 s1 (snd (mono_now os u)) = Some (s2, v)"
      and o2: "sys_ok s2 v" by blast
  define k where "k = snd (each (kill_hard os) s2 v)"
  have k: "each (kill_hard os) s2 v = (s2, k)" using kill_hard_each by (simp add: k_def prod_eq_iff)
  have "sys_ok s2 k" using killing.each_ok [OF o2, of os] by (simp add: k)
  then have "sys_ok s2 (snd (mono_now os k))" by (rule sys_ok_mono) simp_all
  from loop [OF this] obtain s3 z
    where l2: "wait_loop os (wrap_i64 (fst (mono_now os k) + 2)) 50 s2 (snd (mono_now os k)) = Some (s3, z)"
    by blast
  show ?thesis
    using l1 k l2 by (simp add: main_shutdown_def s1_def [symmetric] u_def [symmetric] Let_def split_def)
qed


text \<open>A kernel that never reports a child, and whose clock moves one second with each sleep.\<close>

definition os_patient :: os where
  "os_patient = os_idle\<lparr>os_clock := \<lambda>tr. Some (min i64_max (int (sleeps tr)))\<rparr>"

definition ex_up :: "service list" where
  "ex_up = ex_service ''db'' 5 STATE_RUNNING # replicate 255 SERVICE_ZERO"

lemma ex_up_ok: "sys_ok ex_up (world_forked 5)"
  using svc_ok_ZERO ex_running_ok [of 5 "''db''"]
  by (auto simp: sys_ok_def ex_up_def kills_ok_def kill_log_def world_forked_def world_start_def in_i32_def)

lemma patient_clock: "clock_moves os_patient"
proof -
  have "in_i64 (min i64_max (int (sleeps tr))) \<and> d \<le> min i64_max (int (sleeps tr))"
    if "in_i64 d" "nat d \<le> sleeps tr" for d tr
    using that by (auto simp: in_i64_def)
  then show ?thesis unfolding clock_moves_def by (auto simp: os_patient_def intro!: exI [of _ "nat _"])
qed


end
